theory Spec2Isabelle
  imports Main "HOL-Library.Char_ord" "HOL-Library.List_Lexorder"
begin

section \<open>Common data: positions, ranges, locations, JavaScript maps\<close>

text \<open>
  The language server is TypeScript. Objects become records, tagged unions become
  datatypes, a JavaScript \<open>Map\<close> becomes an association list kept in insertion order
  (\<open>Map.set\<close> overwrites the value of a present key where it stands and appends an
  absent key), a JavaScript \<open>Set\<close> becomes a list without repetitions kept in
  insertion order. A call that may recurse without bound takes a fuel argument that
  bounds the depth of the call stack; \<open>OutOfFuel\<close> is the outcome of a run that
  needs a deeper stack (in JavaScript it ends in a \<open>RangeError\<close>), \<open>Throws\<close> the outcome of a run that dereferences
  \<open>undefined\<close>.
\<close>

record Position =
  line :: nat
  character :: nat

record Range =
  range_start :: Position
  range_end :: Position

record Location =
  loc_uri :: string
  loc_range :: Range

datatype 'a outcome = OutOfFuel | Throws | Returns 'a

type_synonym ('k, 'v) jsmap = "('k \<times> 'v) list"

definition map_get :: "('k, 'v) jsmap \<Rightarrow> 'k \<Rightarrow> 'v option" where
  "map_get m k = map_of m k"

definition map_has :: "('k, 'v) jsmap \<Rightarrow> 'k \<Rightarrow> bool" where
  "map_has m k = (map_of m k \<noteq> None)"

fun map_set :: "('k, 'v) jsmap \<Rightarrow> 'k \<Rightarrow> 'v \<Rightarrow> ('k, 'v) jsmap" where
  "map_set [] k v = [(k, v)]"
| "map_set ((k', v') # m) k v = (if k' = k then (k, v) # m else (k', v') # map_set m k v)"

definition map_delete :: "('k, 'v) jsmap \<Rightarrow> 'k \<Rightarrow> ('k, 'v) jsmap" where
  "map_delete m k = filter (\<lambda>kv. fst kv \<noteq> k) m"

definition map_size :: "('k, 'v) jsmap \<Rightarrow> nat" where
  "map_size m = length m"

text \<open>The keys of a JavaScript map are pairwise different.\<close>

definition map_ok :: "('k, 'v) jsmap \<Rightarrow> bool" where
  "map_ok m = distinct (map fst m)"

text \<open>\<open>for (const [k, v] of src) dst.set(k, v)\<close>\<close>

definition map_set_all :: "('k, 'v) jsmap \<Rightarrow> ('k, 'v) jsmap \<Rightarrow> ('k, 'v) jsmap" where
  "map_set_all dst src = fold (\<lambda>kv acc. map_set acc (fst kv) (snd kv)) src dst"

text \<open>\<open>Set.add\<close> on a set kept as a list in insertion order.\<close>

definition set_add :: "'a list \<Rightarrow> 'a \<Rightarrow> 'a list" where
  "set_add s x = (if x \<in> set s then s else s @ [x])"


section \<open>The type system (typeSystem.ts)\<close>

datatype TypeInfo =
    BuiltinType string
  | ClassType string
  | ListType TypeInfo
  | BitsType nat

record FieldInfo =
  fi_name :: string
  fi_type :: TypeInfo
  fi_location :: Location
  fi_declaringClass :: string

record ArgumentInfo =
  ai_name :: string
  ai_type :: TypeInfo
  ai_location :: Location
  ai_hasDefault :: bool

datatype ClassKind = KClass | KMulticlass | KDef | KDefm

record ClassInfo =
  ci_name :: string
  ci_kind :: ClassKind
  ci_location :: Location
  ci_uri :: string
  ci_parentClasses :: "string list"
  ci_arguments :: "ArgumentInfo list"
  ci_fields :: "(string, FieldInfo) jsmap"
  ci_allFields :: "(string, FieldInfo) jsmap option"
  ci_isForwardDeclaration :: bool

record TypeSystem =
  classes :: "(string, ClassInfo) jsmap"
  fileClasses :: "(string, string list) jsmap"

definition emptyTypeSystem :: TypeSystem where
  "emptyTypeSystem = \<lparr>classes = [], fileClasses = []\<rparr>"

definition getClass :: "TypeSystem \<Rightarrow> string \<Rightarrow> ClassInfo option" where
  "getClass ts name = map_get (classes ts) name"

text \<open>
  \<open>TypeSystem.addClass\<close>: a forward declaration that arrives after a stored full
  definition is dropped (early return); every other arrival is stored, filed under its
  uri, and its cached merged view is reset.
\<close>

definition addClass :: "ClassInfo \<Rightarrow> TypeSystem \<Rightarrow> TypeSystem" where
  "addClass info ts =
     (let store = \<lparr>classes = map_set (classes ts) (ci_name info) (info\<lparr>ci_allFields := None\<rparr>),
                    fileClasses =
                      map_set (fileClasses ts) (ci_uri info)
                        (set_add (case map_get (fileClasses ts) (ci_uri info) of
                                    None \<Rightarrow> [] | Some s \<Rightarrow> s) (ci_name info))\<rparr>
      in case map_get (classes ts) (ci_name info) of
           None \<Rightarrow> store
         | Some existing \<Rightarrow>
             if \<not> ci_isForwardDeclaration existing \<and> ci_isForwardDeclaration info
             then ts else store)"

text \<open>
  \<open>TypeSystem.getAllFields\<close>. The cache lives in the stored \<open>ClassInfo\<close>, so the
  call returns the registry as well. The recursion over the parents has no guard of
  its own; the fuel bounds its depth.
\<close>

fun getAllFields :: "nat \<Rightarrow> TypeSystem \<Rightarrow> string \<Rightarrow> ((string, FieldInfo) jsmap \<times> TypeSystem) outcome"
and mergeParentFields :: "nat \<Rightarrow> TypeSystem \<Rightarrow> string list \<Rightarrow> (string, FieldInfo) jsmap
      \<Rightarrow> ((string, FieldInfo) jsmap \<times> TypeSystem) outcome" where
  "getAllFields 0 ts className = OutOfFuel"
| "getAllFields (Suc n) ts className =
     (case map_get (classes ts) className of
        None \<Rightarrow> Returns ([], ts)
      | Some classInfo \<Rightarrow>
          (case ci_allFields classInfo of
             Some cached \<Rightarrow> Returns (cached, ts)
           | None \<Rightarrow>
               (case mergeParentFields n ts (ci_parentClasses classInfo) [] of
                  OutOfFuel \<Rightarrow> OutOfFuel
                | Throws \<Rightarrow> Throws
                | Returns (inherited, ts') \<Rightarrow>
                    (let allFields = map_set_all inherited (ci_fields classInfo)
                     in Returns (allFields,
                          ts'\<lparr>classes := map_set (classes ts') className
                                (classInfo\<lparr>ci_allFields := Some allFields\<rparr>)\<rparr>)))))"
| "mergeParentFields n ts [] allFields = Returns (allFields, ts)"
| "mergeParentFields n ts (parentName # rest) allFields =
     (case getAllFields n ts parentName of
        OutOfFuel \<Rightarrow> OutOfFuel
      | Throws \<Rightarrow> Throws
      | Returns (parentFields, ts') \<Rightarrow>
          mergeParentFields n ts' rest (map_set_all allFields parentFields))"

text \<open>\<open>TypeSystem.findFieldDefinition\<close>: own fields first, then the parents in order.\<close>

fun findFieldDefinition :: "nat \<Rightarrow> TypeSystem \<Rightarrow> string \<Rightarrow> string \<Rightarrow> FieldInfo option outcome"
and findInParents :: "nat \<Rightarrow> TypeSystem \<Rightarrow> string list \<Rightarrow> string \<Rightarrow> FieldInfo option outcome" where
  "findFieldDefinition 0 ts className fieldName = OutOfFuel"
| "findFieldDefinition (Suc n) ts className fieldName =
     (case map_get (classes ts) className of
        None \<Rightarrow> Returns None
      | Some classInfo \<Rightarrow>
          (case map_get (ci_fields classInfo) fieldName of
             Some ownField \<Rightarrow> Returns (Some ownField)
           | None \<Rightarrow> findInParents n ts (ci_parentClasses classInfo) fieldName))"
| "findInParents n ts [] fieldName = Returns None"
| "findInParents n ts (parentName # rest) fieldName =
     (case findFieldDefinition n ts parentName fieldName of
        OutOfFuel \<Rightarrow> OutOfFuel
      | Throws \<Rightarrow> Throws
      | Returns (Some parentField) \<Rightarrow> Returns (Some parentField)
      | Returns None \<Rightarrow> findInParents n ts rest fieldName)"

text \<open>
  \<open>TypeSystem.getAllParentClasses\<close>: the inner \<open>collect\<close> closure works on the two
  locals \<open>parents\<close> (an array) and \<open>visited\<close> (a set).
\<close>

fun collect :: "TypeSystem \<Rightarrow> nat \<Rightarrow> string \<Rightarrow> string list \<times> string list
      \<Rightarrow> (string list \<times> string list) outcome"
and collectParents :: "TypeSystem \<Rightarrow> nat \<Rightarrow> string list \<Rightarrow> string list \<times> string list
      \<Rightarrow> (string list \<times> string list) outcome" where
  "collect ts 0 name (parents, visited) = OutOfFuel"
| "collect ts (Suc n) name (parents, visited) =
     (case map_get (classes ts) name of
        None \<Rightarrow> Returns (parents, visited)
      | Some classInfo \<Rightarrow>
          if name \<in> set visited then Returns (parents, visited)
          else collectParents ts n (ci_parentClasses classInfo) (parents, set_add visited name))"
| "collectParents ts n [] (parents, visited) = Returns (parents, visited)"
| "collectParents ts n (parent # rest) (parents, visited) =
     (case collect ts n parent (if parent \<in> set parents then parents else parents @ [parent], visited) of
        OutOfFuel \<Rightarrow> OutOfFuel
      | Throws \<Rightarrow> Throws
      | Returns st \<Rightarrow> collectParents ts n rest st)"

definition getAllParentClasses :: "nat \<Rightarrow> TypeSystem \<Rightarrow> string \<Rightarrow> string list outcome" where
  "getAllParentClasses n ts className =
     (case collect ts n className ([], []) of
        OutOfFuel \<Rightarrow> OutOfFuel
      | Throws \<Rightarrow> Throws
      | Returns (parents, visited) \<Rightarrow> Returns parents)"


text \<open>The names under which the registry holds a class.\<close>

definition class_names :: "TypeSystem \<Rightarrow> string set" where
  "class_names ts = fst ` set (classes ts)"

text \<open>Example registrations: a class \<open>Foo\<close> declared forward, defined, declared forward again.\<close>

definition pos0 :: Location where
  "pos0 = \<lparr>loc_uri = ''file:///forward.td'',
            loc_range = \<lparr>range_start = \<lparr>line = 0, character = 0\<rparr>,
                         range_end = \<lparr>line = 0, character = 3\<rparr>\<rparr>\<rparr>"

definition fieldAt :: "string \<Rightarrow> nat \<Rightarrow> FieldInfo" where
  "fieldAt name ln =
     \<lparr>fi_name = name, fi_type = BuiltinType ''int'',
      fi_location = \<lparr>loc_uri = ''file:///forward.td'',
                      loc_range = \<lparr>range_start = \<lparr>line = ln, character = 0\<rparr>,
                                   range_end = \<lparr>line = ln, character = length name\<rparr>\<rparr>\<rparr>,
      fi_declaringClass = ''''\<rparr>"

definition classNamed :: "string \<Rightarrow> string list \<Rightarrow> (string, FieldInfo) jsmap \<Rightarrow> bool \<Rightarrow> ClassInfo" where
  "classNamed name parents ownFields fwd =
     \<lparr>ci_name = name, ci_kind = KClass, ci_location = pos0, ci_uri = ''file:///forward.td'',
      ci_parentClasses = parents, ci_arguments = [], ci_fields = ownFields,
      ci_allFields = None, ci_isForwardDeclaration = fwd\<rparr>"

text \<open>
  The results of the recursive \<open>getAllFields\<close> calls that one merge makes, parent by
  parent in declaration order; each call sees the caches its predecessors filled.
\<close>

inductive parentResults :: "nat \<Rightarrow> TypeSystem \<Rightarrow> string list \<Rightarrow> (string, FieldInfo) jsmap list
    \<Rightarrow> TypeSystem \<Rightarrow> bool" where
  parentResults_Nil: "parentResults n ts [] [] ts"
| parentResults_Cons:
    "getAllFields n ts parentName = Returns (parentFields, ts1) \<Longrightarrow>
     parentResults n ts1 rest views ts2 \<Longrightarrow>
     parentResults n ts (parentName # rest) (parentFields # views) ts2"

text \<open>Every map of the registry has pairwise different keys, as a JavaScript map has.\<close>

definition registry_ok :: "TypeSystem \<Rightarrow> bool" where
  "registry_ok ts =
     (\<forall>entry \<in> set (classes ts).
        map_ok (ci_fields (snd entry)) \<and>
        (case ci_allFields (snd entry) of None \<Rightarrow> True | Some cached \<Rightarrow> map_ok cached))"

text \<open>
  A rank that falls from every class without a cached view to each of its parents.
  Such a rank exists exactly when the inheritance among the classes without a cached
  view has no cycle; it bounds the depth of the calls of \<open>getAllFields\<close>, which
  stop at a class with a cached view and at an unregistered name.
\<close>

definition ranked :: "(string \<Rightarrow> nat) \<Rightarrow> TypeSystem \<Rightarrow> bool" where
  "ranked rank ts =
     (\<forall>entry \<in> set (classes ts).
        ci_allFields (snd entry) = None \<longrightarrow>
        (\<forall>parent \<in> set (ci_parentClasses (snd entry)). rank parent < rank (fst entry)))"

text \<open>The merged view, the field of a name in it and the registry, read off an outcome.\<close>

definition viewOf :: "((string, FieldInfo) jsmap \<times> TypeSystem) outcome \<Rightarrow> (string, FieldInfo) jsmap option" where
  "viewOf r = (case r of Returns (view, ts) \<Rightarrow> Some view | _ \<Rightarrow> None)"

definition fieldOf :: "((string, FieldInfo) jsmap \<times> TypeSystem) outcome \<Rightarrow> string \<Rightarrow> FieldInfo option" where
  "fieldOf r name = (case r of Returns (view, ts) \<Rightarrow> map_get view name | _ \<Rightarrow> None)"

definition registryOf :: "((string, FieldInfo) jsmap \<times> TypeSystem) outcome \<Rightarrow> TypeSystem" where
  "registryOf r = (case r of Returns (view, ts) \<Rightarrow> ts | _ \<Rightarrow> emptyTypeSystem)"

text \<open>
  Example classes. \<open>Base {F, G}\<close> and \<open>Child : Base {F, H}\<close>, with the fields on the
  lines the repository's test uses.
\<close>

definition baseClass :: ClassInfo where
  "baseClass = classNamed ''Base'' [] [(''F'', fieldAt ''F'' 1), (''G'', fieldAt ''G'' 2)] False"

definition childClass :: ClassInfo where
  "childClass = classNamed ''Child'' [''Base''] [(''F'', fieldAt ''F'' 10), (''H'', fieldAt ''H'' 11)] False"

text \<open>
  \<open>Child\<close> is registered and asked for its fields while \<open>Base\<close> is not registered yet;
  then \<open>Base\<close> is registered.
\<close>

definition staleRegistry :: TypeSystem where
  "staleRegistry =
     addClass baseClass (registryOf (getAllFields 2 (addClass childClass emptyTypeSystem) ''Child''))"

text \<open>
  \<open>Top {T}\<close>, \<open>Left : Top {X, Y}\<close>, \<open>Right {X, Z}\<close> and \<open>Both : Left, Right {Z, W}\<close>:
  \<open>X\<close> collides between the two parents, \<open>Z\<close> between the second parent and the class.
\<close>

definition topClass :: ClassInfo where
  "topClass = classNamed ''Top'' [] [(''T'', fieldAt ''T'' 0)] False"

definition leftClass :: ClassInfo where
  "leftClass = classNamed ''Left'' [''Top''] [(''X'', fieldAt ''X'' 1), (''Y'', fieldAt ''Y'' 2)] False"

definition rightClass :: ClassInfo where
  "rightClass = classNamed ''Right'' [] [(''X'', fieldAt ''X'' 3), (''Z'', fieldAt ''Z'' 4)] False"

definition bothClass :: ClassInfo where
  "bothClass = classNamed ''Both'' [''Left'', ''Right''] [(''Z'', fieldAt ''Z'' 5), (''W'', fieldAt ''W'' 6)] False"

definition bothRegistry :: TypeSystem where
  "bothRegistry =
     addClass bothClass (addClass rightClass (addClass leftClass (addClass topClass emptyTypeSystem)))"

definition bothRank :: "string \<Rightarrow> nat" where
  "bothRank name = (if name = ''Both'' then 2 else if name = ''Left'' then 1 else 0)"

text \<open>Two classes that name each other as parent.\<close>

definition cyclicRegistry :: TypeSystem where
  "cyclicRegistry =
     addClass (classNamed ''B'' [''A''] [] False) (addClass (classNamed ''A'' [''B''] [] False) emptyTypeSystem)"

section \<open>The symbol table (symbols.ts)\<close>

datatype SymbolKind =
    SymClass | SymDef | SymDefm | SymMulticlass | SymDefset | SymDefvar
  | SymField | SymTemplateArg | SymForeachVar | SymLetBinding

text \<open>
  \<open>scope\<close> and \<open>isForwardDeclaration\<close> are optional properties: \<open>None\<close> is
  \<open>undefined\<close>.
\<close>

record Symbol =
  sym_name :: string
  sym_kind :: SymbolKind
  sym_location :: Location
  sym_scope :: "string option"
  sym_isForwardDeclaration :: "bool option"

record SymbolReference =
  ref_name :: string
  ref_location :: Location
  ref_scope :: "string option"

record SymbolTable =
  globalSymbols :: "(string, Symbol list) jsmap"
  scopedSymbols :: "(string, (string, Symbol list) jsmap) jsmap"
  references :: "SymbolReference list"
  fileSymbols :: "(string, Symbol list) jsmap"
  fileReferences :: "(string, SymbolReference list) jsmap"

definition emptySymbolTable :: SymbolTable where
  "emptySymbolTable =
     \<lparr>globalSymbols = [], scopedSymbols = [], references = [], fileSymbols = [], fileReferences = []\<rparr>"

text \<open>JavaScript truthiness of an optional string and of an optional boolean.\<close>

definition truthy :: "string option \<Rightarrow> bool" where
  "truthy s = (case s of None \<Rightarrow> False | Some x \<Rightarrow> x \<noteq> [])"

definition isForward :: "Symbol \<Rightarrow> bool" where
  "isForward s = (sym_isForwardDeclaration s = Some True)"

definition sym_uri :: "Symbol \<Rightarrow> string" where
  "sym_uri s = loc_uri (sym_location s)"

definition ref_uri :: "SymbolReference \<Rightarrow> string" where
  "ref_uri r = loc_uri (ref_location r)"

text \<open>
  \<open>const idx = syms.findIndex(p); if (idx >= 0) syms.splice(idx, 1)\<close>: the first
  element that satisfies \<open>p\<close> leaves the array.
\<close>

fun spliceFirst :: "('a \<Rightarrow> bool) \<Rightarrow> 'a list \<Rightarrow> 'a list" where
  "spliceFirst p [] = []"
| "spliceFirst p (x # xs) = (if p x then xs else x # spliceFirst p xs)"

text \<open>The body of the loop of \<open>clearFile\<close> over the symbols filed under the uri.\<close>

definition clearSymbol :: "string \<Rightarrow> Symbol \<Rightarrow> SymbolTable \<Rightarrow> SymbolTable" where
  "clearSymbol uri old st =
     (if truthy (sym_scope old) then
        (case map_get (scopedSymbols st) (the (sym_scope old)) of
           None \<Rightarrow> st
         | Some scopeMap \<Rightarrow>
             (case map_get scopeMap (sym_name old) of
                None \<Rightarrow> st
              | Some syms \<Rightarrow>
                  st\<lparr>scopedSymbols := map_set (scopedSymbols st) (the (sym_scope old))
                       (map_set scopeMap (sym_name old)
                          (spliceFirst (\<lambda>s. sym_uri s = uri) syms))\<rparr>))
      else
        (case map_get (globalSymbols st) (sym_name old) of
           None \<Rightarrow> st
         | Some syms \<Rightarrow>
             st\<lparr>globalSymbols := map_set (globalSymbols st) (sym_name old)
                  (spliceFirst (\<lambda>s. sym_uri s = uri) syms)\<rparr>))"

definition clearFile :: "string \<Rightarrow> SymbolTable \<Rightarrow> SymbolTable" where
  "clearFile uri st =
     (let oldSymbols = (case map_get (fileSymbols st) uri of None \<Rightarrow> [] | Some l \<Rightarrow> l);
          st1 = fold (clearSymbol uri) oldSymbols st
      in st1\<lparr>fileSymbols := map_delete (fileSymbols st1) uri,
             references := filter (\<lambda>r. ref_uri r \<noteq> uri) (references st1),
             fileReferences := map_delete (fileReferences st1) uri\<rparr>)"

definition addSymbol :: "Symbol \<Rightarrow> SymbolTable \<Rightarrow> SymbolTable" where
  "addSymbol symbol st =
     (if sym_name symbol = [] then st
      else
        (let uri = sym_uri symbol;
             filed = (case map_get (fileSymbols st) uri of None \<Rightarrow> [] | Some l \<Rightarrow> l);
             st1 = st\<lparr>fileSymbols := map_set (fileSymbols st) uri (filed @ [symbol])\<rparr>
         in if truthy (sym_scope symbol) then
              (let scope = the (sym_scope symbol);
                   scopeMap = (case map_get (scopedSymbols st1) scope of None \<Rightarrow> [] | Some m \<Rightarrow> m);
                   syms = (case map_get scopeMap (sym_name symbol) of None \<Rightarrow> [] | Some l \<Rightarrow> l)
               in st1\<lparr>scopedSymbols := map_set (scopedSymbols st1) scope
                        (map_set scopeMap (sym_name symbol) (syms @ [symbol]))\<rparr>)
            else
              (let syms = (case map_get (globalSymbols st1) (sym_name symbol) of
                             None \<Rightarrow> [] | Some l \<Rightarrow> l)
               in st1\<lparr>globalSymbols := map_set (globalSymbols st1) (sym_name symbol)
                        (syms @ [symbol])\<rparr>)))"

definition addReference :: "SymbolReference \<Rightarrow> SymbolTable \<Rightarrow> SymbolTable" where
  "addReference ref st =
     (let uri = ref_uri ref;
          filed = (case map_get (fileReferences st) uri of None \<Rightarrow> [] | Some l \<Rightarrow> l)
      in st\<lparr>fileReferences := map_set (fileReferences st) uri (filed @ [ref]),
            references := references st @ [ref]\<rparr>)"

text \<open>\<open>syms.find(s => !s.isForwardDeclaration) || syms[0]\<close> on a non-empty array.\<close>

definition preferDefinition :: "Symbol list \<Rightarrow> Symbol option" where
  "preferDefinition syms =
     (case List.find (\<lambda>s. \<not> isForward s) syms of
        Some d \<Rightarrow> Some d
      | None \<Rightarrow> (case syms of [] \<Rightarrow> None | s # _ \<Rightarrow> Some s))"

definition findGlobal :: "SymbolTable \<Rightarrow> string \<Rightarrow> Symbol option" where
  "findGlobal st name =
     (case map_get (globalSymbols st) name of
        None \<Rightarrow> None
      | Some syms \<Rightarrow> if syms \<noteq> [] then preferDefinition syms else None)"

definition findDefinition :: "SymbolTable \<Rightarrow> string \<Rightarrow> string option \<Rightarrow> Symbol option" where
  "findDefinition st name scope =
     (if truthy scope then
        (case map_get (scopedSymbols st) (the scope) of
           None \<Rightarrow> findGlobal st name
         | Some scopeMap \<Rightarrow>
             (case map_get scopeMap name of
                None \<Rightarrow> findGlobal st name
              | Some syms \<Rightarrow> if syms \<noteq> [] then preferDefinition syms else findGlobal st name))
      else findGlobal st name)"

text \<open>
  \<open>findAllDefinitions\<close>: the global matches, then every scope's matches in the order of
  the scopes; the comparator of the (stable) sort only separates full definitions from
  forward declarations.
\<close>

definition findAllDefinitions :: "SymbolTable \<Rightarrow> string \<Rightarrow> Symbol list" where
  "findAllDefinitions st name =
     (let results =
            (case map_get (globalSymbols st) name of None \<Rightarrow> [] | Some l \<Rightarrow> l) @
            concat (map (\<lambda>entry. case map_get (snd entry) name of None \<Rightarrow> [] | Some l \<Rightarrow> l)
                        (scopedSymbols st))
      in filter (\<lambda>s. \<not> isForward s) results @ filter isForward results)"

definition findReferences :: "SymbolTable \<Rightarrow> string \<Rightarrow> SymbolReference list" where
  "findReferences st name = filter (\<lambda>r. ref_name r = name) (references st)"

definition getAllSymbolsInFile :: "SymbolTable \<Rightarrow> string \<Rightarrow> Symbol list" where
  "getAllSymbolsInFile st uri = (case map_get (fileSymbols st) uri of None \<Rightarrow> [] | Some l \<Rightarrow> l)"

definition getReferencesInFile :: "SymbolTable \<Rightarrow> string \<Rightarrow> SymbolReference list" where
  "getReferencesInFile st uri = (case map_get (fileReferences st) uri of None \<Rightarrow> [] | Some l \<Rightarrow> l)"

text \<open>The tables that the operations of the class build from the empty table.\<close>

inductive reachable :: "SymbolTable \<Rightarrow> bool" where
  reach_empty: "reachable emptySymbolTable"
| reach_addSymbol: "reachable st \<Longrightarrow> reachable (addSymbol symbol st)"
| reach_addReference: "reachable st \<Longrightarrow> reachable (addReference ref st)"
| reach_clearFile: "reachable st \<Longrightarrow> reachable (clearFile uri st)"

text \<open>The array a name has in the global index, or in a scope's index.\<close>

definition globalBucket :: "SymbolTable \<Rightarrow> string \<Rightarrow> Symbol list" where
  "globalBucket st name = (case map_get (globalSymbols st) name of None \<Rightarrow> [] | Some l \<Rightarrow> l)"

definition scopedBucket :: "SymbolTable \<Rightarrow> string \<Rightarrow> string \<Rightarrow> Symbol list" where
  "scopedBucket st scope name =
     (case map_get (scopedSymbols st) scope of
        None \<Rightarrow> []
      | Some scopeMap \<Rightarrow> (case map_get scopeMap name of None \<Rightarrow> [] | Some l \<Rightarrow> l))"

text \<open>
  Consistency of the indices: keys are pairwise different, and an index holds no more
  symbols of a file under a name than the file's own list files there.
\<close>

definition inGlobal :: "string \<Rightarrow> Symbol \<Rightarrow> bool" where
  "inGlobal name s = (\<not> truthy (sym_scope s) \<and> sym_name s = name)"

definition inScope :: "string \<Rightarrow> string \<Rightarrow> Symbol \<Rightarrow> bool" where
  "inScope scope name s = (truthy (sym_scope s) \<and> the (sym_scope s) = scope \<and> sym_name s = name)"

definition table_ok :: "SymbolTable \<Rightarrow> bool" where
  "table_ok st =
     (map_ok (globalSymbols st) \<and> map_ok (scopedSymbols st) \<and>
      (\<forall>entry \<in> set (scopedSymbols st). map_ok (snd entry)) \<and>
      (\<forall>uri name. length (filter (\<lambda>s. sym_uri s = uri) (globalBucket st name))
                    \<le> length (filter (inGlobal name) (getAllSymbolsInFile st uri))) \<and>
      (\<forall>uri scope name. length (filter (\<lambda>s. sym_uri s = uri) (scopedBucket st scope name))
                    \<le> length (filter (inScope scope name) (getAllSymbolsInFile st uri))))"

text \<open>What is left of an index once the symbols of a file are gone.\<close>

definition purge :: "string \<Rightarrow> (string, Symbol list) jsmap \<Rightarrow> (string, Symbol list) jsmap" where
  "purge uri m = map (\<lambda>entry. (fst entry, filter (\<lambda>s. sym_uri s \<noteq> uri) (snd entry))) m"

definition purgeScopes :: "string \<Rightarrow> (string, (string, Symbol list) jsmap) jsmap
    \<Rightarrow> (string, (string, Symbol list) jsmap) jsmap" where
  "purgeScopes uri m = map (\<lambda>entry. (fst entry, purge uri (snd entry))) m"

text \<open>Example symbols: a class \<open>Foo\<close> declared in two files, and a use of it.\<close>

definition classSymbolIn :: "string \<Rightarrow> string \<Rightarrow> Symbol" where
  "classSymbolIn name uri =
     \<lparr>sym_name = name, sym_kind = SymClass,
      sym_location = \<lparr>loc_uri = uri,
                       loc_range = \<lparr>range_start = \<lparr>line = 0, character = 0\<rparr>,
                                    range_end = \<lparr>line = 0, character = 3\<rparr>\<rparr>\<rparr>,
      sym_scope = None, sym_isForwardDeclaration = Some False\<rparr>"

definition referenceIn :: "string \<Rightarrow> string \<Rightarrow> SymbolReference" where
  "referenceIn name uri =
     \<lparr>ref_name = name,
      ref_location = \<lparr>loc_uri = uri,
                       loc_range = \<lparr>range_start = \<lparr>line = 1, character = 0\<rparr>,
                                    range_end = \<lparr>line = 1, character = 3\<rparr>\<rparr>\<rparr>,
      ref_scope = None\<rparr>"

section \<open>The include graph (includeGraph.ts)\<close>

text \<open>
  A file is named by its normalized path: \<open>path.normalize\<close>, which every entry point
  applies to its argument first, is the identity on such names.
\<close>

record IncludeGraph =
  rootFiles :: "(string, string list) jsmap"
  forwardIncludes :: "(string, string list) jsmap"
  reverseIncludes :: "(string, string list) jsmap"
  fileToRoot :: "(string, string) jsmap"
  visibleFilesCache :: "(string, string list) jsmap"

text \<open>\<open>this.forwardIncludes.get(file) || []\<close> and \<open>this.reverseIncludes.get(file) || []\<close>\<close>

definition includesOf :: "IncludeGraph \<Rightarrow> string \<Rightarrow> string list" where
  "includesOf g file = (case map_get (forwardIncludes g) file of None \<Rightarrow> [] | Some l \<Rightarrow> l)"

definition includersOf :: "IncludeGraph \<Rightarrow> string \<Rightarrow> string list" where
  "includersOf g file = (case map_get (reverseIncludes g) file of None \<Rightarrow> [] | Some l \<Rightarrow> l)"

text \<open>
  The \<open>while (queue.length > 0)\<close> loop of \<open>findRootFile\<close>, on its locals \<open>visited\<close> and
  \<open>queue\<close>; the fuel bounds the number of iterations. On success every visited file is
  cached under the root found.
\<close>

fun findRootLoop :: "nat \<Rightarrow> IncludeGraph \<Rightarrow> string list \<Rightarrow> string list
    \<Rightarrow> (string option \<times> IncludeGraph) outcome" where
  "findRootLoop 0 g visited queue = OutOfFuel"
| "findRootLoop (Suc n) g visited [] = Returns (None, g)"
| "findRootLoop (Suc n) g visited (current # rest) =
     (if current \<in> set visited then findRootLoop n g visited rest
      else
        (let visited1 = set_add visited current
         in if map_has (rootFiles g) current then
              Returns (Some current,
                g\<lparr>fileToRoot := fold (\<lambda>file m. map_set m file current) visited1 (fileToRoot g)\<rparr>)
            else
              findRootLoop n g visited1
                (rest @ filter (\<lambda>parent. parent \<notin> set visited1) (includersOf g current))))"

definition findRootFile :: "nat \<Rightarrow> IncludeGraph \<Rightarrow> string \<Rightarrow> (string option \<times> IncludeGraph) outcome" where
  "findRootFile n g file =
     (case map_get (fileToRoot g) file of
        Some root \<Rightarrow> Returns (Some root, g)
      | None \<Rightarrow>
          if map_has (rootFiles g) file then
            Returns (Some file, g\<lparr>fileToRoot := map_set (fileToRoot g) file file\<rparr>)
          else findRootLoop n g [] [file])"

text \<open>
  The two closures of \<open>getVisibleFiles\<close>, on its locals \<open>visibleFiles\<close> (an array) and
  \<open>visited\<close> (a set). The fuel bounds the depth of the recursion.
\<close>

fun collectUpToTarget :: "IncludeGraph \<Rightarrow> string \<Rightarrow> nat \<Rightarrow> string \<Rightarrow> string list \<times> string list
      \<Rightarrow> (bool \<times> string list \<times> string list) outcome"
and collectUpToTargetIn :: "IncludeGraph \<Rightarrow> string \<Rightarrow> nat \<Rightarrow> string list \<Rightarrow> string list \<times> string list
      \<Rightarrow> (bool \<times> string list \<times> string list) outcome" where
  "collectUpToTarget g target 0 file (visibleFiles, visited) = OutOfFuel"
| "collectUpToTarget g target (Suc n) file (visibleFiles, visited) =
     (if file \<in> set visited then Returns (False, visibleFiles, visited)
      else if file = target then Returns (True, visibleFiles @ [file], set_add visited file)
      else collectUpToTargetIn g target n (includesOf g file)
             (visibleFiles @ [file], set_add visited file))"
| "collectUpToTargetIn g target n [] (visibleFiles, visited) = Returns (False, visibleFiles, visited)"
| "collectUpToTargetIn g target n (includedFile # rest) (visibleFiles, visited) =
     (case collectUpToTarget g target n includedFile (visibleFiles, visited) of
        OutOfFuel \<Rightarrow> OutOfFuel
      | Throws \<Rightarrow> Throws
      | Returns (True, st) \<Rightarrow> Returns (True, st)
      | Returns (False, st) \<Rightarrow> collectUpToTargetIn g target n rest st)"

fun collectAllIncludes :: "IncludeGraph \<Rightarrow> nat \<Rightarrow> string \<Rightarrow> string list \<times> string list
      \<Rightarrow> (string list \<times> string list) outcome"
and collectAllIncludesIn :: "IncludeGraph \<Rightarrow> nat \<Rightarrow> string list \<Rightarrow> string list \<times> string list
      \<Rightarrow> (string list \<times> string list) outcome" where
  "collectAllIncludes g 0 file (visibleFiles, visited) = OutOfFuel"
| "collectAllIncludes g (Suc n) file (visibleFiles, visited) =
     collectAllIncludesIn g n (includesOf g file) (visibleFiles, visited)"
| "collectAllIncludesIn g n [] (visibleFiles, visited) = Returns (visibleFiles, visited)"
| "collectAllIncludesIn g n (includedFile # rest) (visibleFiles, visited) =
     (if includedFile \<in> set visited then collectAllIncludesIn g n rest (visibleFiles, visited)
      else
        (case collectAllIncludes g n includedFile
                (visibleFiles @ [includedFile], set_add visited includedFile) of
           OutOfFuel \<Rightarrow> OutOfFuel
         | Throws \<Rightarrow> Throws
         | Returns st \<Rightarrow> collectAllIncludesIn g n rest st))"

text \<open>
  \<open>getVisibleFiles\<close>: the cached list if there is one; the empty list, uncached, when no
  root is found (\<open>!rootFile\<close> also holds of the empty string); else the two walks, cached.
\<close>

definition getVisibleFiles :: "nat \<Rightarrow> IncludeGraph \<Rightarrow> string \<Rightarrow> (string list \<times> IncludeGraph) outcome" where
  "getVisibleFiles n g file =
     (case map_get (visibleFilesCache g) file of
        Some cached \<Rightarrow> Returns (cached, g)
      | None \<Rightarrow>
          (case findRootFile n g file of
             OutOfFuel \<Rightarrow> OutOfFuel
           | Throws \<Rightarrow> Throws
           | Returns (None, g1) \<Rightarrow> Returns ([], g1)
           | Returns (Some rootFile, g1) \<Rightarrow>
               if rootFile = [] then Returns ([], g1)
               else
                 (case collectUpToTarget g1 file n rootFile ([], []) of
                    OutOfFuel \<Rightarrow> OutOfFuel
                  | Throws \<Rightarrow> Throws
                  | Returns (found, st) \<Rightarrow>
                      (case collectAllIncludes g1 n file st of
                         OutOfFuel \<Rightarrow> OutOfFuel
                       | Throws \<Rightarrow> Throws
                       | Returns (visibleFiles, visited) \<Rightarrow>
                           Returns (visibleFiles,
                             g1\<lparr>visibleFilesCache :=
                                  map_set (visibleFilesCache g1) file visibleFiles\<rparr>)))))"






text \<open>The list a call returned, if it returned.\<close>

definition visibleOf :: "(string list \<times> IncludeGraph) outcome \<Rightarrow> string list option" where
  "visibleOf out = (case out of Returns (files, g) \<Rightarrow> Some files | _ \<Rightarrow> None)"






text \<open>
  A third example graph: root \<open>R\<close> includes \<open>A\<close>, \<open>A\<close> includes \<open>B\<close>, and a second
  root \<open>T\<close> includes \<open>B\<close> as well. \<open>graphOf\<close> reads the graph a call leaves behind.
\<close>

definition sharedGraph :: IncludeGraph where
  "sharedGraph =
     \<lparr>rootFiles = [(''/R.td'', []), (''/T.td'', [])],
      forwardIncludes = [(''/R.td'', [''/A.td'']), (''/A.td'', [''/B.td'']), (''/T.td'', [''/B.td''])],
      reverseIncludes = [(''/A.td'', [''/R.td'']), (''/B.td'', [''/A.td'', ''/T.td''])],
      fileToRoot = [], visibleFilesCache = []\<rparr>"

definition graphOf :: "(string list \<times> IncludeGraph) outcome \<Rightarrow> IncludeGraph" where
  "graphOf out = (case out of Returns (files, g) \<Rightarrow> g | _ \<Rightarrow> sharedGraph)"

section \<open>The syntax tree (types.ts)\<close>

record Identifier =
  id_name :: string
  id_range :: Range

text \<open>
  \<open>NumberLiteral\<close> holds what \<open>parseInt\<close> made of the token (\<open>None\<close> is \<open>NaN\<close>);
  \<open>BangOperator\<close> holds the operator, the captured type argument text if any, and the
  arguments; a dag argument is its value, its optional name and its range.
\<close>

datatype Expression =
    IdentifierExpr Identifier
  | NumberLiteral "int option" Range
  | StringLiteral string Range
  | CodeLiteral string Range
  | ListExpr "Expression list" Range
  | DagExpr Expression "(Expression \<times> Identifier option \<times> Range) list" Range
  | BangOperator string "string option" "Expression list" Range
  | FieldAccess Expression Identifier Range
  | ClassRefExpr Identifier "Expression list" Range

record ClassRef =
  cr_name :: Identifier
  cr_args :: "Expression list"
  cr_range :: Range

record TemplateArg =
  ta_argType :: string
  ta_name :: Identifier
  ta_defaultValue :: "Expression option"
  ta_range :: Range

record LetBinding =
  lb_name :: Identifier
  lb_value :: Expression
  lb_range :: Range

text \<open>
  The statements, with the properties of each interface in the order of their
  declaration and the range last: \<open>ClassDef name templateArgs parentClasses body
  isForwardDeclaration\<close>, \<open>RecordDef name parentClasses body\<close> (the name is \<open>null\<close> for
  an anonymous def), \<open>MultiClassDef name templateArgs parentClasses body\<close>,
  \<open>DefmDef name parentClasses\<close>, \<open>DefsetDef valueType name body\<close>,
  \<open>DefvarDef name value\<close>, \<open>FieldDef fieldType name value\<close>,
  \<open>LetStatement bindings body\<close>, \<open>ForeachStatement variable iterRange body\<close>,
  \<open>IfStatement condition thenBody elseBody\<close>, \<open>IncludeStatement path\<close>,
  \<open>AssertStatement condition message\<close>.
\<close>

datatype Statement =
    ClassDef Identifier "TemplateArg list" "ClassRef list" "Statement list" bool Range
  | RecordDef "Identifier option" "ClassRef list" "Statement list" Range
  | MultiClassDef Identifier "TemplateArg list" "ClassRef list" "Statement list" Range
  | DefmDef "Identifier option" "ClassRef list" Range
  | DefsetDef string Identifier "Statement list" Range
  | DefvarDef Identifier Expression Range
  | FieldDef string Identifier "Expression option" Range
  | LetStatement "LetBinding list" "Statement list" Range
  | ForeachStatement Identifier Expression "Statement list" Range
  | IfStatement Expression "Statement list" "Statement list" Range
  | IncludeStatement string Range
  | AssertStatement Expression Expression Range

text \<open>A \<open>MultiClassDef\<close> node on its own, as \<open>findMulticlassNode\<close> hands it out.\<close>

record MultiClass =
  mc_name :: Identifier
  mc_templateArgs :: "TemplateArg list"
  mc_parentClasses :: "ClassRef list"
  mc_body :: "Statement list"
  mc_range :: Range

record ParseError =
  pe_message :: string
  pe_range :: Range

record ParsedFile =
  pf_uri :: string
  pf_statements :: "Statement list"
  pf_includes :: "Statement list"
  pf_errors :: "ParseError list"

section \<open>The parser (parser.ts)\<close>

subsection \<open>Tokens and the cursor\<close>

datatype TokenType =
    TKeyword | TIdentifier | TNumber | TString | TCode | TOperator | TPunctuation
  | TComment | TEof

record Token =
  tk_type :: TokenType
  tk_value :: string
  tk_range :: Range

text \<open>
  The parser holds the token array, which it never changes, the cursor \<open>pos\<close> and the
  list \<open>errors\<close>. Only \<open>expect\<close> writes \<open>errors\<close>, and no parsing method calls
  \<open>expect\<close>; so the parsing methods below take the tokens and the cursor and return
  their result with the new cursor, and \<open>expect\<close> takes and returns the cursor and
  the errors.

  \<open>peek\<close> is \<open>tokens[pos + offset] || tokens[tokens.length - 1]\<close>. On an empty array
  this is \<open>undefined\<close> and every caller dereferences it at once; \<open>parse\<close> starts with
  a \<open>peek\<close>, so the empty array is handled there and \<open>peek\<close> is used on non-empty
  arrays only. \<open>advance\<close> is \<open>tokens[pos++]\<close>: the token is \<open>undefined\<close> (\<open>None\<close>)
  beyond the end, and the cursor moves in any case.
\<close>

definition peek :: "Token list \<Rightarrow> nat \<Rightarrow> nat \<Rightarrow> Token" where
  "peek tokens pos offset =
     (if pos + offset < length tokens then tokens ! (pos + offset) else last tokens)"

definition advance :: "Token list \<Rightarrow> nat \<Rightarrow> Token option \<times> nat" where
  "advance tokens pos = (if pos < length tokens then Some (tokens ! pos) else None, Suc pos)"

definition match :: "Token list \<Rightarrow> nat \<Rightarrow> TokenType \<Rightarrow> string option \<Rightarrow> bool" where
  "match tokens pos ty v =
     (let token = peek tokens pos 0
      in tk_type token = ty \<and> (case v of None \<Rightarrow> True | Some s \<Rightarrow> tk_value token = s))"



definition andThen :: "'a outcome \<Rightarrow> ('a \<Rightarrow> 'b outcome) \<Rightarrow> 'b outcome" where
  "andThen r k = (case r of OutOfFuel \<Rightarrow> OutOfFuel | Throws \<Rightarrow> Throws | Returns v \<Rightarrow> k v)"

text \<open>\<open>this.advance()\<close> where the token is read: a \<open>TypeError\<close> beyond the end.\<close>

definition advanceToken :: "Token list \<Rightarrow> nat \<Rightarrow> (Token \<times> nat) outcome" where
  "advanceToken tokens pos =
     (case fst (advance tokens pos) of
        None \<Rightarrow> Throws
      | Some token \<Rightarrow> Returns (token, snd (advance tokens pos)))"

definition parseIdentifier :: "Token list \<Rightarrow> nat \<Rightarrow> (Identifier \<times> nat) outcome" where
  "parseIdentifier tokens pos =
     andThen (advanceToken tokens pos)
       (\<lambda>(token, pos1). Returns (\<lparr>id_name = tk_value token, id_range = tk_range token\<rparr>, pos1))"

subsection \<open>Library functions of JavaScript\<close>

definition isWhiteSpace :: "char \<Rightarrow> bool" where
  "isWhiteSpace c = (c \<in> set [CHR '' '', CHR 0x09, CHR 0x0A, CHR 0x0B, CHR 0x0C, CHR 0x0D])"

text \<open>\<open>String.prototype.trim\<close>, on the white space of ASCII.\<close>

definition trim :: "string \<Rightarrow> string" where
  "trim s = rev (dropWhile isWhiteSpace (rev (dropWhile isWhiteSpace s)))"

definition digitValue :: "char \<Rightarrow> nat" where
  "digitValue c =
     (let k = of_char c :: nat
      in if 48 \<le> k \<and> k \<le> 57 then k - 48
         else if 97 \<le> k \<and> k \<le> 122 then k - 87
         else if 65 \<le> k \<and> k \<le> 90 then k - 55
         else 36)"

text \<open>
  \<open>parseInt\<close> with one argument: white space, a sign, the prefix \<open>0x\<close> or \<open>0X\<close> for
  radix 16, then the longest run of digits; \<open>NaN\<close> (\<open>None\<close>) if there is no digit.
  The value is the exact integer (JavaScript rounds it to a double beyond \<open>2^53\<close>).
\<close>

definition parseInt :: "string \<Rightarrow> int option" where
  "parseInt s =
     (let s1 = dropWhile isWhiteSpace s;
          negative = (s1 \<noteq> [] \<and> hd s1 = CHR ''-'');
          s2 = (if s1 \<noteq> [] \<and> (hd s1 = CHR ''-'' \<or> hd s1 = CHR ''+'') then tl s1 else s1);
          hex = (take 2 s2 = ''0x'' \<or> take 2 s2 = ''0X'');
          radix = (if hex then 16 else 10);
          s3 = (if hex then drop 2 s2 else s2);
          digits = takeWhile (\<lambda>c. digitValue c < radix) s3;
          magnitude = foldl (\<lambda>acc c. acc * int radix + int (digitValue c)) 0 digits
      in if digits = [] then None else Some (if negative then - magnitude else magnitude))"

fun expr_range :: "Expression \<Rightarrow> Range" where
  "expr_range (IdentifierExpr ident) = id_range ident"
| "expr_range (NumberLiteral v r) = r"
| "expr_range (StringLiteral v r) = r"
| "expr_range (CodeLiteral v r) = r"
| "expr_range (ListExpr elements r) = r"
| "expr_range (DagExpr operator args r) = r"
| "expr_range (BangOperator operator typeArgText args r) = r"
| "expr_range (FieldAccess object fld r) = r"
| "expr_range (ClassRefExpr name args r) = r"

subsection \<open>Expressions\<close>

text \<open>
  The methods that parse expressions call each other without bound. Each of them is
  a function of \<open>parseExpression\<close>, its argument \<open>parseExpr\<close>, and \<open>parseExpression\<close>
  itself is defined by recursion on the fuel, which bounds the nesting of the calls;
  every \<open>while\<close> loop is a function defined by recursion on the number of iterations
  it may still make.
\<close>

type_synonym exprParser = "nat \<Rightarrow> (Expression \<times> nat) outcome"

text \<open>
  \<open>while (!match(closer) && !match('eof', '')) { push(parseExpression());
  if (match(',')) advance(); }\<close> of \<open>parseClassRef\<close>, \<open>parseBangOperator\<close> and
  \<open>parseList\<close>.
\<close>

primrec expressionsUntil :: "nat \<Rightarrow> Token list \<Rightarrow> exprParser \<Rightarrow> string \<Rightarrow> nat \<Rightarrow> Expression list
      \<Rightarrow> (Expression list \<times> nat) outcome" where
  "expressionsUntil 0 tokens parseExpr closer pos args = OutOfFuel"
| "expressionsUntil (Suc k) tokens parseExpr closer pos args =
     (if \<not> match tokens pos TPunctuation (Some closer) \<and> \<not> match tokens pos TEof (Some [])
      then andThen (parseExpr pos)
             (\<lambda>(arg, pos1).
                expressionsUntil k tokens parseExpr closer
                  (if match tokens pos1 TPunctuation (Some '','') then snd (advance tokens pos1) else pos1)
                  (args @ [arg]))
      else Returns (args, pos))"

text \<open>The type of a template argument, with \<open>bits<n>\<close> and \<open>list<Type>\<close>.\<close>

definition parseBitsSuffix :: "Token list \<Rightarrow> string \<Rightarrow> nat \<Rightarrow> (string \<times> nat) outcome" where
  "parseBitsSuffix tokens argType pos =
     (if argType = ''bits'' \<and> match tokens pos TPunctuation (Some ''<'')
      then
        andThen
          (if match tokens (snd (advance tokens pos)) TNumber None
           then andThen (advanceToken tokens (snd (advance tokens pos)))
                  (\<lambda>(token, pos2). Returns (argType @ ''<'' @ tk_value token, pos2))
           else Returns (argType @ ''<'', snd (advance tokens pos)))
          (\<lambda>(argType2, pos2).
             if match tokens pos2 TPunctuation (Some ''>'')
             then Returns (argType2 @ ''>'', snd (advance tokens pos2))
             else Returns (argType2, pos2))
      else Returns (argType, pos))"

definition parseListSuffix :: "Token list \<Rightarrow> string \<Rightarrow> nat \<Rightarrow> (string \<times> nat) outcome" where
  "parseListSuffix tokens argType pos =
     (if argType = ''list'' \<and> match tokens pos TPunctuation (Some ''<'')
      then
        andThen
          (if match tokens (snd (advance tokens pos)) TKeyword None
              \<or> match tokens (snd (advance tokens pos)) TIdentifier None
           then andThen (advanceToken tokens (snd (advance tokens pos)))
                  (\<lambda>(token, pos2). Returns (argType @ ''<'' @ tk_value token, pos2))
           else Returns (argType @ ''<'', snd (advance tokens pos)))
          (\<lambda>(argType2, pos2).
             if match tokens pos2 TPunctuation (Some ''>'')
             then Returns (argType2 @ ''>'', snd (advance tokens pos2))
             else Returns (argType2, pos2))
      else Returns (argType, pos))"

definition parseTemplateArgType :: "Token list \<Rightarrow> nat \<Rightarrow> (string \<times> nat) outcome" where
  "parseTemplateArgType tokens pos =
     (if match tokens pos TKeyword None \<or> match tokens pos TIdentifier None
      then andThen (advanceToken tokens pos)
             (\<lambda>(token, pos1).
                andThen (parseBitsSuffix tokens (tk_value token) pos1)
                  (\<lambda>(argType1, pos2). parseListSuffix tokens argType1 pos2))
      else Returns ([], pos))"

text \<open>
  One iteration of the loop of \<open>parseTemplateArgs\<close>: type, name, default value; the
  argument is kept if it has a name; then a comma is consumed, or else, if the cursor
  has not moved since \<open>startPos\<close>, one token is skipped.
\<close>

definition parseTemplateArgName :: "Token list \<Rightarrow> nat \<Rightarrow> (Identifier option \<times> nat) outcome" where
  "parseTemplateArgName tokens pos =
     (if match tokens pos TIdentifier None
      then andThen (parseIdentifier tokens pos) (\<lambda>(name, pos1). Returns (Some name, pos1))
      else Returns (None, pos))"

definition parseTemplateArgDefault :: "Token list \<Rightarrow> exprParser \<Rightarrow> nat
      \<Rightarrow> (Expression option \<times> nat) outcome" where
  "parseTemplateArgDefault tokens parseExpr pos =
     (if match tokens pos TPunctuation (Some ''='')
      then andThen (parseExpr (snd (advance tokens pos)))
             (\<lambda>(defaultValue, pos1). Returns (Some defaultValue, pos1))
      else Returns (None, pos))"

definition parseTemplateArg :: "Token list \<Rightarrow> exprParser \<Rightarrow> nat \<Rightarrow> TemplateArg list
      \<Rightarrow> (TemplateArg list \<times> nat) outcome" where
  "parseTemplateArg tokens parseExpr pos args =
     (let startPos = pos; start = range_start (tk_range (peek tokens pos 0))
      in andThen (parseTemplateArgType tokens pos)
           (\<lambda>(argType, pos1).
              andThen (parseTemplateArgName tokens pos1)
                (\<lambda>(name, pos2).
                   andThen (parseTemplateArgDefault tokens parseExpr pos2)
                     (\<lambda>(defaultValue, pos3).
                        let args1 =
                              (case name of
                                 None \<Rightarrow> args
                               | Some ident \<Rightarrow>
                                   args @ [\<lparr>ta_argType = argType, ta_name = ident,
                                            ta_defaultValue = defaultValue,
                                            ta_range = \<lparr>range_start = start,
                                                        range_end = range_start (tk_range (peek tokens pos3 0))\<rparr>\<rparr>])
                        in if match tokens pos3 TPunctuation (Some '','')
                           then Returns (args1, snd (advance tokens pos3))
                           else if pos3 = startPos
                           then Returns (args1, snd (advance tokens pos3))
                           else Returns (args1, pos3)))))"

primrec templateArgsLoop :: "nat \<Rightarrow> Token list \<Rightarrow> exprParser \<Rightarrow> nat \<Rightarrow> TemplateArg list
      \<Rightarrow> (TemplateArg list \<times> nat) outcome" where
  "templateArgsLoop 0 tokens parseExpr pos args = OutOfFuel"
| "templateArgsLoop (Suc k) tokens parseExpr pos args =
     (if \<not> match tokens pos TPunctuation (Some ''>'') \<and> \<not> match tokens pos TEof (Some [])
      then andThen (parseTemplateArg tokens parseExpr pos args)
             (\<lambda>(args1, pos1). templateArgsLoop k tokens parseExpr pos1 args1)
      else Returns (args, pos))"

definition parseTemplateArgs :: "Token list \<Rightarrow> exprParser \<Rightarrow> nat \<Rightarrow> nat
      \<Rightarrow> (TemplateArg list \<times> nat) outcome" where
  "parseTemplateArgs tokens parseExpr n pos =
     (if \<not> match tokens pos TPunctuation (Some ''<'') then Returns ([], pos)
      else andThen (templateArgsLoop n tokens parseExpr (snd (advance tokens pos)) [])
             (\<lambda>(args, pos1).
                if match tokens pos1 TPunctuation (Some ''>'')
                then Returns (args, snd (advance tokens pos1))
                else Returns (args, pos1)))"

text \<open>The arguments \<open><...>\<close> of a class reference, if there are any.\<close>

definition parseClassRefArgs :: "Token list \<Rightarrow> exprParser \<Rightarrow> nat \<Rightarrow> nat
      \<Rightarrow> (Expression list \<times> nat) outcome" where
  "parseClassRefArgs tokens parseExpr n pos =
     (if match tokens pos TPunctuation (Some ''<'')
      then andThen (expressionsUntil n tokens parseExpr ''>'' (snd (advance tokens pos)) [])
             (\<lambda>(args, pos1).
                if match tokens pos1 TPunctuation (Some ''>'')
                then Returns (args, snd (advance tokens pos1))
                else Returns (args, pos1))
      else Returns ([], pos))"

definition parseClassRef :: "Token list \<Rightarrow> exprParser \<Rightarrow> nat \<Rightarrow> nat \<Rightarrow> (ClassRef \<times> nat) outcome" where
  "parseClassRef tokens parseExpr n pos =
     (let start = range_start (tk_range (peek tokens pos 0))
      in andThen (parseIdentifier tokens pos)
           (\<lambda>(name, pos1).
              andThen (parseClassRefArgs tokens parseExpr n pos1)
                (\<lambda>(args, pos2).
                   Returns (\<lparr>cr_name = name, cr_args = args,
                             cr_range = \<lparr>range_start = start,
                                         range_end = range_start (tk_range (peek tokens pos2 0))\<rparr>\<rparr>,
                            pos2))))"

text \<open>
  \<open>while (match('identifier')) { push(parseClassRef()); if (match(',')) advance();
  else break; }\<close>
\<close>

primrec parentClassesLoop :: "nat \<Rightarrow> Token list \<Rightarrow> exprParser \<Rightarrow> nat \<Rightarrow> nat \<Rightarrow> ClassRef list
      \<Rightarrow> (ClassRef list \<times> nat) outcome" where
  "parentClassesLoop 0 tokens parseExpr n pos parents = OutOfFuel"
| "parentClassesLoop (Suc k) tokens parseExpr n pos parents =
     (if match tokens pos TIdentifier None
      then andThen (parseClassRef tokens parseExpr n pos)
             (\<lambda>(parent, pos1).
                if match tokens pos1 TPunctuation (Some '','')
                then parentClassesLoop k tokens parseExpr n (snd (advance tokens pos1)) (parents @ [parent])
                else Returns (parents @ [parent], pos1))
      else Returns (parents, pos))"

definition parseParentClasses :: "Token list \<Rightarrow> exprParser \<Rightarrow> nat \<Rightarrow> nat
      \<Rightarrow> (ClassRef list \<times> nat) outcome" where
  "parseParentClasses tokens parseExpr n pos =
     (if \<not> match tokens pos TPunctuation (Some '':'') then Returns ([], pos)
      else parentClassesLoop n tokens parseExpr n (snd (advance tokens pos)) [])"

text \<open>
  The loop of \<open>parseBangTypeArgumentText\<close>; \<open>angleDepth\<close> is positive whenever the
  loop tests it, so that a natural number holds it.
\<close>

primrec bangTypeTokensLoop :: "nat \<Rightarrow> Token list \<Rightarrow> nat \<Rightarrow> nat \<Rightarrow> string list
      \<Rightarrow> (string list \<times> nat) outcome" where
  "bangTypeTokensLoop 0 tokens pos angleDepth typeTokens = OutOfFuel"
| "bangTypeTokensLoop (Suc k) tokens pos angleDepth typeTokens =
     (if 0 < angleDepth \<and> \<not> match tokens pos TEof (Some [])
      then andThen (advanceToken tokens pos)
             (\<lambda>(token, pos1).
                if tk_type token = TPunctuation \<and> tk_value token = ''<''
                then bangTypeTokensLoop k tokens pos1 (angleDepth + 1) (typeTokens @ [tk_value token])
                else if tk_type token = TPunctuation \<and> tk_value token = ''>''
                then (if angleDepth - 1 = 0 then Returns (typeTokens, pos1)
                      else bangTypeTokensLoop k tokens pos1 (angleDepth - 1)
                             (typeTokens @ [tk_value token]))
                else bangTypeTokensLoop k tokens pos1 angleDepth
                       (typeTokens @ [if tk_type token = TString
                                      then [CHR 0x22] @ tk_value token @ [CHR 0x22]
                                      else tk_value token]))
      else Returns (typeTokens, pos))"

definition parseBangTypeArgumentText :: "Token list \<Rightarrow> nat \<Rightarrow> nat \<Rightarrow> (string option \<times> nat) outcome" where
  "parseBangTypeArgumentText tokens n pos =
     (if \<not> match tokens pos TPunctuation (Some ''<'') then Returns (None, pos)
      else andThen (bangTypeTokensLoop n tokens (snd (advance tokens pos)) 1 [])
             (\<lambda>(typeTokens, pos1).
                let typeArgText = trim (concat typeTokens)
                in Returns (if 0 < length typeArgText then Some typeArgText else None, pos1)))"

text \<open>The arguments \<open>(...)\<close> of a bang operator, if there are any.\<close>

definition parseBangArgs :: "Token list \<Rightarrow> exprParser \<Rightarrow> nat \<Rightarrow> nat
      \<Rightarrow> (Expression list \<times> nat) outcome" where
  "parseBangArgs tokens parseExpr n pos =
     (if match tokens pos TPunctuation (Some ''('')
      then andThen (expressionsUntil n tokens parseExpr '')'' (snd (advance tokens pos)) [])
             (\<lambda>(args, pos1).
                if match tokens pos1 TPunctuation (Some '')'')
                then Returns (args, snd (advance tokens pos1))
                else Returns (args, pos1))
      else Returns ([], pos))"

definition parseBangOperator :: "Token list \<Rightarrow> exprParser \<Rightarrow> nat \<Rightarrow> nat \<Rightarrow> (Expression \<times> nat) outcome" where
  "parseBangOperator tokens parseExpr n pos =
     (let start = range_start (tk_range (peek tokens pos 0))
      in andThen (advanceToken tokens pos)
           (\<lambda>(opToken, pos1).
              andThen (parseBangTypeArgumentText tokens n pos1)
                (\<lambda>(typeArgText, pos2).
                   andThen (parseBangArgs tokens parseExpr n pos2)
                     (\<lambda>(args, pos3).
                        Returns (BangOperator (tk_value opToken) typeArgText args
                                   \<lparr>range_start = start,
                                    range_end = range_start (tk_range (peek tokens pos3 0))\<rparr>,
                                 pos3)))))"

definition parseList :: "Token list \<Rightarrow> exprParser \<Rightarrow> nat \<Rightarrow> nat \<Rightarrow> (Expression \<times> nat) outcome" where
  "parseList tokens parseExpr n pos =
     (let start = range_start (tk_range (peek tokens pos 0))
      in andThen (expressionsUntil n tokens parseExpr '']'' (snd (advance tokens pos)) [])
           (\<lambda>(elements, pos1).
              let end1 = range_end (tk_range (peek tokens pos1 0))
              in Returns (ListExpr elements \<lparr>range_start = start, range_end = end1\<rparr>,
                          if match tokens pos1 TPunctuation (Some '']'')
                          then snd (advance tokens pos1) else pos1)))"

text \<open>
  The loop of \<open>parseDag\<close>: a value, after a colon a name if the value of the next
  token starts with \<open>$\<close>, then a comma if there is one.
\<close>

definition parseDagArgName :: "Token list \<Rightarrow> nat \<Rightarrow> (Identifier option \<times> nat) outcome" where
  "parseDagArgName tokens pos =
     (if match tokens pos TPunctuation (Some '':'')
      then (if take 1 (tk_value (peek tokens (snd (advance tokens pos)) 0)) = ''$''
            then andThen (advanceToken tokens (snd (advance tokens pos)))
                   (\<lambda>(token, pos1).
                      Returns (Some \<lparr>id_name = tk_value token, id_range = tk_range token\<rparr>, pos1))
            else Returns (None, snd (advance tokens pos)))
      else Returns (None, pos))"

primrec dagArgsLoop :: "nat \<Rightarrow> Token list \<Rightarrow> exprParser \<Rightarrow> nat
      \<Rightarrow> (Expression \<times> Identifier option \<times> Range) list
      \<Rightarrow> ((Expression \<times> Identifier option \<times> Range) list \<times> nat) outcome" where
  "dagArgsLoop 0 tokens parseExpr pos args = OutOfFuel"
| "dagArgsLoop (Suc k) tokens parseExpr pos args =
     (if \<not> match tokens pos TPunctuation (Some '')'') \<and> \<not> match tokens pos TEof (Some [])
      then andThen (parseExpr pos)
             (\<lambda>(v, pos1).
                andThen (parseDagArgName tokens pos1)
                  (\<lambda>(name, pos2).
                     dagArgsLoop k tokens parseExpr
                       (if match tokens pos2 TPunctuation (Some '','') then snd (advance tokens pos2) else pos2)
                       (args @ [(v, name, expr_range v)])))
      else Returns (args, pos))"

definition parseDag :: "Token list \<Rightarrow> exprParser \<Rightarrow> nat \<Rightarrow> nat \<Rightarrow> (Expression \<times> nat) outcome" where
  "parseDag tokens parseExpr n pos =
     (let start = range_start (tk_range (peek tokens pos 0))
      in andThen (parseExpr (snd (advance tokens pos)))
           (\<lambda>(operator, pos1).
              andThen (dagArgsLoop n tokens parseExpr pos1 [])
                (\<lambda>(args, pos2).
                   let end1 = range_end (tk_range (peek tokens pos2 0))
                   in Returns (DagExpr operator args \<lparr>range_start = start, range_end = end1\<rparr>,
                               if match tokens pos2 TPunctuation (Some '')'')
                               then snd (advance tokens pos2) else pos2))))"

text \<open>
  The loop of a class instantiation \<open>Name<...>\<close> in \<open>parsePrimaryExpression\<close>: it
  leaves when neither a comma nor \<open>>\<close> follows an argument.
\<close>

primrec instantiationArgsLoop :: "nat \<Rightarrow> Token list \<Rightarrow> exprParser \<Rightarrow> nat \<Rightarrow> Expression list
      \<Rightarrow> (Expression list \<times> nat) outcome" where
  "instantiationArgsLoop 0 tokens parseExpr pos args = OutOfFuel"
| "instantiationArgsLoop (Suc k) tokens parseExpr pos args =
     (if \<not> match tokens pos TPunctuation (Some ''>'') \<and> \<not> match tokens pos TEof (Some [])
      then andThen (parseExpr pos)
             (\<lambda>(arg, pos1).
                if match tokens pos1 TPunctuation (Some '','')
                then instantiationArgsLoop k tokens parseExpr (snd (advance tokens pos1)) (args @ [arg])
                else if \<not> match tokens pos1 TPunctuation (Some ''>'')
                then Returns (args @ [arg], pos1)
                else instantiationArgsLoop k tokens parseExpr pos1 (args @ [arg]))
      else Returns (args, pos))"

definition parseIdentifierExpression :: "Token list \<Rightarrow> exprParser \<Rightarrow> nat \<Rightarrow> nat
      \<Rightarrow> (Expression \<times> nat) outcome" where
  "parseIdentifierExpression tokens parseExpr n pos =
     andThen (parseIdentifier tokens pos)
       (\<lambda>(ident, pos1).
          if match tokens pos1 TPunctuation (Some ''<'')
          then andThen (instantiationArgsLoop n tokens parseExpr (snd (advance tokens pos1)) [])
                 (\<lambda>(args, pos2).
                    let pos3 = (if match tokens pos2 TPunctuation (Some ''>'')
                                then snd (advance tokens pos2) else pos2)
                    in Returns (ClassRefExpr ident args
                                  \<lparr>range_start = range_start (id_range ident),
                                   range_end = range_start (tk_range (peek tokens pos3 0))\<rparr>,
                                pos3))
          else if match tokens pos1 TPunctuation (Some ''.'')
          then andThen (parseIdentifier tokens (snd (advance tokens pos1)))
                 (\<lambda>(fld, pos2).
                    Returns (FieldAccess (IdentifierExpr ident) fld
                               \<lparr>range_start = range_start (id_range ident),
                                range_end = range_end (id_range fld)\<rparr>,
                             pos2))
          else Returns (IdentifierExpr ident, pos1))"

definition parsePrimaryExpression :: "Token list \<Rightarrow> exprParser \<Rightarrow> nat \<Rightarrow> nat
      \<Rightarrow> (Expression \<times> nat) outcome" where
  "parsePrimaryExpression tokens parseExpr n pos =
     (let token = peek tokens pos 0
      in if tk_type token = TOperator \<and> take 1 (tk_value token) = ''!''
         then parseBangOperator tokens parseExpr n pos
         else if tk_type token = TNumber
         then Returns (NumberLiteral (parseInt (tk_value token)) (tk_range token), snd (advance tokens pos))
         else if tk_type token = TString
         then Returns (StringLiteral (tk_value token) (tk_range token), snd (advance tokens pos))
         else if tk_type token = TCode
         then Returns (CodeLiteral (tk_value token) (tk_range token), snd (advance tokens pos))
         else if match tokens pos TPunctuation (Some ''['')
         then parseList tokens parseExpr n pos
         else if match tokens pos TPunctuation (Some ''('')
         then parseDag tokens parseExpr n pos
         else if tk_type token = TIdentifier
         then parseIdentifierExpression tokens parseExpr n pos
         else Returns (IdentifierExpr \<lparr>id_name = [], id_range = tk_range token\<rparr>,
                       snd (advance tokens pos)))"

text \<open>\<open>parseExpression\<close> is \<open>parsePrimaryExpression\<close>; the fuel bounds the nesting.\<close>

primrec parseExpression :: "Token list \<Rightarrow> nat \<Rightarrow> exprParser" where
  "parseExpression tokens 0 = (\<lambda>pos. OutOfFuel)"
| "parseExpression tokens (Suc n) = parsePrimaryExpression tokens (parseExpression tokens n) n"

subsection \<open>Statements\<close>

text \<open>
  The methods that parse statements are functions of \<open>parseExpression\<close> and of
  \<open>parseStatement\<close>, their arguments \<open>parseExpr\<close> and \<open>parseStmt\<close>; \<open>parseStatement\<close>
  itself is defined by recursion on the fuel. \<open>parseStatement\<close> returns \<open>null\<close>
  (\<open>None\<close>) at the end of the input and for a token it skips.
\<close>

type_synonym stmtParser = "nat \<Rightarrow> (Statement option \<times> nat) outcome"

primrec bodyLoop :: "nat \<Rightarrow> Token list \<Rightarrow> stmtParser \<Rightarrow> nat \<Rightarrow> Statement list
      \<Rightarrow> (Statement list \<times> nat) outcome" where
  "bodyLoop 0 tokens parseStmt pos statements = OutOfFuel"
| "bodyLoop (Suc k) tokens parseStmt pos statements =
     (if \<not> match tokens pos TPunctuation (Some ''}'') \<and> \<not> match tokens pos TEof (Some [])
      then andThen (parseStmt pos)
             (\<lambda>(stmt, pos1).
                bodyLoop k tokens parseStmt pos1
                  (case stmt of None \<Rightarrow> statements | Some s \<Rightarrow> statements @ [s]))
      else Returns (statements, pos))"

definition parseBody :: "Token list \<Rightarrow> stmtParser \<Rightarrow> nat \<Rightarrow> nat \<Rightarrow> (Statement list \<times> nat) outcome" where
  "parseBody tokens parseStmt n pos =
     (if \<not> match tokens pos TPunctuation (Some ''{'') then Returns ([], pos)
      else andThen (bodyLoop n tokens parseStmt (snd (advance tokens pos)) [])
             (\<lambda>(statements, pos1).
                if match tokens pos1 TPunctuation (Some ''}'')
                then Returns (statements, snd (advance tokens pos1))
                else Returns (statements, pos1)))"

text \<open>\<open>if (this.match('punctuation', ';')) this.advance();\<close>\<close>

definition skipSemicolon :: "Token list \<Rightarrow> nat \<Rightarrow> nat" where
  "skipSemicolon tokens pos =
     (if match tokens pos TPunctuation (Some '';'') then snd (advance tokens pos) else pos)"

definition rangeFrom :: "Token list \<Rightarrow> Position \<Rightarrow> nat \<Rightarrow> Range" where
  "rangeFrom tokens start pos =
     \<lparr>range_start = start, range_end = range_start (tk_range (peek tokens pos 0))\<rparr>"

definition parseClass :: "Token list \<Rightarrow> exprParser \<Rightarrow> stmtParser \<Rightarrow> nat \<Rightarrow> nat
      \<Rightarrow> (Statement \<times> nat) outcome" where
  "parseClass tokens parseExpr parseStmt n pos =
     (let start = range_start (tk_range (peek tokens pos 0))
      in andThen (parseIdentifier tokens (snd (advance tokens pos)))
           (\<lambda>(name, pos1).
              andThen (parseTemplateArgs tokens parseExpr n pos1)
                (\<lambda>(templateArgs, pos2).
                   andThen (parseParentClasses tokens parseExpr n pos2)
                     (\<lambda>(parentClasses, pos3).
                        let hasBody = match tokens pos3 TPunctuation (Some ''{'');
                            isForwardDeclaration =
                              (\<not> hasBody \<and> length templateArgs = 0 \<and> length parentClasses = 0)
                        in andThen (parseBody tokens parseStmt n pos3)
                             (\<lambda>(body, pos4).
                                let pos5 = skipSemicolon tokens pos4
                                in Returns (ClassDef name templateArgs parentClasses body
                                              isForwardDeclaration (rangeFrom tokens start pos5),
                                            pos5))))))"

text \<open>The optional name of a \<open>def\<close> or \<open>defm\<close>.\<close>

definition parseOptionalName :: "Token list \<Rightarrow> nat \<Rightarrow> (Identifier option \<times> nat) outcome" where
  "parseOptionalName tokens pos =
     (if match tokens pos TIdentifier None
      then andThen (parseIdentifier tokens pos) (\<lambda>(name, pos1). Returns (Some name, pos1))
      else Returns (None, pos))"

definition parseDef :: "Token list \<Rightarrow> exprParser \<Rightarrow> stmtParser \<Rightarrow> nat \<Rightarrow> nat
      \<Rightarrow> (Statement \<times> nat) outcome" where
  "parseDef tokens parseExpr parseStmt n pos =
     (let start = range_start (tk_range (peek tokens pos 0))
      in andThen (parseOptionalName tokens (snd (advance tokens pos)))
           (\<lambda>(name, pos1).
              andThen (parseParentClasses tokens parseExpr n pos1)
                (\<lambda>(parentClasses, pos2).
                   andThen (parseBody tokens parseStmt n pos2)
                     (\<lambda>(body, pos3).
                        let pos4 = skipSemicolon tokens pos3
                        in Returns (RecordDef name parentClasses body (rangeFrom tokens start pos4),
                                    pos4)))))"

definition parseMulticlass :: "Token list \<Rightarrow> exprParser \<Rightarrow> stmtParser \<Rightarrow> nat \<Rightarrow> nat
      \<Rightarrow> (Statement \<times> nat) outcome" where
  "parseMulticlass tokens parseExpr parseStmt n pos =
     (let start = range_start (tk_range (peek tokens pos 0))
      in andThen (parseIdentifier tokens (snd (advance tokens pos)))
           (\<lambda>(name, pos1).
              andThen (parseTemplateArgs tokens parseExpr n pos1)
                (\<lambda>(templateArgs, pos2).
                   andThen (parseParentClasses tokens parseExpr n pos2)
                     (\<lambda>(parentClasses, pos3).
                        andThen (parseBody tokens parseStmt n pos3)
                          (\<lambda>(body, pos4).
                             Returns (MultiClassDef name templateArgs parentClasses body
                                        (rangeFrom tokens start pos4),
                                      pos4))))))"

definition parseDefm :: "Token list \<Rightarrow> exprParser \<Rightarrow> nat \<Rightarrow> nat \<Rightarrow> (Statement \<times> nat) outcome" where
  "parseDefm tokens parseExpr n pos =
     (let start = range_start (tk_range (peek tokens pos 0))
      in andThen (parseOptionalName tokens (snd (advance tokens pos)))
           (\<lambda>(name, pos1).
              andThen (parseParentClasses tokens parseExpr n pos1)
                (\<lambda>(parentClasses, pos2).
                   let pos3 = skipSemicolon tokens pos2
                   in Returns (DefmDef name parentClasses (rangeFrom tokens start pos3), pos3))))"

text \<open>
  The loop \<open>while (true)\<close> of \<open>parseDefset\<close> over the tokens of the type;
  \<open>bracketDepth\<close> may become negative.
\<close>

primrec defsetTypeLoop :: "nat \<Rightarrow> Token list \<Rightarrow> nat \<Rightarrow> string \<Rightarrow> int \<Rightarrow> (string \<times> nat) outcome" where
  "defsetTypeLoop 0 tokens pos valueType bracketDepth = OutOfFuel"
| "defsetTypeLoop (Suc k) tokens pos valueType bracketDepth =
     (if match tokens pos TPunctuation (Some ''<'')
      then andThen (advanceToken tokens pos)
             (\<lambda>(token, pos1).
                defsetTypeLoop k tokens pos1 (valueType @ tk_value token) (bracketDepth + 1))
      else if match tokens pos TPunctuation (Some ''>'')
      then andThen (advanceToken tokens pos)
             (\<lambda>(token, pos1).
                if bracketDepth - 1 = 0 then Returns (valueType @ tk_value token, pos1)
                else defsetTypeLoop k tokens pos1 (valueType @ tk_value token) (bracketDepth - 1))
      else if 0 < bracketDepth
      then (if match tokens pos TKeyword None \<or> match tokens pos TIdentifier None
               \<or> match tokens pos TPunctuation (Some '','')
            then andThen (advanceToken tokens pos)
                   (\<lambda>(token, pos1).
                      defsetTypeLoop k tokens pos1 (valueType @ tk_value token) bracketDepth)
            else Returns (valueType, pos))
      else if match tokens pos TKeyword None
      then andThen (advanceToken tokens pos)
             (\<lambda>(token, pos1).
                defsetTypeLoop k tokens pos1 (valueType @ tk_value token) bracketDepth)
      else Returns (valueType, pos))"

definition parseDefsetName :: "Token list \<Rightarrow> nat \<Rightarrow> (Identifier \<times> nat) outcome" where
  "parseDefsetName tokens pos =
     (if match tokens pos TIdentifier None then parseIdentifier tokens pos
      else Returns (\<lparr>id_name = [], id_range = tk_range (peek tokens pos 0)\<rparr>, pos))"

definition parseDefset :: "Token list \<Rightarrow> stmtParser \<Rightarrow> nat \<Rightarrow> nat \<Rightarrow> (Statement \<times> nat) outcome" where
  "parseDefset tokens parseStmt n pos =
     (let start = range_start (tk_range (peek tokens pos 0))
      in andThen (defsetTypeLoop n tokens (snd (advance tokens pos)) [] 0)
           (\<lambda>(valueType, pos1).
              andThen (parseDefsetName tokens pos1)
                (\<lambda>(name, pos2).
                   let pos3 = (if match tokens pos2 TPunctuation (Some ''='')
                               then snd (advance tokens pos2) else pos2)
                   in andThen (parseBody tokens parseStmt n pos3)
                        (\<lambda>(body, pos4).
                           Returns (DefsetDef (trim valueType) name body (rangeFrom tokens start pos4),
                                    pos4)))))"

definition parseDefvar :: "Token list \<Rightarrow> exprParser \<Rightarrow> nat \<Rightarrow> (Statement \<times> nat) outcome" where
  "parseDefvar tokens parseExpr pos =
     (let start = range_start (tk_range (peek tokens pos 0))
      in andThen (parseIdentifier tokens (snd (advance tokens pos)))
           (\<lambda>(name, pos1).
              let pos2 = (if match tokens pos1 TPunctuation (Some ''='')
                          then snd (advance tokens pos1) else pos1)
              in andThen (parseExpr pos2)
                   (\<lambda>(v, pos3).
                      let pos4 = skipSemicolon tokens pos3
                      in Returns (DefvarDef name v (rangeFrom tokens start pos4), pos4))))"

text \<open>
  After the keyword \<open>kw\<close> (\<open>in\<close>, \<open>then\<close>, \<open>else\<close>): a body in braces, or one statement.
  \<open>parseLet\<close>, \<open>parseForeach\<close> and \<open>parseIf\<close> (twice) have this block.
\<close>

definition parseBlockAfter :: "Token list \<Rightarrow> stmtParser \<Rightarrow> nat \<Rightarrow> string \<Rightarrow> nat
      \<Rightarrow> (Statement list \<times> nat) outcome" where
  "parseBlockAfter tokens parseStmt n kw pos =
     (if match tokens pos TKeyword (Some kw)
      then (if match tokens (snd (advance tokens pos)) TPunctuation (Some ''{'')
            then parseBody tokens parseStmt n (snd (advance tokens pos))
            else andThen (parseStmt (snd (advance tokens pos)))
                   (\<lambda>(stmt, pos1). Returns (case stmt of None \<Rightarrow> [] | Some s \<Rightarrow> [s], pos1)))
      else Returns ([], pos))"

primrec letBindingsLoop :: "nat \<Rightarrow> Token list \<Rightarrow> exprParser \<Rightarrow> nat \<Rightarrow> LetBinding list
      \<Rightarrow> (LetBinding list \<times> nat) outcome" where
  "letBindingsLoop 0 tokens parseExpr pos bindings = OutOfFuel"
| "letBindingsLoop (Suc k) tokens parseExpr pos bindings =
     (if match tokens pos TIdentifier None
      then (let bindingStart = range_start (tk_range (peek tokens pos 0))
            in andThen (parseIdentifier tokens pos)
                 (\<lambda>(name, pos1).
                    let pos2 = (if match tokens pos1 TPunctuation (Some ''='')
                                then snd (advance tokens pos1) else pos1)
                    in andThen (parseExpr pos2)
                         (\<lambda>(v, pos3).
                            let bindings1 = bindings @ [\<lparr>lb_name = name, lb_value = v,
                                                          lb_range = rangeFrom tokens bindingStart pos3\<rparr>]
                            in if match tokens pos3 TPunctuation (Some '','')
                               then letBindingsLoop k tokens parseExpr (snd (advance tokens pos3)) bindings1
                               else Returns (bindings1, pos3))))
      else Returns (bindings, pos))"

definition parseLet :: "Token list \<Rightarrow> exprParser \<Rightarrow> stmtParser \<Rightarrow> nat \<Rightarrow> nat
      \<Rightarrow> (Statement \<times> nat) outcome" where
  "parseLet tokens parseExpr parseStmt n pos =
     (let start = range_start (tk_range (peek tokens pos 0))
      in andThen (letBindingsLoop n tokens parseExpr (snd (advance tokens pos)) [])
           (\<lambda>(bindings, pos1).
              andThen (parseBlockAfter tokens parseStmt n ''in'' pos1)
                (\<lambda>(body, pos2).
                   let pos3 = skipSemicolon tokens pos2
                   in Returns (LetStatement bindings body (rangeFrom tokens start pos3), pos3))))"

definition parseForeach :: "Token list \<Rightarrow> exprParser \<Rightarrow> stmtParser \<Rightarrow> nat \<Rightarrow> nat
      \<Rightarrow> (Statement \<times> nat) outcome" where
  "parseForeach tokens parseExpr parseStmt n pos =
     (let start = range_start (tk_range (peek tokens pos 0))
      in andThen (parseIdentifier tokens (snd (advance tokens pos)))
           (\<lambda>(variable, pos1).
              let pos2 = (if match tokens pos1 TPunctuation (Some ''='')
                          then snd (advance tokens pos1) else pos1)
              in andThen (parseExpr pos2)
                   (\<lambda>(iterRange, pos3).
                      andThen (parseBlockAfter tokens parseStmt n ''in'' pos3)
                        (\<lambda>(body, pos4).
                           Returns (ForeachStatement variable iterRange body
                                      (rangeFrom tokens start pos4),
                                    pos4)))))"

definition parseIf :: "Token list \<Rightarrow> exprParser \<Rightarrow> stmtParser \<Rightarrow> nat \<Rightarrow> nat
      \<Rightarrow> (Statement \<times> nat) outcome" where
  "parseIf tokens parseExpr parseStmt n pos =
     (let start = range_start (tk_range (peek tokens pos 0))
      in andThen (parseExpr (snd (advance tokens pos)))
           (\<lambda>(condition, pos1).
              andThen (parseBlockAfter tokens parseStmt n ''then'' pos1)
                (\<lambda>(thenBody, pos2).
                   andThen (parseBlockAfter tokens parseStmt n ''else'' pos2)
                     (\<lambda>(elseBody, pos3).
                        Returns (IfStatement condition thenBody elseBody
                                   (rangeFrom tokens start pos3),
                                 pos3)))))"

definition parseInclude :: "Token list \<Rightarrow> nat \<Rightarrow> (Statement \<times> nat) outcome" where
  "parseInclude tokens pos =
     (let start = range_start (tk_range (peek tokens pos 0))
      in andThen
           (if match tokens (snd (advance tokens pos)) TString None
            then andThen (advanceToken tokens (snd (advance tokens pos)))
                   (\<lambda>(token, pos1). Returns (tk_value token, pos1))
            else Returns ([], snd (advance tokens pos)))
           (\<lambda>(path, pos1). Returns (IncludeStatement path (rangeFrom tokens start pos1), pos1)))"

definition parseAssert :: "Token list \<Rightarrow> exprParser \<Rightarrow> nat \<Rightarrow> (Statement \<times> nat) outcome" where
  "parseAssert tokens parseExpr pos =
     (let start = range_start (tk_range (peek tokens pos 0))
      in andThen (parseExpr (snd (advance tokens pos)))
           (\<lambda>(condition, pos1).
              let pos2 = (if match tokens pos1 TPunctuation (Some '','')
                          then snd (advance tokens pos1) else pos1)
              in andThen (parseExpr pos2)
                   (\<lambda>(message, pos3).
                      let pos4 = skipSemicolon tokens pos3
                      in Returns (AssertStatement condition message (rangeFrom tokens start pos4),
                                  pos4))))"

text \<open>
  The loop of \<open>parseField\<close> over the tokens of the type: it stops before an
  identifier that is followed by \<open>=\<close> or \<open>;\<close>.
\<close>

primrec fieldTypeLoop :: "nat \<Rightarrow> Token list \<Rightarrow> nat \<Rightarrow> string \<Rightarrow> (string \<times> nat) outcome" where
  "fieldTypeLoop 0 tokens pos fieldType = OutOfFuel"
| "fieldTypeLoop (Suc k) tokens pos fieldType =
     (if match tokens pos TKeyword None \<or> match tokens pos TIdentifier None
         \<or> match tokens pos TPunctuation (Some ''<'') \<or> match tokens pos TPunctuation (Some ''>'')
         \<or> match tokens pos TNumber None
      then (if tk_type (peek tokens pos 0) = TIdentifier
               \<and> (tk_value (peek tokens pos 1) = ''='' \<or> tk_value (peek tokens pos 1) = '';'')
            then Returns (fieldType, pos)
            else andThen (advanceToken tokens pos)
                   (\<lambda>(token, pos1). fieldTypeLoop k tokens pos1 (fieldType @ tk_value token)))
      else Returns (fieldType, pos))"

definition parseFieldValue :: "Token list \<Rightarrow> exprParser \<Rightarrow> nat \<Rightarrow> (Expression option \<times> nat) outcome" where
  "parseFieldValue tokens parseExpr pos =
     (if match tokens pos TPunctuation (Some ''='')
      then andThen (parseExpr (snd (advance tokens pos))) (\<lambda>(v, pos1). Returns (Some v, pos1))
      else Returns (None, pos))"

definition parseField :: "Token list \<Rightarrow> exprParser \<Rightarrow> nat \<Rightarrow> nat \<Rightarrow> (Statement \<times> nat) outcome" where
  "parseField tokens parseExpr n pos =
     (let start = range_start (tk_range (peek tokens pos 0));
          pos1 = (if match tokens pos TKeyword (Some ''field'') then snd (advance tokens pos) else pos)
      in andThen (fieldTypeLoop n tokens pos1 [])
           (\<lambda>(fieldType, pos2).
              andThen (parseIdentifier tokens pos2)
                (\<lambda>(name, pos3).
                   andThen (parseFieldValue tokens parseExpr pos3)
                     (\<lambda>(v, pos4).
                        let pos5 = skipSemicolon tokens pos4
                        in Returns (FieldDef (trim fieldType) name v (rangeFrom tokens start pos5),
                                    pos5)))))"

text \<open>The statement that a keyword starts, or \<open>None\<close> for a keyword outside the \<open>switch\<close>.\<close>

definition parseKeywordStatement :: "Token list \<Rightarrow> exprParser \<Rightarrow> stmtParser \<Rightarrow> nat \<Rightarrow> string \<Rightarrow> nat
      \<Rightarrow> (Statement \<times> nat) outcome option" where
  "parseKeywordStatement tokens parseExpr parseStmt n kw pos =
     (if kw = ''class'' then Some (parseClass tokens parseExpr parseStmt n pos)
      else if kw = ''def'' then Some (parseDef tokens parseExpr parseStmt n pos)
      else if kw = ''multiclass'' then Some (parseMulticlass tokens parseExpr parseStmt n pos)
      else if kw = ''defm'' then Some (parseDefm tokens parseExpr n pos)
      else if kw = ''defset'' then Some (parseDefset tokens parseStmt n pos)
      else if kw = ''defvar'' then Some (parseDefvar tokens parseExpr pos)
      else if kw = ''let'' then Some (parseLet tokens parseExpr parseStmt n pos)
      else if kw = ''foreach'' then Some (parseForeach tokens parseExpr parseStmt n pos)
      else if kw = ''if'' then Some (parseIf tokens parseExpr parseStmt n pos)
      else if kw = ''include'' then Some (parseInclude tokens pos)
      else if kw = ''assert'' then Some (parseAssert tokens parseExpr pos)
      else if kw \<in> set [''field'', ''bit'', ''bits'', ''int'', ''string'', ''list'', ''dag'', ''code'']
      then Some (parseField tokens parseExpr n pos)
      else None)"

definition someStatement :: "(Statement \<times> nat) outcome \<Rightarrow> (Statement option \<times> nat) outcome" where
  "someStatement r = andThen r (\<lambda>(stmt, pos). Returns (Some stmt, pos))"

definition parseStatementWith :: "Token list \<Rightarrow> exprParser \<Rightarrow> stmtParser \<Rightarrow> nat \<Rightarrow> stmtParser" where
  "parseStatementWith tokens parseExpr parseStmt n pos =
     (let token = peek tokens pos 0
      in if tk_type token = TEof then Returns (None, pos)
         else
           (case (if tk_type token = TKeyword
                  then parseKeywordStatement tokens parseExpr parseStmt n (tk_value token) pos
                  else None) of
              Some r \<Rightarrow> someStatement r
            | None \<Rightarrow>
                if tk_type token = TIdentifier
                then someStatement (parseField tokens parseExpr n pos)
                else Returns (None, snd (advance tokens pos))))"

primrec parseStatement :: "Token list \<Rightarrow> nat \<Rightarrow> stmtParser" where
  "parseStatement tokens 0 = (\<lambda>pos. OutOfFuel)"
| "parseStatement tokens (Suc n) =
     parseStatementWith tokens (parseExpression tokens n) (parseStatement tokens n) n"

text \<open>The loop of \<open>parse\<close>, which also collects the \<open>include\<close> statements.\<close>

fun isInclude :: "Statement \<Rightarrow> bool" where
  "isInclude (IncludeStatement path r) = True"
| "isInclude stmt = False"

primrec parseLoop :: "nat \<Rightarrow> Token list \<Rightarrow> stmtParser \<Rightarrow> nat \<Rightarrow> Statement list \<Rightarrow> Statement list
      \<Rightarrow> (Statement list \<times> Statement list \<times> nat) outcome" where
  "parseLoop 0 tokens parseStmt pos statements includes = OutOfFuel"
| "parseLoop (Suc k) tokens parseStmt pos statements includes =
     (if \<not> match tokens pos TEof (Some [])
      then andThen (parseStmt pos)
             (\<lambda>(stmt, pos1).
                case stmt of
                  None \<Rightarrow> parseLoop k tokens parseStmt pos1 statements includes
                | Some s \<Rightarrow>
                    parseLoop k tokens parseStmt pos1 (statements @ [s])
                      (if isInclude s then includes @ [s] else includes))
      else Returns (statements, includes, pos))"

text \<open>
  \<open>parse\<close> on a new parser (cursor 0, no errors). On an empty token array the first
  \<open>match\<close> reads \<open>undefined.type\<close>. The fuel \<open>n\<close> bounds the iterations of every loop
  and the nesting of the calls.
\<close>

definition parse :: "nat \<Rightarrow> Token list \<Rightarrow> string \<Rightarrow> ParsedFile outcome" where
  "parse n tokens uri =
     (if tokens = [] then Throws
      else andThen (parseLoop n tokens (parseStatement tokens n) 0 [] [])
             (\<lambda>(statements, includes, pos).
                Returns \<lparr>pf_uri = uri, pf_statements = statements, pf_includes = includes,
                         pf_errors = []\<rparr>))"

text \<open>
  What the lexer hands to the parser: at least one token, the last one of type
  \<open>eof\<close>, and every token of type \<open>eof\<close> with the empty value.
\<close>

definition lexed :: "Token list \<Rightarrow> bool" where
  "lexed tokens =
     (tokens \<noteq> [] \<and> tk_type (last tokens) = TEof
      \<and> list_all (\<lambda>token. tk_type token \<noteq> TEof \<or> tk_value token = []) tokens)"

subsection \<open>Progress of a parsing method\<close>

text \<open>
  \<open>atToken\<close>: the token under the cursor is not of type \<open>eof\<close>. \<open>returnsFrom pos r\<close>:
  the outcome \<open>r\<close> of a method started with the cursor at \<open>pos\<close> is a result, with
  the cursor not before \<open>pos\<close>; \<open>advancesFrom pos r\<close>: it is a result with the cursor
  beyond \<open>pos\<close>.
\<close>

definition atToken :: "Token list \<Rightarrow> nat \<Rightarrow> bool" where
  "atToken tokens pos = (tk_type (peek tokens pos 0) \<noteq> TEof)"

definition returnsFrom :: "nat \<Rightarrow> ('a \<times> nat) outcome \<Rightarrow> bool" where
  "returnsFrom pos r = (case r of Returns (x, pos1) \<Rightarrow> pos \<le> pos1 | OutOfFuel \<Rightarrow> False | Throws \<Rightarrow> False)"

definition advancesFrom :: "nat \<Rightarrow> ('a \<times> nat) outcome \<Rightarrow> bool" where
  "advancesFrom pos r = (case r of Returns (x, pos1) \<Rightarrow> pos < pos1 | OutOfFuel \<Rightarrow> False | Throws \<Rightarrow> False)"

section \<open>The lexer (parser.ts)\<close>

text \<open>
  The lexer holds the text, which it never changes, and the cursor: the index \<open>pos\<close>
  and the \<open>line\<close> and \<open>character\<close> of the position. \<open>peek\<close> is
  \<open>text[pos + offset] || ''\<close> (\<open>None\<close> is the empty string), \<open>advance\<close> is
  \<open>text[pos++]\<close> with the line and character counted; beyond the end of the text it
  returns \<open>undefined\<close> (\<open>None\<close>) and still moves the cursor. The text is a list of
  characters. Every loop takes the number of iterations it may still make.
\<close>

record Lexer =
  lx_pos :: nat
  lx_line :: nat
  lx_character :: nat

definition currentPos :: "Lexer \<Rightarrow> Position" where
  "currentPos lx = \<lparr>line = lx_line lx, character = lx_character lx\<rparr>"

definition lexPeek :: "string \<Rightarrow> Lexer \<Rightarrow> nat \<Rightarrow> char option" where
  "lexPeek text lx offset =
     (if lx_pos lx + offset < length text then Some (text ! (lx_pos lx + offset)) else None)"

definition lexAdvance :: "string \<Rightarrow> Lexer \<Rightarrow> char option \<times> Lexer" where
  "lexAdvance text lx =
     (let ch = (if lx_pos lx < length text then Some (text ! lx_pos lx) else None)
      in (ch,
          if ch = Some (CHR 0x0A)
          then \<lparr>lx_pos = Suc (lx_pos lx), lx_line = Suc (lx_line lx), lx_character = 0\<rparr>
          else \<lparr>lx_pos = Suc (lx_pos lx), lx_line = lx_line lx,
                 lx_character = Suc (lx_character lx)\<rparr>))"

text \<open>\<open>value += this.advance()\<close>: \<open>undefined\<close> is appended as the word \<open>undefined\<close>.\<close>

definition appendAdvance :: "string \<Rightarrow> string \<Rightarrow> Lexer \<Rightarrow> string \<times> Lexer" where
  "appendAdvance text v lx =
     (v @ (case fst (lexAdvance text lx) of None \<Rightarrow> ''undefined'' | Some c \<Rightarrow> [c]),
      snd (lexAdvance text lx))"

definition KEYWORDS :: "string list" where
  "KEYWORDS = [''class'', ''def'', ''defm'', ''defset'', ''defvar'', ''multiclass'',
     ''let'', ''in'', ''foreach'', ''if'', ''then'', ''else'',
     ''include'', ''field'', ''bit'', ''bits'', ''int'', ''string'',
     ''list'', ''dag'', ''code'', ''assert'']"

text \<open>The character classes of the regular expressions; none holds of the empty string.\<close>

definition inRange :: "char \<Rightarrow> char \<Rightarrow> char \<Rightarrow> bool" where
  "inRange lo hi c = ((of_char lo :: nat) \<le> of_char c \<and> (of_char c :: nat) \<le> of_char hi)"

definition isDigit :: "char option \<Rightarrow> bool" where
  "isDigit ch = (case ch of None \<Rightarrow> False | Some c \<Rightarrow> inRange CHR ''0'' CHR ''9'' c)"

definition isHexDigit :: "char option \<Rightarrow> bool" where
  "isHexDigit ch = (case ch of None \<Rightarrow> False
     | Some c \<Rightarrow> inRange CHR ''0'' CHR ''9'' c \<or> inRange CHR ''A'' CHR ''F'' c
                  \<or> inRange CHR ''a'' CHR ''f'' c)"

definition isBinaryDigit :: "char option \<Rightarrow> bool" where
  "isBinaryDigit ch = (ch = Some CHR ''0'' \<or> ch = Some CHR ''1'')"

definition isLetter :: "char option \<Rightarrow> bool" where
  "isLetter ch = (case ch of None \<Rightarrow> False
     | Some c \<Rightarrow> inRange CHR ''a'' CHR ''z'' c \<or> inRange CHR ''A'' CHR ''Z'' c)"

definition isIdentifierStart :: "char option \<Rightarrow> bool" where
  "isIdentifierStart ch = (isLetter ch \<or> ch = Some CHR ''_'')"

definition isIdentifierPart :: "char option \<Rightarrow> bool" where
  "isIdentifierPart ch = (isLetter ch \<or> isDigit ch \<or> ch = Some CHR ''_'')"

subsection \<open>White space and comments\<close>

primrec lineCommentLoop :: "nat \<Rightarrow> string \<Rightarrow> Lexer \<Rightarrow> Lexer outcome" where
  "lineCommentLoop 0 text lx = OutOfFuel"
| "lineCommentLoop (Suc k) text lx =
     (if lx_pos lx < length text \<and> lexPeek text lx 0 \<noteq> Some (CHR 0x0A)
      then lineCommentLoop k text (snd (lexAdvance text lx))
      else Returns lx)"

primrec blockCommentLoop :: "nat \<Rightarrow> string \<Rightarrow> Lexer \<Rightarrow> Lexer outcome" where
  "blockCommentLoop 0 text lx = OutOfFuel"
| "blockCommentLoop (Suc k) text lx =
     (if lx_pos lx < length text
      then (if lexPeek text lx 0 = Some CHR ''*'' \<and> lexPeek text lx 1 = Some CHR ''/''
            then Returns (snd (lexAdvance text (snd (lexAdvance text lx))))
            else blockCommentLoop k text (snd (lexAdvance text lx)))
      else Returns lx)"

primrec skipWhitespace :: "nat \<Rightarrow> string \<Rightarrow> Lexer \<Rightarrow> Lexer outcome" where
  "skipWhitespace 0 text lx = OutOfFuel"
| "skipWhitespace (Suc k) text lx =
     (if lx_pos lx < length text
      then (let ch = lexPeek text lx 0
            in if ch = Some CHR '' '' \<or> ch = Some (CHR 0x09) \<or> ch = Some (CHR 0x0D)
                  \<or> ch = Some (CHR 0x0A)
               then skipWhitespace k text (snd (lexAdvance text lx))
               else if ch = Some CHR ''/'' \<and> lexPeek text lx 1 = Some CHR ''/''
               then (case lineCommentLoop (Suc k) text lx of
                       OutOfFuel \<Rightarrow> OutOfFuel
                     | Throws \<Rightarrow> Throws
                     | Returns lx1 \<Rightarrow> skipWhitespace k text lx1)
               else if ch = Some CHR ''/'' \<and> lexPeek text lx 1 = Some CHR ''*''
               then (case blockCommentLoop (Suc k) text
                            (snd (lexAdvance text (snd (lexAdvance text lx)))) of
                       OutOfFuel \<Rightarrow> OutOfFuel
                     | Throws \<Rightarrow> Throws
                     | Returns lx1 \<Rightarrow> skipWhitespace k text lx1)
               else Returns lx)
      else Returns lx)"

subsection \<open>The tokens\<close>

definition tokenFrom :: "TokenType \<Rightarrow> string \<Rightarrow> Position \<Rightarrow> Lexer \<Rightarrow> Token" where
  "tokenFrom ty v start lx =
     \<lparr>tk_type = ty, tk_value = v, tk_range = \<lparr>range_start = start, range_end = currentPos lx\<rparr>\<rparr>"

primrec stringLoop :: "nat \<Rightarrow> string \<Rightarrow> string \<Rightarrow> Lexer \<Rightarrow> (string \<times> Lexer) outcome" where
  "stringLoop 0 text v lx = OutOfFuel"
| "stringLoop (Suc k) text v lx =
     (if lx_pos lx < length text \<and> lexPeek text lx 0 \<noteq> Some (CHR 0x22)
      then (if lexPeek text lx 0 = Some (CHR 0x5C)
            then stringLoop k text (fst (appendAdvance text v (snd (lexAdvance text lx))))
                   (snd (appendAdvance text v (snd (lexAdvance text lx))))
            else stringLoop k text (fst (appendAdvance text v lx)) (snd (appendAdvance text v lx)))
      else Returns (v, lx))"

definition readString :: "nat \<Rightarrow> string \<Rightarrow> Lexer \<Rightarrow> (Token \<times> Lexer) outcome" where
  "readString n text lx =
     (let start = currentPos lx
      in andThen (stringLoop n text [] (snd (lexAdvance text lx)))
           (\<lambda>(v, lx1).
              let lx2 = snd (lexAdvance text lx1)
              in Returns (tokenFrom TString v start lx2, lx2)))"

primrec codeLoop :: "nat \<Rightarrow> string \<Rightarrow> string \<Rightarrow> Lexer \<Rightarrow> (string \<times> Lexer) outcome" where
  "codeLoop 0 text v lx = OutOfFuel"
| "codeLoop (Suc k) text v lx =
     (if lx_pos lx < length text
      then (if lexPeek text lx 0 = Some CHR ''}'' \<and> lexPeek text lx 1 = Some CHR '']''
            then Returns (v, snd (lexAdvance text (snd (lexAdvance text lx))))
            else codeLoop k text (fst (appendAdvance text v lx)) (snd (appendAdvance text v lx)))
      else Returns (v, lx))"

definition readCode :: "nat \<Rightarrow> string \<Rightarrow> Lexer \<Rightarrow> (Token \<times> Lexer) outcome" where
  "readCode n text lx =
     (let start = currentPos lx
      in andThen (codeLoop n text [] (snd (lexAdvance text (snd (lexAdvance text lx)))))
           (\<lambda>(v, lx1). Returns (tokenFrom TCode v start lx1, lx1)))"

text \<open>\<open>while (/class/.test(this.peek())) value += this.advance();\<close>\<close>

primrec whileClass :: "nat \<Rightarrow> (char option \<Rightarrow> bool) \<Rightarrow> string \<Rightarrow> string \<Rightarrow> Lexer
      \<Rightarrow> (string \<times> Lexer) outcome" where
  "whileClass 0 cls text v lx = OutOfFuel"
| "whileClass (Suc k) cls text v lx =
     (if cls (lexPeek text lx 0)
      then whileClass k cls text (fst (appendAdvance text v lx)) (snd (appendAdvance text v lx))
      else Returns (v, lx))"

definition readNumber :: "nat \<Rightarrow> string \<Rightarrow> Lexer \<Rightarrow> (Token \<times> Lexer) outcome" where
  "readNumber n text lx =
     (let start = currentPos lx;
          signed = (if lexPeek text lx 0 = Some CHR ''-'' then appendAdvance text [] lx else ([], lx));
          v1 = fst signed; lx1 = snd signed;
          two = appendAdvance text (fst (appendAdvance text v1 lx1)) (snd (appendAdvance text v1 lx1))
      in andThen
           (if lexPeek text lx1 0 = Some CHR ''0''
               \<and> (lexPeek text lx1 1 = Some CHR ''x'' \<or> lexPeek text lx1 1 = Some CHR ''X'')
            then whileClass n isHexDigit text (fst two) (snd two)
            else if lexPeek text lx1 0 = Some CHR ''0''
               \<and> (lexPeek text lx1 1 = Some CHR ''b'' \<or> lexPeek text lx1 1 = Some CHR ''B'')
            then whileClass n isBinaryDigit text (fst two) (snd two)
            else whileClass n isDigit text v1 lx1)
           (\<lambda>(v, lx2). Returns (tokenFrom TNumber v start lx2, lx2)))"

definition readIdentifier :: "nat \<Rightarrow> string \<Rightarrow> Lexer \<Rightarrow> (Token \<times> Lexer) outcome" where
  "readIdentifier n text lx =
     (let start = currentPos lx
      in andThen (whileClass n isIdentifierPart text [] lx)
           (\<lambda>(v, lx1).
              Returns (tokenFrom (if v \<in> set KEYWORDS then TKeyword else TIdentifier) v start lx1, lx1)))"

text \<open>
  \<open>nextToken\<close> calls itself after a character that starts no token; the fuel bounds
  these calls and the iterations of the loops.
\<close>

primrec nextToken :: "nat \<Rightarrow> string \<Rightarrow> Lexer \<Rightarrow> (Token \<times> Lexer) outcome" where
  "nextToken 0 text lx0 = OutOfFuel"
| "nextToken (Suc k) text lx0 =
     (case skipWhitespace (Suc k) text lx0 of
        OutOfFuel \<Rightarrow> OutOfFuel
      | Throws \<Rightarrow> Throws
      | Returns lx \<Rightarrow>
          if length text \<le> lx_pos lx
          then Returns (tokenFrom TEof [] (currentPos lx) lx, lx)
          else
            (let start = currentPos lx; ch = lexPeek text lx 0
             in if ch = Some (CHR 0x22) then readString (Suc k) text lx
                else if ch = Some CHR ''['' \<and> lexPeek text lx 1 = Some CHR ''{''
                then readCode (Suc k) text lx
                else if isDigit ch \<or> (ch = Some CHR ''-'' \<and> isDigit (lexPeek text lx 1))
                then readNumber (Suc k) text lx
                else if isIdentifierStart ch then readIdentifier (Suc k) text lx
                else if ch = Some CHR ''!''
                then andThen (whileClass (Suc k) isLetter text [] (snd (lexAdvance text lx)))
                       (\<lambda>(op, lx1). Returns (tokenFrom TOperator (''!'' @ op) start lx1, lx1))
                else if ch = Some CHR ''#''
                then Returns (tokenFrom TOperator ''#'' start (snd (lexAdvance text lx)),
                              snd (lexAdvance text lx))
                else if ch \<in> Some ` set ''{}[]()<>:;,=.''
                then Returns (tokenFrom TPunctuation [the ch] start (snd (lexAdvance text lx)),
                              snd (lexAdvance text lx))
                else nextToken k text (snd (lexAdvance text lx))))"

text \<open>\<open>do { token = nextToken(); tokens.push(token); } while (token.type !== 'eof');\<close>\<close>

primrec tokenizeLoop :: "nat \<Rightarrow> nat \<Rightarrow> string \<Rightarrow> Lexer \<Rightarrow> Token list \<Rightarrow> Token list outcome" where
  "tokenizeLoop 0 n text lx tokens = OutOfFuel"
| "tokenizeLoop (Suc k) n text lx tokens =
     (case nextToken n text lx of
        OutOfFuel \<Rightarrow> OutOfFuel
      | Throws \<Rightarrow> Throws
      | Returns (token, lx1) \<Rightarrow>
          if tk_type token \<noteq> TEof then tokenizeLoop k n text lx1 (tokens @ [token])
          else Returns (tokens @ [token]))"

definition tokenize :: "nat \<Rightarrow> string \<Rightarrow> Token list outcome" where
  "tokenize n text =
     tokenizeLoop n n text \<lparr>lx_pos = 0, lx_line = 0, lx_character = 0\<rparr> []"

definition parseTableGen :: "nat \<Rightarrow> string \<Rightarrow> string \<Rightarrow> ParsedFile outcome" where
  "parseTableGen n text uri =
     (case tokenize n text of
        OutOfFuel \<Rightarrow> OutOfFuel
      | Throws \<Rightarrow> Throws
      | Returns tokens \<Rightarrow> parse n tokens uri)"

subsection \<open>Example token arrays\<close>

text \<open>A token on line 0, from character \<open>c1\<close> to character \<open>c2\<close>.\<close>

definition tokenAt :: "TokenType \<Rightarrow> string \<Rightarrow> nat \<Rightarrow> nat \<Rightarrow> Token" where
  "tokenAt ty v c1 c2 =
     \<lparr>tk_type = ty, tk_value = v,
      tk_range = \<lparr>range_start = \<lparr>line = 0, character = c1\<rparr>,
                  range_end = \<lparr>line = 0, character = c2\<rparr>\<rparr>\<rparr>"

text \<open>The tokens of \<open>class Foo;\<close> and of \<open>class 123;\<close>.\<close>

definition classFooTokens :: "Token list" where
  "classFooTokens =
     [tokenAt TKeyword ''class'' 0 5, tokenAt TIdentifier ''Foo'' 6 9,
      tokenAt TPunctuation '';'' 9 10, tokenAt TEof [] 10 10]"


definition rangeAt :: "nat \<Rightarrow> nat \<Rightarrow> Range" where
  "rangeAt c1 c2 =
     \<lparr>range_start = \<lparr>line = 0, character = c1\<rparr>, range_end = \<lparr>line = 0, character = c2\<rparr>\<rparr>"

definition identAt :: "string \<Rightarrow> nat \<Rightarrow> nat \<Rightarrow> Identifier" where
  "identAt name c1 c2 = \<lparr>id_name = name, id_range = rangeAt c1 c2\<rparr>"

text \<open>An array that the lexer does not produce: a semicolon and no \<open>eof\<close> token.\<close>

definition loneSemicolon :: "Token list" where
  "loneSemicolon = [tokenAt TPunctuation '';'' 0 1]"

section \<open>Composite defm symbols (resolutionHelpers.ts)\<close>

text \<open>
  \<open>collectDefSuffixes\<close> and \<open>collectDefSuffixesFromBody\<close>. The sets \<open>suffixes\<close> and
  \<open>visiting\<close> and the map \<open>cache\<close> are shared and mutated by all calls, so they are
  threaded through: a call takes and returns \<open>(suffixes, cache, visiting)\<close>. The loops
  over parent references are functions of their own. The walk over a body takes the
  function it calls for a referenced multiclass as its argument \<open>expand\<close>; the fuel of
  \<open>collectDefSuffixes\<close> bounds the depth of these calls.
\<close>

type_synonym suffixState = "string list \<times> (string, string list) jsmap \<times> string list"

type_synonym expander =
  "MultiClass \<Rightarrow> (string, string list) jsmap \<times> string list \<Rightarrow> suffixState outcome"

text \<open>\<open>for (const parent of mc.parentClasses) ...\<close> of \<open>collectDefSuffixes\<close>\<close>

fun inheritSuffixes :: "expander \<Rightarrow> (string \<Rightarrow> MultiClass option) \<Rightarrow> ClassRef list
      \<Rightarrow> suffixState \<Rightarrow> suffixState outcome" where
  "inheritSuffixes expand findMulticlassNode [] st = Returns st"
| "inheritSuffixes expand findMulticlassNode (parent # rest) (suffixes, cache, visiting) =
     (case findMulticlassNode (id_name (cr_name parent)) of
        None \<Rightarrow> inheritSuffixes expand findMulticlassNode rest (suffixes, cache, visiting)
      | Some parentMc \<Rightarrow>
          (case expand parentMc (cache, visiting) of
             OutOfFuel \<Rightarrow> OutOfFuel
           | Throws \<Rightarrow> Throws
           | Returns (inherited, cache1, visiting1) \<Rightarrow>
               inheritSuffixes expand findMulticlassNode rest
                 (fold (\<lambda>s acc. set_add acc s) inherited suffixes, cache1, visiting1)))"

text \<open>\<open>for (const parent of stmt.parentClasses) ...\<close> of a nested named \<open>defm\<close>\<close>

fun nestedDefmSuffixes :: "expander \<Rightarrow> (string \<Rightarrow> MultiClass option) \<Rightarrow> string \<Rightarrow> ClassRef list
      \<Rightarrow> suffixState \<Rightarrow> suffixState outcome" where
  "nestedDefmSuffixes expand findMulticlassNode defmName [] st = Returns st"
| "nestedDefmSuffixes expand findMulticlassNode defmName (parent # rest) (suffixes, cache, visiting) =
     (case findMulticlassNode (id_name (cr_name parent)) of
        None \<Rightarrow> nestedDefmSuffixes expand findMulticlassNode defmName rest (suffixes, cache, visiting)
      | Some nestedMc \<Rightarrow>
          (case expand nestedMc (cache, visiting) of
             OutOfFuel \<Rightarrow> OutOfFuel
           | Throws \<Rightarrow> Throws
           | Returns (subs, cache1, visiting1) \<Rightarrow>
               nestedDefmSuffixes expand findMulticlassNode defmName rest
                 (fold (\<lambda>sub acc. set_add acc (defmName @ sub)) subs suffixes, cache1, visiting1)))"

fun collectDefSuffixesFromBody :: "expander \<Rightarrow> (string \<Rightarrow> MultiClass option) \<Rightarrow> Statement list
      \<Rightarrow> suffixState \<Rightarrow> suffixState outcome"
and collectDefSuffixesFromStatement :: "expander \<Rightarrow> (string \<Rightarrow> MultiClass option) \<Rightarrow> Statement
      \<Rightarrow> suffixState \<Rightarrow> suffixState outcome" where
  "collectDefSuffixesFromBody expand findMulticlassNode [] st = Returns st"
| "collectDefSuffixesFromBody expand findMulticlassNode (stmt # rest) st =
     (case collectDefSuffixesFromStatement expand findMulticlassNode stmt st of
        OutOfFuel \<Rightarrow> OutOfFuel
      | Throws \<Rightarrow> Throws
      | Returns st1 \<Rightarrow> collectDefSuffixesFromBody expand findMulticlassNode rest st1)"
| "collectDefSuffixesFromStatement expand findMulticlassNode (RecordDef name parents body r) st =
     (case name of
        None \<Rightarrow> Returns st
      | Some ident \<Rightarrow> Returns (set_add (fst st) (id_name ident), snd st))"
| "collectDefSuffixesFromStatement expand findMulticlassNode (DefmDef name parents r) st =
     (case name of
        None \<Rightarrow> Returns st
      | Some ident \<Rightarrow> nestedDefmSuffixes expand findMulticlassNode (id_name ident) parents st)"
| "collectDefSuffixesFromStatement expand findMulticlassNode (DefsetDef valueType name body r) st =
     collectDefSuffixesFromBody expand findMulticlassNode body st"
| "collectDefSuffixesFromStatement expand findMulticlassNode (ForeachStatement variable iterRange body r) st =
     collectDefSuffixesFromBody expand findMulticlassNode body st"
| "collectDefSuffixesFromStatement expand findMulticlassNode (LetStatement bindings body r) st =
     collectDefSuffixesFromBody expand findMulticlassNode body st"
| "collectDefSuffixesFromStatement expand findMulticlassNode (IfStatement condition thenBody elseBody r) st =
     (case collectDefSuffixesFromBody expand findMulticlassNode thenBody st of
        OutOfFuel \<Rightarrow> OutOfFuel
      | Throws \<Rightarrow> Throws
      | Returns st1 \<Rightarrow> collectDefSuffixesFromBody expand findMulticlassNode elseBody st1)"
| "collectDefSuffixesFromStatement expand findMulticlassNode (ClassDef name targs parents body fwd r) st =
     Returns st"
| "collectDefSuffixesFromStatement expand findMulticlassNode (MultiClassDef name targs parents body r) st =
     Returns st"
| "collectDefSuffixesFromStatement expand findMulticlassNode (DefvarDef name v r) st = Returns st"
| "collectDefSuffixesFromStatement expand findMulticlassNode (FieldDef fieldType name v r) st = Returns st"
| "collectDefSuffixesFromStatement expand findMulticlassNode (IncludeStatement path r) st = Returns st"
| "collectDefSuffixesFromStatement expand findMulticlassNode (AssertStatement condition message r) st =
     Returns st"

text \<open>
  \<open>collectDefSuffixes\<close>: the cached set if there is one (a set is truthy even when
  empty); the empty set for a multiclass that is being expanded; else the inherited
  suffixes, then the local ones, sorted, cached and returned.
\<close>

primrec collectDefSuffixes :: "nat \<Rightarrow> (string \<Rightarrow> MultiClass option) \<Rightarrow> expander" where
  "collectDefSuffixes 0 findMulticlassNode = (\<lambda>mc st. OutOfFuel)"
| "collectDefSuffixes (Suc n) findMulticlassNode =
     (\<lambda>mc st.
        let cacheKey = id_name (mc_name mc); cache = fst st; visiting = snd st in
        case map_get cache cacheKey of
          Some cached \<Rightarrow> Returns (cached, cache, visiting)
        | None \<Rightarrow>
            if cacheKey \<in> set visiting then Returns ([], cache, visiting)
            else
              (case inheritSuffixes (collectDefSuffixes n findMulticlassNode) findMulticlassNode
                      (mc_parentClasses mc) ([], cache, set_add visiting cacheKey) of
                 OutOfFuel \<Rightarrow> OutOfFuel
               | Throws \<Rightarrow> Throws
               | Returns st1 \<Rightarrow>
                   (case collectDefSuffixesFromBody (collectDefSuffixes n findMulticlassNode)
                           findMulticlassNode (mc_body mc) st1 of
                      OutOfFuel \<Rightarrow> OutOfFuel
                    | Throws \<Rightarrow> Throws
                    | Returns (suffixes, cache2, visiting2) \<Rightarrow>
                        (let sortedSuffixes = sort suffixes
                         in Returns (sortedSuffixes, map_set cache2 cacheKey sortedSuffixes,
                                     filter (\<lambda>v. v \<noteq> cacheKey) visiting2)))))"

text \<open>
  The loop over the parents of a top-level named \<open>defm\<close> in
  \<open>collectCompositeDefmSymbolsFromStatements\<close>: each found multiclass is expanded with a
  fresh \<open>visiting\<close> set and the shared \<open>suffixCache\<close>.
\<close>

fun compositeNamesOf :: "nat \<Rightarrow> (string \<Rightarrow> MultiClass option) \<Rightarrow> string \<Rightarrow> ClassRef list
      \<Rightarrow> string list \<times> (string, string list) jsmap
      \<Rightarrow> (string list \<times> (string, string list) jsmap) outcome" where
  "compositeNamesOf n findMulticlassNode defmName [] st = Returns st"
| "compositeNamesOf n findMulticlassNode defmName (parent # rest) (compositeNames, suffixCache) =
     (case findMulticlassNode (id_name (cr_name parent)) of
        None \<Rightarrow> compositeNamesOf n findMulticlassNode defmName rest (compositeNames, suffixCache)
      | Some mcDef \<Rightarrow>
          (case collectDefSuffixes n findMulticlassNode mcDef (suffixCache, []) of
             OutOfFuel \<Rightarrow> OutOfFuel
           | Throws \<Rightarrow> Throws
           | Returns (suffixes, suffixCache1, visiting1) \<Rightarrow>
               compositeNamesOf n findMulticlassNode defmName rest
                 (fold (\<lambda>suffix acc. set_add acc (defmName @ suffix)) suffixes compositeNames,
                  suffixCache1)))"

definition defSymbol :: "string \<Rightarrow> string \<Rightarrow> Range \<Rightarrow> Symbol" where
  "defSymbol name uri r =
     \<lparr>sym_name = name, sym_kind = SymDef, sym_location = \<lparr>loc_uri = uri, loc_range = r\<rparr>,
      sym_scope = None, sym_isForwardDeclaration = None\<rparr>"

fun collectCompositeDefmSymbolsFromStatements :: "nat \<Rightarrow> (string \<Rightarrow> MultiClass option) \<Rightarrow> string
      \<Rightarrow> Statement list \<Rightarrow> (string, string list) jsmap \<times> Symbol list
      \<Rightarrow> ((string, string list) jsmap \<times> Symbol list) outcome"
and collectCompositeDefmSymbolsFromStatement :: "nat \<Rightarrow> (string \<Rightarrow> MultiClass option) \<Rightarrow> string
      \<Rightarrow> Statement \<Rightarrow> (string, string list) jsmap \<times> Symbol list
      \<Rightarrow> ((string, string list) jsmap \<times> Symbol list) outcome" where
  "collectCompositeDefmSymbolsFromStatements n findMulticlassNode uri [] st = Returns st"
| "collectCompositeDefmSymbolsFromStatements n findMulticlassNode uri (stmt # rest) st =
     (case collectCompositeDefmSymbolsFromStatement n findMulticlassNode uri stmt st of
        OutOfFuel \<Rightarrow> OutOfFuel
      | Throws \<Rightarrow> Throws
      | Returns st1 \<Rightarrow> collectCompositeDefmSymbolsFromStatements n findMulticlassNode uri rest st1)"
| "collectCompositeDefmSymbolsFromStatement n findMulticlassNode uri (DefmDef name parents r) st =
     (case name of
        None \<Rightarrow> Returns st
      | Some ident \<Rightarrow>
          (case compositeNamesOf n findMulticlassNode (id_name ident) parents ([], fst st) of
             OutOfFuel \<Rightarrow> OutOfFuel
           | Throws \<Rightarrow> Throws
           | Returns (compositeNames, suffixCache1) \<Rightarrow>
               Returns (suffixCache1,
                        snd st @ map (\<lambda>compositeName. defSymbol compositeName uri (id_range ident))
                                   (sort compositeNames))))"
| "collectCompositeDefmSymbolsFromStatement n findMulticlassNode uri (DefsetDef valueType name body r) st =
     collectCompositeDefmSymbolsFromStatements n findMulticlassNode uri body st"
| "collectCompositeDefmSymbolsFromStatement n findMulticlassNode uri (ForeachStatement variable iterRange body r) st =
     collectCompositeDefmSymbolsFromStatements n findMulticlassNode uri body st"
| "collectCompositeDefmSymbolsFromStatement n findMulticlassNode uri (LetStatement bindings body r) st =
     collectCompositeDefmSymbolsFromStatements n findMulticlassNode uri body st"
| "collectCompositeDefmSymbolsFromStatement n findMulticlassNode uri (IfStatement condition thenBody elseBody r) st =
     (case collectCompositeDefmSymbolsFromStatements n findMulticlassNode uri thenBody st of
        OutOfFuel \<Rightarrow> OutOfFuel
      | Throws \<Rightarrow> Throws
      | Returns st1 \<Rightarrow> collectCompositeDefmSymbolsFromStatements n findMulticlassNode uri elseBody st1)"
| "collectCompositeDefmSymbolsFromStatement n findMulticlassNode uri (ClassDef name targs parents body fwd r) st =
     Returns st"
| "collectCompositeDefmSymbolsFromStatement n findMulticlassNode uri (RecordDef name parents body r) st =
     Returns st"
| "collectCompositeDefmSymbolsFromStatement n findMulticlassNode uri (MultiClassDef name targs parents body r) st =
     Returns st"
| "collectCompositeDefmSymbolsFromStatement n findMulticlassNode uri (DefvarDef name v r) st = Returns st"
| "collectCompositeDefmSymbolsFromStatement n findMulticlassNode uri (FieldDef fieldType name v r) st =
     Returns st"
| "collectCompositeDefmSymbolsFromStatement n findMulticlassNode uri (IncludeStatement path r) st =
     Returns st"
| "collectCompositeDefmSymbolsFromStatement n findMulticlassNode uri (AssertStatement condition message r) st =
     Returns st"

definition computeCompositeDefmSymbols :: "nat \<Rightarrow> Statement list \<Rightarrow> string
      \<Rightarrow> (string \<Rightarrow> MultiClass option) \<Rightarrow> Symbol list outcome" where
  "computeCompositeDefmSymbols n statements uri findMulticlassNode =
     (case collectCompositeDefmSymbolsFromStatements n findMulticlassNode uri statements ([], []) of
        OutOfFuel \<Rightarrow> OutOfFuel
      | Throws \<Rightarrow> Throws
      | Returns (suffixCache, symbols) \<Rightarrow> Returns symbols)"

section \<open>Composite defm symbols as the server registers them (server.ts)\<close>

text \<open>
  \<open>findMulticlassNode\<close> of the server: the first top-level \<open>MultiClassDef\<close> of that name,
  over the parsed files in the order of the map \<open>parsedFiles\<close>.
\<close>

fun findMulticlassIn :: "Statement list \<Rightarrow> string \<Rightarrow> MultiClass option" where
  "findMulticlassIn [] name = None"
| "findMulticlassIn (MultiClassDef mcName targs parents body r # rest) name =
     (if id_name mcName = name
      then Some \<lparr>mc_name = mcName, mc_templateArgs = targs, mc_parentClasses = parents,
                 mc_body = body, mc_range = r\<rparr>
      else findMulticlassIn rest name)"
| "findMulticlassIn (stmt # rest) name = findMulticlassIn rest name"

fun server_findMulticlassNode :: "(string, ParsedFile) jsmap \<Rightarrow> string \<Rightarrow> MultiClass option" where
  "server_findMulticlassNode [] name = None"
| "server_findMulticlassNode ((uri, parsed) # files) name =
     (case findMulticlassIn (pf_statements parsed) name of
        Some mc \<Rightarrow> Some mc
      | None \<Rightarrow> server_findMulticlassNode files name)"

text \<open>
  \<open>collectDefSuffixes\<close> and \<open>collectDefSuffixesFromBody\<close> of the server: the array
  \<open>suffixes\<close> is threaded through the walk; a nested \<open>defm\<close> expands the multiclass it
  names by \<open>expand\<close>, and the fuel of \<open>server_collectDefSuffixes\<close> bounds the depth of
  these expansions. The parents of the multiclass are not read.
\<close>

fun server_nestedDefmSuffixes :: "(MultiClass \<Rightarrow> string list outcome) \<Rightarrow> (string, ParsedFile) jsmap
      \<Rightarrow> string \<Rightarrow> ClassRef list \<Rightarrow> string list \<Rightarrow> string list outcome" where
  "server_nestedDefmSuffixes expand parsedFiles defmName [] suffixes = Returns suffixes"
| "server_nestedDefmSuffixes expand parsedFiles defmName (parent # rest) suffixes =
     (case server_findMulticlassNode parsedFiles (id_name (cr_name parent)) of
        None \<Rightarrow> server_nestedDefmSuffixes expand parsedFiles defmName rest suffixes
      | Some nestedMc \<Rightarrow>
          (case expand nestedMc of
             OutOfFuel \<Rightarrow> OutOfFuel
           | Throws \<Rightarrow> Throws
           | Returns subs \<Rightarrow>
               server_nestedDefmSuffixes expand parsedFiles defmName rest
                 (suffixes @ map (\<lambda>sub. defmName @ sub) subs)))"

fun server_collectDefSuffixesFromBody :: "(MultiClass \<Rightarrow> string list outcome)
      \<Rightarrow> (string, ParsedFile) jsmap \<Rightarrow> Statement list \<Rightarrow> string list \<Rightarrow> string list outcome"
and server_collectDefSuffixesFromStatement :: "(MultiClass \<Rightarrow> string list outcome)
      \<Rightarrow> (string, ParsedFile) jsmap \<Rightarrow> Statement \<Rightarrow> string list \<Rightarrow> string list outcome" where
  "server_collectDefSuffixesFromBody expand parsedFiles [] suffixes = Returns suffixes"
| "server_collectDefSuffixesFromBody expand parsedFiles (stmt # rest) suffixes =
     (case server_collectDefSuffixesFromStatement expand parsedFiles stmt suffixes of
        OutOfFuel \<Rightarrow> OutOfFuel
      | Throws \<Rightarrow> Throws
      | Returns suffixes1 \<Rightarrow> server_collectDefSuffixesFromBody expand parsedFiles rest suffixes1)"
| "server_collectDefSuffixesFromStatement expand parsedFiles (RecordDef name parents body r) suffixes =
     (case name of
        None \<Rightarrow> Returns suffixes
      | Some ident \<Rightarrow> Returns (suffixes @ [id_name ident]))"
| "server_collectDefSuffixesFromStatement expand parsedFiles (DefmDef name parents r) suffixes =
     (case name of
        None \<Rightarrow> Returns suffixes
      | Some ident \<Rightarrow> server_nestedDefmSuffixes expand parsedFiles (id_name ident) parents suffixes)"
| "server_collectDefSuffixesFromStatement expand parsedFiles (ForeachStatement variable iterRange body r) suffixes =
     server_collectDefSuffixesFromBody expand parsedFiles body suffixes"
| "server_collectDefSuffixesFromStatement expand parsedFiles (IfStatement condition thenBody elseBody r) suffixes =
     (case server_collectDefSuffixesFromBody expand parsedFiles thenBody suffixes of
        OutOfFuel \<Rightarrow> OutOfFuel
      | Throws \<Rightarrow> Throws
      | Returns suffixes1 \<Rightarrow> server_collectDefSuffixesFromBody expand parsedFiles elseBody suffixes1)"
| "server_collectDefSuffixesFromStatement expand parsedFiles (ClassDef name targs parents body fwd r) suffixes =
     Returns suffixes"
| "server_collectDefSuffixesFromStatement expand parsedFiles (MultiClassDef name targs parents body r) suffixes =
     Returns suffixes"
| "server_collectDefSuffixesFromStatement expand parsedFiles (DefsetDef valueType name body r) suffixes =
     Returns suffixes"
| "server_collectDefSuffixesFromStatement expand parsedFiles (DefvarDef name v r) suffixes =
     Returns suffixes"
| "server_collectDefSuffixesFromStatement expand parsedFiles (FieldDef fieldType name v r) suffixes =
     Returns suffixes"
| "server_collectDefSuffixesFromStatement expand parsedFiles (LetStatement bindings body r) suffixes =
     Returns suffixes"
| "server_collectDefSuffixesFromStatement expand parsedFiles (IncludeStatement path r) suffixes =
     Returns suffixes"
| "server_collectDefSuffixesFromStatement expand parsedFiles (AssertStatement condition message r) suffixes =
     Returns suffixes"

primrec server_collectDefSuffixes :: "nat \<Rightarrow> (string, ParsedFile) jsmap \<Rightarrow> MultiClass
      \<Rightarrow> string list outcome" where
  "server_collectDefSuffixes 0 parsedFiles = (\<lambda>mc. OutOfFuel)"
| "server_collectDefSuffixes (Suc n) parsedFiles =
     (\<lambda>mc. server_collectDefSuffixesFromBody (server_collectDefSuffixes n parsedFiles) parsedFiles
              (mc_body mc) [])"

text \<open>
  \<open>registerCompositeDefmSymbolsFromStatements\<close>: every suffix of every found parent
  of a named \<open>defm\<close> is added to the symbol table, in the order found.
\<close>

fun registerDefmParents :: "nat \<Rightarrow> (string, ParsedFile) jsmap \<Rightarrow> string \<Rightarrow> Identifier
      \<Rightarrow> ClassRef list \<Rightarrow> SymbolTable \<Rightarrow> SymbolTable outcome" where
  "registerDefmParents n parsedFiles uri ident [] symbolTable = Returns symbolTable"
| "registerDefmParents n parsedFiles uri ident (parent # rest) symbolTable =
     (case server_findMulticlassNode parsedFiles (id_name (cr_name parent)) of
        None \<Rightarrow> registerDefmParents n parsedFiles uri ident rest symbolTable
      | Some mcDef \<Rightarrow>
          (case server_collectDefSuffixes n parsedFiles mcDef of
             OutOfFuel \<Rightarrow> OutOfFuel
           | Throws \<Rightarrow> Throws
           | Returns suffixes \<Rightarrow>
               registerDefmParents n parsedFiles uri ident rest
                 (fold (\<lambda>suffix. addSymbol (defSymbol (id_name ident @ suffix) uri (id_range ident)))
                    suffixes symbolTable)))"

fun registerCompositeDefmSymbolsFromStatements :: "nat \<Rightarrow> (string, ParsedFile) jsmap \<Rightarrow> string
      \<Rightarrow> Statement list \<Rightarrow> SymbolTable \<Rightarrow> SymbolTable outcome"
and registerCompositeDefmSymbolsFromStatement :: "nat \<Rightarrow> (string, ParsedFile) jsmap \<Rightarrow> string
      \<Rightarrow> Statement \<Rightarrow> SymbolTable \<Rightarrow> SymbolTable outcome" where
  "registerCompositeDefmSymbolsFromStatements n parsedFiles uri [] symbolTable = Returns symbolTable"
| "registerCompositeDefmSymbolsFromStatements n parsedFiles uri (stmt # rest) symbolTable =
     (case registerCompositeDefmSymbolsFromStatement n parsedFiles uri stmt symbolTable of
        OutOfFuel \<Rightarrow> OutOfFuel
      | Throws \<Rightarrow> Throws
      | Returns symbolTable1 \<Rightarrow>
          registerCompositeDefmSymbolsFromStatements n parsedFiles uri rest symbolTable1)"
| "registerCompositeDefmSymbolsFromStatement n parsedFiles uri (DefmDef name parents r) symbolTable =
     (case name of
        None \<Rightarrow> Returns symbolTable
      | Some ident \<Rightarrow> registerDefmParents n parsedFiles uri ident parents symbolTable)"
| "registerCompositeDefmSymbolsFromStatement n parsedFiles uri (DefsetDef valueType name body r) symbolTable =
     registerCompositeDefmSymbolsFromStatements n parsedFiles uri body symbolTable"
| "registerCompositeDefmSymbolsFromStatement n parsedFiles uri (ForeachStatement variable iterRange body r) symbolTable =
     registerCompositeDefmSymbolsFromStatements n parsedFiles uri body symbolTable"
| "registerCompositeDefmSymbolsFromStatement n parsedFiles uri (IfStatement condition thenBody elseBody r) symbolTable =
     (case registerCompositeDefmSymbolsFromStatements n parsedFiles uri thenBody symbolTable of
        OutOfFuel \<Rightarrow> OutOfFuel
      | Throws \<Rightarrow> Throws
      | Returns symbolTable1 \<Rightarrow>
          registerCompositeDefmSymbolsFromStatements n parsedFiles uri elseBody symbolTable1)"
| "registerCompositeDefmSymbolsFromStatement n parsedFiles uri (ClassDef name targs parents body fwd r) symbolTable =
     Returns symbolTable"
| "registerCompositeDefmSymbolsFromStatement n parsedFiles uri (RecordDef name parents body r) symbolTable =
     Returns symbolTable"
| "registerCompositeDefmSymbolsFromStatement n parsedFiles uri (MultiClassDef name targs parents body r) symbolTable =
     Returns symbolTable"
| "registerCompositeDefmSymbolsFromStatement n parsedFiles uri (DefvarDef name v r) symbolTable =
     Returns symbolTable"
| "registerCompositeDefmSymbolsFromStatement n parsedFiles uri (FieldDef fieldType name v r) symbolTable =
     Returns symbolTable"
| "registerCompositeDefmSymbolsFromStatement n parsedFiles uri (LetStatement bindings body r) symbolTable =
     Returns symbolTable"
| "registerCompositeDefmSymbolsFromStatement n parsedFiles uri (IncludeStatement path r) symbolTable =
     Returns symbolTable"
| "registerCompositeDefmSymbolsFromStatement n parsedFiles uri (AssertStatement condition message r) symbolTable =
     Returns symbolTable"

definition registerCompositeDefmSymbols :: "nat \<Rightarrow> (string, ParsedFile) jsmap \<Rightarrow> ParsedFile
      \<Rightarrow> string \<Rightarrow> SymbolTable \<Rightarrow> SymbolTable outcome" where
  "registerCompositeDefmSymbols n parsedFiles parsed uri symbolTable =
     registerCompositeDefmSymbolsFromStatements n parsedFiles uri (pf_statements parsed) symbolTable"

subsection \<open>The two example programs\<close>

text \<open>
  \<open>multiclass A { def _a : Base; }  multiclass B : A { def _b : Base; }  defm Z : B;\<close>
  and
  \<open>multiclass A : B { def _a : Base; }  multiclass B : A { def _b : Base; }  defm Z : A;\<close>
  as the parser builds them, in one file \<open>uri\<close>; \<open>r\<close> gives the range of the node
  numbered \<open>k\<close> (any ranges will do).
\<close>

definition ident :: "string \<Rightarrow> Range \<Rightarrow> Identifier" where
  "ident name r = \<lparr>id_name = name, id_range = r\<rparr>"

definition classRef :: "string \<Rightarrow> Range \<Rightarrow> ClassRef" where
  "classRef name r = \<lparr>cr_name = ident name r, cr_args = [], cr_range = r\<rparr>"

definition defNamed :: "string \<Rightarrow> Range \<Rightarrow> Statement" where
  "defNamed name r = RecordDef (Some (ident name r)) [classRef ''Base'' r] [] r"

definition inheritProgram :: "(nat \<Rightarrow> Range) \<Rightarrow> Statement list" where
  "inheritProgram r =
     [MultiClassDef (ident ''A'' (r 0)) [] [] [defNamed ''_a'' (r 1)] (r 2),
      MultiClassDef (ident ''B'' (r 3)) [] [classRef ''A'' (r 4)] [defNamed ''_b'' (r 5)] (r 6),
      DefmDef (Some (ident ''Z'' (r 7))) [classRef ''B'' (r 8)] (r 9)]"

definition cyclicProgram :: "(nat \<Rightarrow> Range) \<Rightarrow> Statement list" where
  "cyclicProgram r =
     [MultiClassDef (ident ''A'' (r 0)) [] [classRef ''B'' (r 1)] [defNamed ''_a'' (r 2)] (r 3),
      MultiClassDef (ident ''B'' (r 4)) [] [classRef ''A'' (r 5)] [defNamed ''_b'' (r 6)] (r 7),
      DefmDef (Some (ident ''Z'' (r 8))) [classRef ''A'' (r 9)] (r 10)]"

definition parsedAs :: "string \<Rightarrow> Statement list \<Rightarrow> ParsedFile" where
  "parsedAs uri statements =
     \<lparr>pf_uri = uri, pf_statements = statements, pf_includes = [], pf_errors = []\<rparr>"

section \<open>JavaScript maps: lookup after update\<close>

lemma map_get_map_set: "map_get (map_set m k v) k' = (if k' = k then Some v else map_get m k')"
  by (induction m) (auto simp: map_get_def)

lemma map_of_map_set: "map_of (map_set m k v) = (map_of m)(k \<mapsto> v)"
  by (induction m) auto

lemma set_map_set: "set (map_set m k v) \<subseteq> insert (k, v) (set m)"
  by (induction m) (auto split: if_splits)

lemma keys_map_set: "fst ` set (map_set m k v) = insert k (fst ` set m)"
proof (induction m)
  case Nil
  then show ?case by simp
next
  case (Cons a m)
  then show ?case by (cases a) (auto simp del: map_set.simps simp add: map_set.simps(2))
qed

lemma map_ok_map_set: "map_ok m \<Longrightarrow> map_ok (map_set m k v)"
proof (induction m)
  case Nil
  then show ?case by (simp add: map_ok_def)
next
  case (Cons a m)
  obtain k' v' where a: "a = (k', v')" by (cases a)
  show ?case
  proof (cases "k' = k")
    case True
    then show ?thesis using Cons.prems a by (simp add: map_ok_def)
  next
    case False
    have "k' \<notin> fst ` set (map_set m k v)"
      using Cons.prems a False by (simp add: keys_map_set map_ok_def)
    then show ?thesis using Cons a False by (simp add: map_ok_def)
  qed
qed

lemma map_ok_map_set_all: "map_ok dst \<Longrightarrow> map_ok (map_set_all dst src)"
  unfolding map_set_all_def by (induction src arbitrary: dst) (auto simp: map_ok_map_set)

lemma map_of_map_set_all:
  "map_ok src \<Longrightarrow> map_of (map_set_all dst src) = map_of dst ++ map_of src"
proof (induction src arbitrary: dst)
  case Nil
  then show ?case by (simp add: map_set_all_def)
next
  case (Cons a src)
  obtain k v where a: "a = (k, v)" by (cases a)
  have ok: "map_ok src" and fresh: "k \<notin> fst ` set src"
    using Cons.prems a by (auto simp: map_ok_def)
  have "map_of (map_set_all dst (a # src)) = map_of (map_set_all (map_set dst k v) src)"
    by (simp add: map_set_all_def a)
  also have "\<dots> = (map_of dst)(k \<mapsto> v) ++ map_of src"
    by (simp only: Cons.IH[OF ok] map_of_map_set)
  also have "\<dots> = map_of dst ++ map_of (a # src)"
  proof
    fix x
    have "map_of src k = None" using fresh by (simp add: map_of_eq_None_iff)
    then show "((map_of dst)(k \<mapsto> v) ++ map_of src) x = (map_of dst ++ map_of (a # src)) x"
      by (auto simp: map_add_def a split: option.splits)
  qed
  finally show ?case .
qed

lemma map_get_map_delete: "map_get (map_delete m k) k' = (if k' = k then None else map_get m k')"
  by (induction m) (auto simp: map_get_def map_delete_def)

lemma map_ok_entry: "map_ok m \<Longrightarrow> (k, v) \<in> set m \<Longrightarrow> map_get m k = Some v"
  by (simp add: map_ok_def map_get_def)

lemma map_get_entry: "map_get m k = Some v \<Longrightarrow> (k, v) \<in> set m"
  by (simp add: map_get_def map_of_SomeD)

lemma map_get_Nil: "map_get [] k = None"
  by (simp add: map_get_def)

lemma map_get_Cons: "map_get ((k, v) # m) k' = (if k' = k then Some v else map_get m k')"
  by (simp add: map_get_def)

section \<open>Properties of the type system\<close>

subsection \<open>addClass: a full definition wins over a forward declaration\<close>

lemma getClass_addClass_other:
  "n \<noteq> ci_name info \<Longrightarrow> getClass (addClass info ts) n = getClass ts n"
  by (auto simp: addClass_def getClass_def Let_def map_get_map_set split: option.splits)

lemma getClass_addClass_full:
  "\<not> ci_isForwardDeclaration info \<Longrightarrow>
   getClass (addClass info ts) (ci_name info) = Some (info\<lparr>ci_allFields := None\<rparr>)"
  by (auto simp: addClass_def getClass_def Let_def map_get_map_set split: option.splits)

lemma addClass_forward_kept:
  "getClass ts (ci_name info) = Some existing \<Longrightarrow> \<not> ci_isForwardDeclaration existing \<Longrightarrow>
   ci_isForwardDeclaration info \<Longrightarrow> addClass info ts = ts"
  by (auto simp: addClass_def getClass_def Let_def)

lemma addClass_stored:
  "getClass (addClass info ts) (ci_name info) =
     (case getClass ts (ci_name info) of
        None \<Rightarrow> Some (info\<lparr>ci_allFields := None\<rparr>)
      | Some existing \<Rightarrow>
          if \<not> ci_isForwardDeclaration existing \<and> ci_isForwardDeclaration info
          then Some existing else Some (info\<lparr>ci_allFields := None\<rparr>))"
  by (auto simp: addClass_def getClass_def Let_def map_get_map_set split: option.splits)

lemma fold_addClass_forward_kept:
  "\<forall>i \<in> set infos. ci_name i = n \<and> ci_isForwardDeclaration i \<Longrightarrow>
   getClass ts n = Some existing \<Longrightarrow> \<not> ci_isForwardDeclaration existing \<Longrightarrow>
   fold addClass infos ts = ts"
proof (induction infos)
  case Nil
  then show ?case by simp
next
  case (Cons i infos)
  then have "addClass i ts = ts"
    using addClass_forward_kept[of ts i existing] by simp
  with Cons show ?case by simp
qed

lemma fold_addClass_last_full:
  "\<forall>i \<in> set infos. ci_name i = n \<Longrightarrow> \<exists>i \<in> set infos. \<not> ci_isForwardDeclaration i \<Longrightarrow>
   getClass (fold addClass infos ts) n =
     Some ((last (filter (\<lambda>i. \<not> ci_isForwardDeclaration i) infos))\<lparr>ci_allFields := None\<rparr>)"
proof (induction infos arbitrary: ts)
  case Nil
  then show ?case by simp
next
  case (Cons i infos)
  show ?case
  proof (cases "\<exists>j \<in> set infos. \<not> ci_isForwardDeclaration j")
    case True
    then have "filter (\<lambda>i. \<not> ci_isForwardDeclaration i) infos \<noteq> []"
      by (auto simp: filter_empty_conv)
    with Cons.IH[of "addClass i ts"] Cons.prems(1) True show ?thesis by simp
  next
    case False
    then have allfwd: "\<forall>j \<in> set infos. ci_name j = n \<and> ci_isForwardDeclaration j"
      using Cons.prems(1) by simp
    have full: "\<not> ci_isForwardDeclaration i" using Cons.prems(2) False by auto
    have nm: "ci_name i = n" using Cons.prems(1) by simp
    have stored: "getClass (addClass i ts) n = Some (i\<lparr>ci_allFields := None\<rparr>)"
      using getClass_addClass_full[OF full, of ts] nm by simp
    have "fold addClass infos (addClass i ts) = addClass i ts"
      by (rule fold_addClass_forward_kept[OF allfwd stored]) (simp add: full)
    moreover have "filter (\<lambda>i. \<not> ci_isForwardDeclaration i) infos = []"
      using False by (auto simp: filter_empty_conv)
    ultimately show ?thesis using stored full by simp
  qed
qed

text \<open>
  C6. Let every \<open>ClassInfo\<close> of \<open>infos\<close> carry the name \<open>n\<close> and be registered in
  order, from any registry. If one of them is a full definition, the class stored in
  the end is the last full definition of the sequence (so a full definition replaces a
  stored forward declaration, a later forward declaration never replaces it, and of
  two full definitions the later one is stored). If all of them are forward
  declarations and the registry already held a full definition, nothing changes. In
  particular forward, full, forward leaves the full definition stored, fields included.
\<close>

theorem addClass_definition_over_forward:
  assumes "\<forall>i \<in> set infos. ci_name i = n"
  shows "((\<exists>i \<in> set infos. \<not> ci_isForwardDeclaration i) \<longrightarrow>
            getClass (fold addClass infos ts) n =
              Some ((last (filter (\<lambda>i. \<not> ci_isForwardDeclaration i) infos))\<lparr>ci_allFields := None\<rparr>))
       \<and> ((\<forall>i \<in> set infos. ci_isForwardDeclaration i) \<longrightarrow>
            (\<forall>existing. getClass ts n = Some existing \<longrightarrow> \<not> ci_isForwardDeclaration existing \<longrightarrow>
               fold addClass infos ts = ts))
       \<and> (\<forall>fwd1 full fwd2. infos = [fwd1, full, fwd2] \<longrightarrow> ci_isForwardDeclaration fwd1 \<longrightarrow>
             \<not> ci_isForwardDeclaration full \<longrightarrow> ci_isForwardDeclaration fwd2 \<longrightarrow>
             (\<exists>stored. getClass (fold addClass infos ts) n = Some stored \<and>
                \<not> ci_isForwardDeclaration stored \<and> ci_fields stored = ci_fields full \<and>
                stored = full\<lparr>ci_allFields := None\<rparr>))"
proof (intro conjI impI allI)
  assume "\<exists>i \<in> set infos. \<not> ci_isForwardDeclaration i"
  then show "getClass (fold addClass infos ts) n =
      Some ((last (filter (\<lambda>i. \<not> ci_isForwardDeclaration i) infos))\<lparr>ci_allFields := None\<rparr>)"
    using fold_addClass_last_full[OF assms] by blast
next
  fix existing
  assume "\<forall>i \<in> set infos. ci_isForwardDeclaration i" "getClass ts n = Some existing"
    "\<not> ci_isForwardDeclaration existing"
  then show "fold addClass infos ts = ts"
    using fold_addClass_forward_kept[of infos n ts existing] assms by blast
next
  fix fwd1 full fwd2
  assume i: "infos = [fwd1, full, fwd2]" and f: "ci_isForwardDeclaration fwd1"
    "\<not> ci_isForwardDeclaration full" "ci_isForwardDeclaration fwd2"
  have "\<exists>i \<in> set infos. \<not> ci_isForwardDeclaration i" using i f by auto
  from fold_addClass_last_full[OF assms this, of ts] i f
  show "\<exists>stored. getClass (fold addClass infos ts) n = Some stored \<and>
          \<not> ci_isForwardDeclaration stored \<and> ci_fields stored = ci_fields full \<and>
          stored = full\<lparr>ci_allFields := None\<rparr>"
    by simp
qed

theorem addClass_definition_over_forward_witness:
  "getClass (fold addClass [classNamed ''Foo'' [] [] True,
                            classNamed ''Foo'' [] [(''X'', fieldAt ''X'' 2)] False,
                            classNamed ''Foo'' [] [] True] emptyTypeSystem) ''Foo''
     = Some (classNamed ''Foo'' [] [(''X'', fieldAt ''X'' 2)] False)"
  using addClass_definition_over_forward
    [of "[classNamed ''Foo'' [] [] True,
          classNamed ''Foo'' [] [(''X'', fieldAt ''X'' 2)] False,
          classNamed ''Foo'' [] [] True]" "''Foo''" emptyTypeSystem]
  by (simp add: classNamed_def)

subsection \<open>getAllParentClasses terminates and lists every parent once\<close>

lemma map_get_in_names: "map_get (classes ts) name = Some ci \<Longrightarrow> name \<in> class_names ts"
  unfolding map_get_def class_names_def by (metis fst_conv image_eqI map_of_SomeD)

lemma finite_class_names: "finite (class_names ts)"
  by (simp add: class_names_def)

lemma card_class_names: "card (class_names ts) \<le> length (classes ts)"
  unfolding class_names_def by (metis card_image_le card_length le_trans List.finite_set)

lemma card_unvisited_less:
  assumes "name \<in> class_names ts" "name \<notin> set visited" "card (class_names ts - set visited) < Suc n"
  shows "card (class_names ts - set (set_add visited name)) < n"
proof -
  have "class_names ts - set (set_add visited name) = (class_names ts - set visited) - {name}"
    using assms(2) by (auto simp: set_add_def)
  moreover have "name \<in> class_names ts - set visited" using assms by simp
  ultimately have "card (class_names ts - set (set_add visited name)) = card (class_names ts - set visited) - 1"
    by (simp add: finite_class_names)
  moreover have "card (class_names ts - set visited) > 0"
    using \<open>name \<in> class_names ts - set visited\<close> finite_class_names[of ts]
    by (metis card_gt_0_iff empty_iff finite_Diff)
  ultimately show ?thesis using assms(3) by linarith
qed

text \<open>
  Every descent of \<open>collect\<close> marks a registered class that was not yet visited, so a
  stack as deep as the number of unvisited classes is enough.
\<close>

lemma collect_total:
  "(set visited \<subseteq> class_names ts \<longrightarrow> distinct parents \<longrightarrow> card (class_names ts - set visited) < n \<longrightarrow>
     (\<exists>parents' visited'. collect ts n name (parents, visited) = Returns (parents', visited') \<and>
        distinct parents' \<and> set visited \<subseteq> set visited' \<and> set visited' \<subseteq> class_names ts))"
  "(set visited \<subseteq> class_names ts \<longrightarrow> distinct parents \<longrightarrow> card (class_names ts - set visited) < n \<longrightarrow>
     (\<exists>parents' visited'. collectParents ts n rest (parents, visited) = Returns (parents', visited') \<and>
        distinct parents' \<and> set visited \<subseteq> set visited' \<and> set visited' \<subseteq> class_names ts))"
proof (induction ts n name "(parents, visited)" and ts n rest "(parents, visited)"
       arbitrary: parents visited and parents visited rule: collect_collectParents.induct)
  case (1 ts name parents visited)
  then show ?case by simp
next
  case (2 ts n name parents visited)
  show ?case
  proof (intro impI)
    assume sub: "set visited \<subseteq> class_names ts" and d: "distinct parents"
      and c: "card (class_names ts - set visited) < Suc n"
    show "\<exists>parents' visited'. collect ts (Suc n) name (parents, visited) = Returns (parents', visited') \<and>
        distinct parents' \<and> set visited \<subseteq> set visited' \<and> set visited' \<subseteq> class_names ts"
    proof (cases "map_get (classes ts) name")
      case None
      then show ?thesis using sub d by simp
    next
      case (Some ci)
      show ?thesis
      proof (cases "name \<in> set visited")
        case True
        then show ?thesis using Some sub d by simp
      next
        case False
        have nm: "name \<in> class_names ts" using Some by (rule map_get_in_names)
        have c': "card (class_names ts - set (set_add visited name)) < n"
          using card_unvisited_less[OF nm False c] .
        have sub': "set (set_add visited name) \<subseteq> class_names ts"
          using sub nm by (auto simp: set_add_def)
        from "2"[OF Some False] sub' d c'
        obtain parents' visited' where
          r: "collectParents ts n (ci_parentClasses ci) (parents, set_add visited name) = Returns (parents', visited')"
          and p: "distinct parents'" "set (set_add visited name) \<subseteq> set visited'" "set visited' \<subseteq> class_names ts"
          by blast
        have "set visited \<subseteq> set visited'" using p(2) by (auto simp: set_add_def)
        then show ?thesis using Some False r p by simp
      qed
    qed
  qed
next
  case (3 ts n parents visited)
  then show ?case by simp
next
  case (4 ts n parent rest parents visited)
  show ?case
  proof (intro impI)
    assume sub: "set visited \<subseteq> class_names ts" and d: "distinct parents"
      and c: "card (class_names ts - set visited) < n"
    define parents1 where "parents1 = (if parent \<in> set parents then parents else parents @ [parent])"
    have d1: "distinct parents1" using d by (simp add: parents1_def)
    from "4"(1) sub d1 c
    obtain parents2 visited2 where
      r1: "collect ts n parent (parents1, visited) = Returns (parents2, visited2)"
      and p1: "distinct parents2" "set visited \<subseteq> set visited2" "set visited2 \<subseteq> class_names ts"
      unfolding parents1_def by blast
    have "class_names ts - set visited2 \<subseteq> class_names ts - set visited" using p1(2) by auto
    then have "card (class_names ts - set visited2) \<le> card (class_names ts - set visited)"
      by (simp add: card_mono finite_class_names)
    then have c2: "card (class_names ts - set visited2) < n" using c by simp
    from "4"(2)[OF r1[unfolded parents1_def]] p1 c2
    obtain parents' visited' where
      r2: "collectParents ts n rest (parents2, visited2) = Returns (parents', visited')"
      and p2: "distinct parents'" "set visited2 \<subseteq> set visited'" "set visited' \<subseteq> class_names ts"
      by blast
    show "\<exists>parents' visited'. collectParents ts n (parent # rest) (parents, visited) = Returns (parents', visited') \<and>
        distinct parents' \<and> set visited \<subseteq> set visited' \<and> set visited' \<subseteq> class_names ts"
      using r1 r2 p1 p2 unfolding parents1_def by auto
  qed
qed

text \<open>
  C10. For every registry, cyclic parent edges included, \<open>getAllParentClasses\<close>
  returns once the stack may be deeper than the number of registered classes, and the
  list it returns names no class twice.
\<close>

theorem getAllParentClasses_terminates_distinct:
  "length (classes ts) < n \<Longrightarrow>
   \<exists>parents. getAllParentClasses n ts className = Returns parents \<and> distinct parents"
proof -
  assume "length (classes ts) < n"
  then have "card (class_names ts - set []) < n" using card_class_names[of ts] by simp
  with collect_total(1)[of "[]" ts "[]" n className]
  show ?thesis by (auto simp: getAllParentClasses_def)
qed

theorem getAllParentClasses_terminates_distinct_witness:
  "getAllParentClasses 3
     \<lparr>classes = [(''A'', classNamed ''A'' [''B''] [] False),
                 (''B'', classNamed ''B'' [''A''] [] False)], fileClasses = []\<rparr> ''A''
     = Returns [''B'', ''A''] \<and>
   (\<exists>parents. getAllParentClasses 3
     \<lparr>classes = [(''A'', classNamed ''A'' [''B''] [] False),
                 (''B'', classNamed ''B'' [''A''] [] False)], fileClasses = []\<rparr> ''A''
     = Returns parents \<and> distinct parents)"
  using getAllParentClasses_terminates_distinct
    [of "\<lparr>classes = [(''A'', classNamed ''A'' [''B''] [] False),
                     (''B'', classNamed ''B'' [''A''] [] False)], fileClasses = []\<rparr>" 3 "''A''"]
  by (simp add: getAllParentClasses_def classNamed_def map_get_def set_add_def eval_nat_numeral)

subsection \<open>findFieldDefinition: own field first, then the first parent that resolves it\<close>

lemma findInParents_first:
  "\<forall>q \<in> set before. findFieldDefinition n ts q f = Returns None \<Longrightarrow>
   findFieldDefinition n ts p f = Returns (Some x) \<Longrightarrow>
   findInParents n ts (before @ p # after) f = Returns (Some x)"
  by (induction before) auto

lemma findInParents_none:
  "\<forall>q \<in> set ps. findFieldDefinition n ts q f = Returns None \<Longrightarrow>
   findInParents n ts ps f = Returns None"
  by (induction ps) auto

text \<open>
  C5. \<open>findFieldDefinition\<close> answers from the class's own fields when they hold the
  field; otherwise it answers what the first parent, in declaration order, that
  resolves the field answers (the parents before it resolving nothing), and nothing
  when no parent resolves it or the class is not registered. So for a class whose first
  parent declares the field itself, as in \<open>A{F}\<close>, \<open>B{F}\<close>, \<open>C:A,B{}\<close>, the
  answer is the first parent's declaration, whatever the later parents declare.
\<close>

theorem findFieldDefinition_first_parent_wins:
  "(getClass ts c = None \<longrightarrow> findFieldDefinition (Suc n) ts c f = Returns None)
 \<and> (\<forall>ci. getClass ts c = Some ci \<longrightarrow>
      (\<forall>own. map_get (ci_fields ci) f = Some own \<longrightarrow>
          findFieldDefinition (Suc n) ts c f = Returns (Some own))
    \<and> (map_get (ci_fields ci) f = None \<longrightarrow>
          (\<forall>before p after x. ci_parentClasses ci = before @ p # after \<longrightarrow>
              (\<forall>q \<in> set before. findFieldDefinition n ts q f = Returns None) \<longrightarrow>
              findFieldDefinition n ts p f = Returns (Some x) \<longrightarrow>
              findFieldDefinition (Suc n) ts c f = Returns (Some x))
        \<and> ((\<forall>q \<in> set (ci_parentClasses ci). findFieldDefinition n ts q f = Returns None) \<longrightarrow>
              findFieldDefinition (Suc n) ts c f = Returns None)
        \<and> (\<forall>a rest ca fa. ci_parentClasses ci = a # rest \<longrightarrow> getClass ts a = Some ca \<longrightarrow>
              map_get (ci_fields ca) f = Some fa \<longrightarrow>
              findFieldDefinition (Suc (Suc n)) ts c f = Returns (Some fa))))"
  by (auto simp: getClass_def findInParents_first findInParents_none)

theorem findFieldDefinition_first_parent_wins_witness:
  "findFieldDefinition 2
     (addClass (classNamed ''C'' [''A'', ''B''] [] False)
       (addClass (classNamed ''B'' [] [(''F'', fieldAt ''F'' 2)] False)
         (addClass (classNamed ''A'' [] [(''F'', fieldAt ''F'' 1)] False) emptyTypeSystem)))
     ''C'' ''F'' = Returns (Some (fieldAt ''F'' 1))"
  using findFieldDefinition_first_parent_wins
    [of "addClass (classNamed ''C'' [''A'', ''B''] [] False)
       (addClass (classNamed ''B'' [] [(''F'', fieldAt ''F'' 2)] False)
         (addClass (classNamed ''A'' [] [(''F'', fieldAt ''F'' 1)] False) emptyTypeSystem))"
        "''C''" 0 "''F''"]
  by (simp add: addClass_def classNamed_def emptyTypeSystem_def getClass_def map_get_def
        set_add_def Let_def eval_nat_numeral)

subsection \<open>getAllFields: parents merged in order, own fields last\<close>

lemma registry_ok_cache:
  assumes "registry_ok ts" "map_ok (ci_fields ci)" "map_ok m"
  shows "registry_ok (ts\<lparr>classes := map_set (classes ts) cn (ci\<lparr>ci_allFields := Some m\<rparr>)\<rparr>)"
  using assms set_map_set[of "classes ts" cn "ci\<lparr>ci_allFields := Some m\<rparr>"]
  unfolding registry_ok_def by fastforce

lemma registry_ok_lookup:
  "registry_ok ts \<Longrightarrow> map_get (classes ts) cn = Some ci \<Longrightarrow>
   map_ok (ci_fields ci) \<and> (\<forall>cached. ci_allFields ci = Some cached \<longrightarrow> map_ok cached)"
  unfolding registry_ok_def map_get_def by (fastforce dest: map_of_SomeD)

lemma getAllFields_ok:
  "(registry_ok ts \<longrightarrow> getAllFields n ts cn = Returns (m, ts') \<longrightarrow> map_ok m \<and> registry_ok ts')"
  "(registry_ok ts \<longrightarrow> map_ok acc \<longrightarrow> mergeParentFields n ts ps acc = Returns (m, ts') \<longrightarrow>
      map_ok m \<and> registry_ok ts')"
proof (induction n ts cn and n ts ps acc arbitrary: m ts' and m ts'
       rule: getAllFields_mergeParentFields.induct)
  case (1 ts className)
  then show ?case by simp
next
  case (2 n ts className)
  show ?case
  proof (intro impI)
    assume ok: "registry_ok ts" and r: "getAllFields (Suc n) ts className = Returns (m, ts')"
    show "map_ok m \<and> registry_ok ts'"
    proof (cases "map_get (classes ts) className")
      case None
      then show ?thesis using ok r by (auto simp: map_ok_def)
    next
      case (Some ci)
      note lk = registry_ok_lookup[OF ok Some]
      show ?thesis
      proof (cases "ci_allFields ci")
        case (Some cached)
        then show ?thesis using \<open>map_get (classes ts) className = Some ci\<close> ok r lk by auto
      next
        case None
        from r \<open>map_get (classes ts) className = Some ci\<close> None
        obtain inh ts1 where
          mr: "mergeParentFields n ts (ci_parentClasses ci) [] = Returns (inh, ts1)"
          and m: "m = map_set_all inh (ci_fields ci)"
          and t: "ts' = ts1\<lparr>classes := map_set (classes ts1) className (ci\<lparr>ci_allFields := Some m\<rparr>)\<rparr>"
          by (auto simp: Let_def split: outcome.splits)
        from "2"[OF \<open>map_get (classes ts) className = Some ci\<close> None] ok mr
        have i: "map_ok inh" "registry_ok ts1" by (auto simp: map_ok_def)
        have "map_ok m" using i(1) m by (simp add: map_ok_map_set_all)
        then show ?thesis using registry_ok_cache[OF i(2) _ \<open>map_ok m\<close>, of ci className] lk t by simp
      qed
    qed
  qed
next
  case (3 n ts allFields)
  then show ?case by auto
next
  case (4 n ts parentName rest allFields)
  show ?case
  proof (intro impI)
    assume ok: "registry_ok ts" and a: "map_ok allFields"
      and r: "mergeParentFields n ts (parentName # rest) allFields = Returns (m, ts')"
    from r obtain pf ts1 where
      g: "getAllFields n ts parentName = Returns (pf, ts1)"
      and mr: "mergeParentFields n ts1 rest (map_set_all allFields pf) = Returns (m, ts')"
      by (auto split: outcome.splits)
    from "4"(1) ok g have p: "map_ok pf" "registry_ok ts1" by auto
    from "4"(2)[OF g refl] p a mr show "map_ok m \<and> registry_ok ts'"
      by (simp add: map_ok_map_set_all)
  qed
qed

lemma mergeParentFields_views:
  "registry_ok ts \<Longrightarrow> mergeParentFields n ts ps acc = Returns (m, ts') \<Longrightarrow>
   \<exists>views. parentResults n ts ps views ts' \<and>
           map_of m = foldl (++) (map_of acc) (map map_of views)"
proof (induction ps arbitrary: ts acc)
  case Nil
  then show ?case by (auto intro: parentResults_Nil)
next
  case (Cons p ps)
  from Cons.prems(2) obtain pf ts1 where
    g: "getAllFields n ts p = Returns (pf, ts1)"
    and mr: "mergeParentFields n ts1 ps (map_set_all acc pf) = Returns (m, ts')"
    by (auto split: outcome.splits)
  from getAllFields_ok(1)[of ts n p pf ts1] Cons.prems(1) g
  have p: "map_ok pf" "registry_ok ts1" by auto
  from Cons.IH[OF p(2) mr] obtain views where
    v: "parentResults n ts1 ps views ts'"
    and e: "map_of m = foldl (++) (map_of (map_set_all acc pf)) (map map_of views)"
    by blast
  have "parentResults n ts (p # ps) (pf # views) ts'"
    using g v by (rule parentResults_Cons)
  moreover have "map_of m = foldl (++) (map_of acc) (map map_of (pf # views))"
    using e by (simp add: map_of_map_set_all[OF p(1)])
  ultimately show ?case by blast
qed

lemma ranked_cache:
  assumes "ranked rank ts"
  shows "ranked rank (ts\<lparr>classes := map_set (classes ts) cn (ci\<lparr>ci_allFields := Some m\<rparr>)\<rparr>)"
  using assms set_map_set[of "classes ts" cn "ci\<lparr>ci_allFields := Some m\<rparr>"]
  unfolding ranked_def by fastforce

lemma ranked_lookup:
  "ranked rank ts \<Longrightarrow> map_get (classes ts) cn = Some ci \<Longrightarrow> ci_allFields ci = None \<Longrightarrow>
   parent \<in> set (ci_parentClasses ci) \<Longrightarrow> rank parent < rank cn"
  unfolding ranked_def by (fastforce dest: map_get_entry)

text \<open>
  With a rank below the fuel the call returns: the recursion stops at a cached view
  and at an unregistered name, and a class without a cached view hands a smaller rank
  to each parent. The caches the call fills keep the rank.
\<close>

lemma getAllFields_total:
  "(ranked rank ts \<longrightarrow> rank cn < n \<longrightarrow>
      (\<exists>m ts'. getAllFields n ts cn = Returns (m, ts') \<and> ranked rank ts'))"
  "(ranked rank ts \<longrightarrow> (\<forall>parent \<in> set ps. rank parent < n) \<longrightarrow>
      (\<exists>m ts'. mergeParentFields n ts ps acc = Returns (m, ts') \<and> ranked rank ts'))"
proof (induction n ts cn and n ts ps acc rule: getAllFields_mergeParentFields.induct)
  case (1 ts className)
  then show ?case by simp
next
  case (2 n ts className)
  show ?case
  proof (intro impI)
    assume rk: "ranked rank ts" and lt: "rank className < Suc n"
    show "\<exists>m ts'. getAllFields (Suc n) ts className = Returns (m, ts') \<and> ranked rank ts'"
    proof (cases "map_get (classes ts) className")
      case None
      then show ?thesis using rk by simp
    next
      case (Some ci)
      note lk = Some
      show ?thesis
      proof (cases "ci_allFields ci")
        case (Some cached)
        then show ?thesis using lk rk by simp
      next
        case None
        have "\<forall>parent \<in> set (ci_parentClasses ci). rank parent < n"
          using ranked_lookup[OF rk lk None] lt by fastforce
        with "2"[OF lk None] rk obtain inh ts1 where
          mr: "mergeParentFields n ts (ci_parentClasses ci) [] = Returns (inh, ts1)"
          and r1: "ranked rank ts1" by blast
        show ?thesis using lk None mr ranked_cache[OF r1] by (simp add: Let_def)
      qed
    qed
  qed
next
  case (3 n ts allFields)
  then show ?case by simp
next
  case (4 n ts parentName rest allFields)
  show ?case
  proof (intro impI)
    assume rk: "ranked rank ts" and lt: "\<forall>parent \<in> set (parentName # rest). rank parent < n"
    from "4"(1) rk lt obtain pf ts1 where
      g: "getAllFields n ts parentName = Returns (pf, ts1)" and r1: "ranked rank ts1" by auto
    from "4"(2)[OF g refl] r1 lt obtain m ts' where
      "mergeParentFields n ts1 rest (map_set_all allFields pf) = Returns (m, ts')" "ranked rank ts'"
      by auto
    then show "\<exists>m ts'. mergeParentFields n ts (parentName # rest) allFields = Returns (m, ts')
                 \<and> ranked rank ts'"
      using g by simp
  qed
qed

lemma parentResults_length:
  "parentResults n ts ps views ts' \<Longrightarrow> length views = length ps"
  by (induction rule: parentResults.induct) simp_all

text \<open>
  C4. For a registered class that holds no cached view, in a registry whose classes
  without a cached view are ranked (no inheritance cycle among them) with the rank of
  the class below the fuel, \<open>getAllFields\<close> returns: the map is the parents' own
  \<open>getAllFields\<close> results, one for each parent in declaration order, merged so that a
  later parent overrides an earlier one, and overridden by the class's own fields; the
  view is then cached in the class. For \<open>Base {F, G}\<close> and \<open>Child : Base {F, H}\<close>
  stored in any registry, \<open>Child\<close> without a cached view and \<open>Base\<close> without one or
  with its own two fields as cached view, the view of \<open>Child\<close> is
  \<open>F\<close> of \<open>Child\<close>, \<open>G\<close> of \<open>Base\<close>, \<open>H\<close> of \<open>Child\<close>, of size 3.
\<close>

theorem getAllFields_merges_parents_then_own:
  "(registry_ok ts \<longrightarrow> ranked rank ts \<longrightarrow> rank cn \<le> n \<longrightarrow>
      getClass ts cn = Some ci \<longrightarrow> ci_allFields ci = None \<longrightarrow>
      (\<exists>m ts' views ts1.
         getAllFields (Suc n) ts cn = Returns (m, ts') \<and>
         parentResults n ts (ci_parentClasses ci) views ts1 \<and>
         length views = length (ci_parentClasses ci) \<and>
         map_of m = foldl (++) Map.empty (map map_of views) ++ map_of (ci_fields ci) \<and>
         map_ok m \<and>
         ts' = ts1\<lparr>classes := map_set (classes ts1) cn (ci\<lparr>ci_allFields := Some m\<rparr>)\<rparr>))
 \<and> (getClass ts childName = Some child \<longrightarrow> getClass ts baseName = Some base \<longrightarrow>
      ci_allFields child = None \<longrightarrow>
      ci_allFields base = None \<or> ci_allFields base = Some (ci_fields base) \<longrightarrow>
      ci_parentClasses base = [] \<longrightarrow> ci_parentClasses child = [baseName] \<longrightarrow>
      ci_fields base = [(F, baseF), (G, baseG)] \<longrightarrow> ci_fields child = [(F, childF), (H, childH)] \<longrightarrow>
      distinct [F, G, H] \<longrightarrow>
      (\<exists>all reg. getAllFields (Suc (Suc k)) ts childName = Returns (all, reg) \<and>
         all = [(F, childF), (G, baseG), (H, childH)] \<and>
         map_size all = 3 \<and> map_get all F = Some childF \<and> map_get all G = Some baseG \<and>
         map_get all H = Some childH))"
proof (intro conjI impI)
  assume ok: "registry_ok ts" and rk: "ranked rank ts" and lt: "rank cn \<le> n"
    and c: "getClass ts cn = Some ci" and nc: "ci_allFields ci = None"
  from getAllFields_total(1)[of rank ts cn "Suc n"] rk lt obtain m ts' where
    r: "getAllFields (Suc n) ts cn = Returns (m, ts')" by auto
  from r c nc obtain inh ts1 where
    mr: "mergeParentFields n ts (ci_parentClasses ci) [] = Returns (inh, ts1)"
    and m: "m = map_set_all inh (ci_fields ci)"
    and t: "ts' = ts1\<lparr>classes := map_set (classes ts1) cn (ci\<lparr>ci_allFields := Some m\<rparr>)\<rparr>"
    by (auto simp: getClass_def Let_def split: outcome.splits)
  from mergeParentFields_views[OF ok mr] obtain views where
    v: "parentResults n ts (ci_parentClasses ci) views ts1"
    and e: "map_of inh = foldl (++) Map.empty (map map_of views)"
    by auto
  have okf: "map_ok (ci_fields ci)" using registry_ok_lookup[OF ok] c by (simp add: getClass_def)
  have "map_of m = foldl (++) Map.empty (map map_of views) ++ map_of (ci_fields ci)"
    using m e by (simp add: map_of_map_set_all[OF okf])
  moreover have "map_ok m" using getAllFields_ok(1)[of ts "Suc n" cn m ts'] ok r by simp
  ultimately show "\<exists>m ts' views ts1.
         getAllFields (Suc n) ts cn = Returns (m, ts') \<and>
         parentResults n ts (ci_parentClasses ci) views ts1 \<and>
         length views = length (ci_parentClasses ci) \<and>
         map_of m = foldl (++) Map.empty (map map_of views) ++ map_of (ci_fields ci) \<and>
         map_ok m \<and>
         ts' = ts1\<lparr>classes := map_set (classes ts1) cn (ci\<lparr>ci_allFields := Some m\<rparr>)\<rparr>"
    using r v t parentResults_length[OF v] by blast
next
  assume gc: "getClass ts childName = Some child" and gb: "getClass ts baseName = Some base"
    and nc: "ci_allFields child = None"
    and nb: "ci_allFields base = None \<or> ci_allFields base = Some (ci_fields base)"
    and p: "ci_parentClasses base = []" "ci_parentClasses child = [baseName]"
    and f: "ci_fields base = [(F, baseF), (G, baseG)]" "ci_fields child = [(F, childF), (H, childH)]"
    and d: "distinct [F, G, H]"
  have b: "\<exists>ts1. getAllFields (Suc k) ts baseName = Returns ([(F, baseF), (G, baseG)], ts1)"
    using gb nb p(1) f(1) d
    by (cases k) (auto simp: getClass_def Let_def map_set_all_def)
  then obtain ts1 where
    b1: "getAllFields (Suc k) ts baseName = Returns ([(F, baseF), (G, baseG)], ts1)" by blast
  have "getAllFields (Suc (Suc k)) ts childName =
      Returns ([(F, childF), (G, baseG), (H, childH)],
        ts1\<lparr>classes := map_set (classes ts1) childName
              (child\<lparr>ci_allFields := Some [(F, childF), (G, baseG), (H, childH)]\<rparr>)\<rparr>)"
    using gc nc p(2) f(2) d b1
    by (simp add: getClass_def Let_def map_set_all_def)
  moreover have "map_size [(F, childF), (G, baseG), (H, childH)] = 3"
    "map_get [(F, childF), (G, baseG), (H, childH)] F = Some childF"
    "map_get [(F, childF), (G, baseG), (H, childH)] G = Some baseG"
    "map_get [(F, childF), (G, baseG), (H, childH)] H = Some childH"
    using d by (auto simp: map_size_def map_get_def)
  ultimately show "\<exists>all reg. getAllFields (Suc (Suc k)) ts childName = Returns (all, reg) \<and>
         all = [(F, childF), (G, baseG), (H, childH)] \<and>
         map_size all = 3 \<and> map_get all F = Some childF \<and> map_get all G = Some baseG \<and>
         map_get all H = Some childH"
    by blast
qed

theorem getAllFields_merges_parents_then_own_witness:
  "registry_ok bothRegistry \<and> ranked bothRank bothRegistry \<and> bothRank ''Both'' \<le> 2
   \<and> getClass bothRegistry ''Both'' = Some bothClass \<and> ci_allFields bothClass = None
   \<and> (\<exists>m ts' views ts1.
         getAllFields 3 bothRegistry ''Both'' = Returns (m, ts') \<and>
         parentResults 2 bothRegistry [''Left'', ''Right''] views ts1 \<and>
         length views = length [''Left'', ''Right''] \<and>
         map_of m = foldl (++) Map.empty (map map_of views)
                      ++ map_of [(''Z'', fieldAt ''Z'' 5), (''W'', fieldAt ''W'' 6)] \<and>
         map_ok m \<and>
         ts' = ts1\<lparr>classes := map_set (classes ts1) ''Both'' (bothClass\<lparr>ci_allFields := Some m\<rparr>)\<rparr>)
   \<and> viewOf (getAllFields 2 bothRegistry ''Left'')
        = Some [(''T'', fieldAt ''T'' 0), (''X'', fieldAt ''X'' 1), (''Y'', fieldAt ''Y'' 2)]
   \<and> viewOf (getAllFields 2 (registryOf (getAllFields 2 bothRegistry ''Left'')) ''Right'')
        = Some [(''X'', fieldAt ''X'' 3), (''Z'', fieldAt ''Z'' 4)]
   \<and> viewOf (getAllFields 3 bothRegistry ''Both'')
        = Some [(''T'', fieldAt ''T'' 0), (''X'', fieldAt ''X'' 3), (''Y'', fieldAt ''Y'' 2),
                (''Z'', fieldAt ''Z'' 5), (''W'', fieldAt ''W'' 6)]
   \<and> getClass (addClass childClass (addClass baseClass emptyTypeSystem)) ''Child'' = Some childClass
   \<and> getClass (addClass childClass (addClass baseClass emptyTypeSystem)) ''Base'' = Some baseClass
   \<and> (\<exists>all reg. getAllFields 2 (addClass childClass (addClass baseClass emptyTypeSystem)) ''Child''
                    = Returns (all, reg) \<and>
         all = [(''F'', fieldAt ''F'' 10), (''G'', fieldAt ''G'' 2), (''H'', fieldAt ''H'' 11)] \<and>
         map_size all = 3 \<and> map_get all ''F'' = Some (fieldAt ''F'' 10) \<and>
         map_get all ''G'' = Some (fieldAt ''G'' 2) \<and> map_get all ''H'' = Some (fieldAt ''H'' 11))"
proof -
  have ok: "registry_ok bothRegistry" by code_simp
  have rk: "ranked bothRank bothRegistry" by code_simp
  have lt: "bothRank ''Both'' \<le> 2" by code_simp
  have gc: "getClass bothRegistry ''Both'' = Some bothClass" by code_simp
  have nc: "ci_allFields bothClass = None" by code_simp
  have p: "ci_parentClasses bothClass = [''Left'', ''Right'']"
    "ci_fields bothClass = [(''Z'', fieldAt ''Z'' 5), (''W'', fieldAt ''W'' 6)]"
    by (simp_all add: bothClass_def classNamed_def)
  have three: "Suc 2 = 3" by simp
  have gen: "\<exists>m ts' views ts1.
         getAllFields 3 bothRegistry ''Both'' = Returns (m, ts') \<and>
         parentResults 2 bothRegistry [''Left'', ''Right''] views ts1 \<and>
         length views = length [''Left'', ''Right''] \<and>
         map_of m = foldl (++) Map.empty (map map_of views)
                      ++ map_of [(''Z'', fieldAt ''Z'' 5), (''W'', fieldAt ''W'' 6)] \<and>
         map_ok m \<and>
         ts' = ts1\<lparr>classes := map_set (classes ts1) ''Both'' (bothClass\<lparr>ci_allFields := Some m\<rparr>)\<rparr>"
    using getAllFields_merges_parents_then_own
      [where ts = bothRegistry and rank = bothRank and cn = "''Both''" and n = 2 and ci = bothClass,
       THEN conjunct1, rule_format, OF ok rk lt gc nc]
    unfolding p three .
  have v1: "viewOf (getAllFields 2 bothRegistry ''Left'')
        = Some [(''T'', fieldAt ''T'' 0), (''X'', fieldAt ''X'' 1), (''Y'', fieldAt ''Y'' 2)]"
    by code_simp
  have v2: "viewOf (getAllFields 2 (registryOf (getAllFields 2 bothRegistry ''Left'')) ''Right'')
        = Some [(''X'', fieldAt ''X'' 3), (''Z'', fieldAt ''Z'' 4)]"
    by code_simp
  have v3: "viewOf (getAllFields 3 bothRegistry ''Both'')
        = Some [(''T'', fieldAt ''T'' 0), (''X'', fieldAt ''X'' 3), (''Y'', fieldAt ''Y'' 2),
                (''Z'', fieldAt ''Z'' 5), (''W'', fieldAt ''W'' 6)]"
    by code_simp
  define R where "R = addClass childClass (addClass baseClass emptyTypeSystem)"
  have c1: "getClass R ''Child'' = Some childClass" unfolding R_def by code_simp
  have c2: "getClass R ''Base'' = Some baseClass" unfolding R_def by code_simp
  have b: "ci_allFields childClass = None"
    "ci_allFields baseClass = None \<or> ci_allFields baseClass = Some (ci_fields baseClass)"
    "ci_parentClasses baseClass = []" "ci_parentClasses childClass = [''Base'']"
    "ci_fields baseClass = [(''F'', fieldAt ''F'' 1), (''G'', fieldAt ''G'' 2)]"
    "ci_fields childClass = [(''F'', fieldAt ''F'' 10), (''H'', fieldAt ''H'' 11)]"
    "distinct [''F'', ''G'', ''H'']"
    by (simp_all add: baseClass_def childClass_def classNamed_def)
  have two: "Suc (Suc 0) = 2" by simp
  have ex: "\<exists>all reg. getAllFields 2 R ''Child'' = Returns (all, reg) \<and>
         all = [(''F'', fieldAt ''F'' 10), (''G'', fieldAt ''G'' 2), (''H'', fieldAt ''H'' 11)] \<and>
         map_size all = 3 \<and> map_get all ''F'' = Some (fieldAt ''F'' 10) \<and>
         map_get all ''G'' = Some (fieldAt ''G'' 2) \<and> map_get all ''H'' = Some (fieldAt ''H'' 11)"
    using getAllFields_merges_parents_then_own
      [where ts = R and childName = "''Child''" and baseName = "''Base''" and child = childClass
         and base = baseClass and F = "''F''" and G = "''G''" and H = "''H''"
         and baseF = "fieldAt ''F'' 1" and baseG = "fieldAt ''G'' 2" and childF = "fieldAt ''F'' 10"
         and childH = "fieldAt ''H'' 11" and k = 0,
       THEN conjunct2, rule_format, OF c1 c2 b]
    unfolding two .
  from ok rk lt gc nc gen v1 v2 v3 c1 c2 ex show ?thesis
    unfolding R_def by blast
qed

text \<open>
  A cached view outlives a later registration of a parent: \<open>Child\<close> is asked for its
  fields before \<open>Base\<close> is registered. Afterwards both classes are stored as the
  example has them, and the view of \<open>Child\<close> still has size 2, without \<open>G\<close>.
\<close>

theorem getAllFields_stale_view_counterexample:
  "getClass staleRegistry ''Base'' = Some baseClass
   \<and> getClass staleRegistry ''Child''
        = Some (childClass\<lparr>ci_allFields := Some [(''F'', fieldAt ''F'' 10), (''H'', fieldAt ''H'' 11)]\<rparr>)
   \<and> viewOf (getAllFields 5 staleRegistry ''Child'')
        = Some [(''F'', fieldAt ''F'' 10), (''H'', fieldAt ''H'' 11)]
   \<and> map_option map_size (viewOf (getAllFields 5 staleRegistry ''Child'')) = Some 2
   \<and> fieldOf (getAllFields 5 staleRegistry ''Child'') ''G'' = None"
  by code_simp

text \<open>
  \<open>getAllFields\<close> has no guard against a cycle of parents: on two classes that name
  each other as parent no depth of the stack is enough.
\<close>

lemma getAllFields_cycle_exhausts_stack:
  "getAllFields n cyclicRegistry ''A'' = OutOfFuel \<and> getAllFields n cyclicRegistry ''B'' = OutOfFuel"
proof (induction n)
  case 0
  then show ?case by simp
next
  case (Suc n)
  have a: "map_get (classes cyclicRegistry) ''A'' = Some (classNamed ''A'' [''B''] [] False)"
    by code_simp
  have b: "map_get (classes cyclicRegistry) ''B'' = Some (classNamed ''B'' [''A''] [] False)"
    by code_simp
  show ?case using Suc a b by (simp add: classNamed_def)
qed

section \<open>Properties of the symbol table\<close>

lemma filter_not_spliceFirst:
  "filter (\<lambda>x. \<not> p x) (spliceFirst p xs) = filter (\<lambda>x. \<not> p x) xs"
  by (induction xs) auto

lemma filter_other_spliceFirst:
  "(\<And>x. q x \<Longrightarrow> \<not> p x) \<Longrightarrow> filter q (spliceFirst p xs) = filter q xs"
  by (induction xs) auto

lemma length_filter_spliceFirst:
  "length (filter p (spliceFirst p xs)) = length (filter p xs) - 1"
  by (induction xs) auto

lemma map_get_purge:
  "map_get (purge uri m) name = map_option (filter (\<lambda>s. sym_uri s \<noteq> uri)) (map_get m name)"
  by (induction m) (auto simp: purge_def map_get_def)

lemma map_ok_purge: "map_ok (purge uri m) = map_ok m"
  by (simp add: purge_def map_ok_def comp_def)

lemma purge_map_set_same:
  "map_get m name = Some l \<Longrightarrow>
   filter (\<lambda>s. sym_uri s \<noteq> uri) l' = filter (\<lambda>s. sym_uri s \<noteq> uri) l \<Longrightarrow>
   purge uri (map_set m name l') = purge uri m"
  by (induction m) (auto simp: purge_def map_get_def split: if_splits)

lemma purge_id:
  assumes "map_ok m"
    and "\<And>name l. map_get m name = Some l \<Longrightarrow> filter (\<lambda>s. sym_uri s = uri) l = []"
  shows "purge uri m = m"
proof -
  have "\<And>entry. entry \<in> set m \<Longrightarrow>
      (fst entry, filter (\<lambda>s. sym_uri s \<noteq> uri) (snd entry)) = entry"
  proof -
    fix entry assume e: "entry \<in> set m"
    then have "map_get m (fst entry) = Some (snd entry)"
      using map_ok_entry[OF assms(1), of "fst entry" "snd entry"] by simp
    then have "filter (\<lambda>s. sym_uri s = uri) (snd entry) = []" by (rule assms(2))
    then have "filter (\<lambda>s. sym_uri s \<noteq> uri) (snd entry) = snd entry"
      by (auto simp: filter_empty_conv filter_id_conv)
    then show "(fst entry, filter (\<lambda>s. sym_uri s \<noteq> uri) (snd entry)) = entry" by simp
  qed
  then show ?thesis unfolding purge_def by (simp add: map_idI)
qed

subsection \<open>The loop of clearFile on the global index\<close>

lemma clearSymbol_frame:
  "fileSymbols (clearSymbol uri old st) = fileSymbols st"
  "references (clearSymbol uri old st) = references st"
  "fileReferences (clearSymbol uri old st) = fileReferences st"
  by (auto simp: clearSymbol_def split: option.splits)

lemma fold_clearSymbol_frame:
  "fileSymbols (fold (clearSymbol uri) olds st) = fileSymbols st"
  "references (fold (clearSymbol uri) olds st) = references st"
  "fileReferences (fold (clearSymbol uri) olds st) = fileReferences st"
  by (induction olds arbitrary: st) (auto simp: clearSymbol_frame)

lemma fold_clearSymbol_global:
  "map_ok (globalSymbols st) \<Longrightarrow>
   (\<And>name. length (filter (\<lambda>s. sym_uri s = uri) (globalBucket st name))
             \<le> length (filter (inGlobal name) olds)) \<Longrightarrow>
   globalSymbols (fold (clearSymbol uri) olds st) = purge uri (globalSymbols st)"
proof (induction olds arbitrary: st)
  case Nil
  have "purge uri (globalSymbols st) = globalSymbols st"
  proof (rule purge_id[OF Nil.prems(1)])
    fix name l assume "map_get (globalSymbols st) name = Some l"
    then show "filter (\<lambda>s. sym_uri s = uri) l = []"
      using Nil.prems(2)[of name] by (simp add: globalBucket_def)
  qed
  then show ?case by simp
next
  case (Cons old olds)
  let ?st1 = "clearSymbol uri old st"
  have step: "map_ok (globalSymbols ?st1) \<and>
      (\<forall>name. length (filter (\<lambda>s. sym_uri s = uri) (globalBucket ?st1 name))
             \<le> length (filter (inGlobal name) olds)) \<and>
      purge uri (globalSymbols ?st1) = purge uri (globalSymbols st)"
  proof (cases "truthy (sym_scope old)")
    case True
    then have same: "globalSymbols ?st1 = globalSymbols st"
      by (auto simp: clearSymbol_def split: option.splits)
    have "\<And>name. \<not> inGlobal name old" using True by (simp add: inGlobal_def)
    then show ?thesis using Cons.prems same by (simp add: globalBucket_def)
  next
    case False
    show ?thesis
    proof (cases "map_get (globalSymbols st) (sym_name old)")
      case None
      then have same: "?st1 = st" using False by (simp add: clearSymbol_def)
      have "\<And>name. length (filter (\<lambda>s. sym_uri s = uri) (globalBucket st name))
             \<le> length (filter (inGlobal name) olds)"
      proof -
        fix name
        show "length (filter (\<lambda>s. sym_uri s = uri) (globalBucket st name))
             \<le> length (filter (inGlobal name) olds)"
        proof (cases "name = sym_name old")
          case True
          then show ?thesis using None by (simp add: globalBucket_def)
        next
          case False
          then have "\<not> inGlobal name old" by (auto simp: inGlobal_def)
          then show ?thesis using Cons.prems(2)[of name] by simp
        qed
      qed
      then show ?thesis using same Cons.prems(1) by simp
    next
      case (Some syms)
      let ?l' = "spliceFirst (\<lambda>s. sym_uri s = uri) syms"
      have g1: "globalSymbols ?st1 = map_set (globalSymbols st) (sym_name old) ?l'"
        using False Some by (simp add: clearSymbol_def)
      have ok1: "map_ok (globalSymbols ?st1)"
        using Cons.prems(1) by (simp add: g1 map_ok_map_set)
      have bound: "\<And>name. length (filter (\<lambda>s. sym_uri s = uri) (globalBucket ?st1 name))
             \<le> length (filter (inGlobal name) olds)"
      proof -
        fix name
        show "length (filter (\<lambda>s. sym_uri s = uri) (globalBucket ?st1 name))
             \<le> length (filter (inGlobal name) olds)"
        proof (cases "name = sym_name old")
          case True
          then have "inGlobal name old" using False by (simp add: inGlobal_def)
          then have "length (filter (\<lambda>s. sym_uri s = uri) syms) \<le> Suc (length (filter (inGlobal name) olds))"
            using Cons.prems(2)[of name] Some True by (simp add: globalBucket_def)
          then show ?thesis
            using True by (simp add: globalBucket_def g1 map_get_map_set length_filter_spliceFirst)
        next
          case False
          then have "\<not> inGlobal name old" by (auto simp: inGlobal_def)
          then show ?thesis
            using Cons.prems(2)[of name] False by (simp add: globalBucket_def g1 map_get_map_set)
        qed
      qed
      have "purge uri (globalSymbols ?st1) = purge uri (globalSymbols st)"
        unfolding g1 by (rule purge_map_set_same[OF Some]) (rule filter_not_spliceFirst)
      then show ?thesis using ok1 bound by simp
    qed
  qed
  have "globalSymbols (fold (clearSymbol uri) olds ?st1) = purge uri (globalSymbols ?st1)"
    using step by (intro Cons.IH) auto
  then show ?case using step by simp
qed

subsection \<open>The loop of clearFile on the scoped index\<close>

lemma purgeScopes_map_set_same:
  "map_get m scope = Some scopeMap \<Longrightarrow> purge uri scopeMap' = purge uri scopeMap \<Longrightarrow>
   purgeScopes uri (map_set m scope scopeMap') = purgeScopes uri m"
  by (induction m) (auto simp: purgeScopes_def map_get_def split: if_splits)

lemma purgeScopes_id:
  assumes "map_ok m"
    and "\<And>scope scopeMap. map_get m scope = Some scopeMap \<Longrightarrow> purge uri scopeMap = scopeMap"
  shows "purgeScopes uri m = m"
proof -
  have "\<And>entry. entry \<in> set m \<Longrightarrow> (fst entry, purge uri (snd entry)) = entry"
  proof -
    fix entry assume e: "entry \<in> set m"
    then have "map_get m (fst entry) = Some (snd entry)"
      using map_ok_entry[OF assms(1), of "fst entry" "snd entry"] by simp
    then have "purge uri (snd entry) = snd entry" by (rule assms(2))
    then show "(fst entry, purge uri (snd entry)) = entry" by simp
  qed
  then show ?thesis unfolding purgeScopes_def by (simp add: map_idI)
qed

lemma map_get_purgeScopes:
  "map_get (purgeScopes uri m) scope = map_option (purge uri) (map_get m scope)"
  by (induction m) (auto simp: purgeScopes_def map_get_def)

lemma map_ok_purgeScopes: "map_ok (purgeScopes uri m) = map_ok m"
  by (simp add: purgeScopes_def map_ok_def comp_def)

lemma inner_ok_map_set:
  "\<forall>entry \<in> set m. map_ok (snd entry) \<Longrightarrow> map_ok v \<Longrightarrow>
   \<forall>entry \<in> set (map_set m k v). map_ok (snd entry)"
  using set_map_set[of m k v] by fastforce

lemma fold_clearSymbol_scoped:
  "map_ok (scopedSymbols st) \<Longrightarrow> \<forall>entry \<in> set (scopedSymbols st). map_ok (snd entry) \<Longrightarrow>
   (\<And>scope name. length (filter (\<lambda>s. sym_uri s = uri) (scopedBucket st scope name))
             \<le> length (filter (inScope scope name) olds)) \<Longrightarrow>
   scopedSymbols (fold (clearSymbol uri) olds st) = purgeScopes uri (scopedSymbols st)"
proof (induction olds arbitrary: st)
  case Nil
  have "purgeScopes uri (scopedSymbols st) = scopedSymbols st"
  proof (rule purgeScopes_id[OF Nil.prems(1)])
    fix scope scopeMap assume sm: "map_get (scopedSymbols st) scope = Some scopeMap"
    have ok: "map_ok scopeMap" using Nil.prems(2) map_get_entry[OF sm] by fastforce
    show "purge uri scopeMap = scopeMap"
    proof (rule purge_id[OF ok])
      fix name l assume "map_get scopeMap name = Some l"
      then show "filter (\<lambda>s. sym_uri s = uri) l = []"
        using Nil.prems(3)[of scope name] sm by (simp add: scopedBucket_def)
    qed
  qed
  then show ?case by simp
next
  case (Cons old olds)
  let ?st1 = "clearSymbol uri old st"
  let ?sc = "the (sym_scope old)"
  have step: "map_ok (scopedSymbols ?st1) \<and> (\<forall>entry \<in> set (scopedSymbols ?st1). map_ok (snd entry)) \<and>
      (\<forall>scope name. length (filter (\<lambda>s. sym_uri s = uri) (scopedBucket ?st1 scope name))
             \<le> length (filter (inScope scope name) olds)) \<and>
      purgeScopes uri (scopedSymbols ?st1) = purgeScopes uri (scopedSymbols st)"
  proof (cases "truthy (sym_scope old)")
    case False
    then have same: "scopedSymbols ?st1 = scopedSymbols st"
      by (auto simp: clearSymbol_def split: option.splits)
    have "\<And>scope name. \<not> inScope scope name old" using False by (simp add: inScope_def)
    then show ?thesis using Cons.prems same by (simp add: scopedBucket_def)
  next
    case True
    have untouched: "length (filter (\<lambda>s. sym_uri s = uri) (scopedBucket st scope name))
             \<le> length (filter (inScope scope name) olds)"
      if "scopedBucket st ?sc (sym_name old) = []" for scope name
    proof (cases "scope = ?sc \<and> name = sym_name old")
      case True
      then show ?thesis using that by simp
    next
      case False
      then have "\<not> inScope scope name old" by (auto simp: inScope_def)
      then show ?thesis using Cons.prems(3)[of scope name] by simp
    qed
    show ?thesis
    proof (cases "map_get (scopedSymbols st) ?sc")
      case None
      then have same: "?st1 = st" using True by (simp add: clearSymbol_def)
      have "scopedBucket st ?sc (sym_name old) = []" using None by (simp add: scopedBucket_def)
      then show ?thesis using same Cons.prems(1,2) untouched by simp
    next
      case (Some scopeMap)
      have okm: "map_ok scopeMap" using Cons.prems(2) map_get_entry[OF Some] by fastforce
      show ?thesis
      proof (cases "map_get scopeMap (sym_name old)")
        case None
        then have same: "?st1 = st" using True Some by (simp add: clearSymbol_def)
        have "scopedBucket st ?sc (sym_name old) = []" using None Some by (simp add: scopedBucket_def)
        then show ?thesis using same Cons.prems(1,2) untouched by simp
      next
        case (Some syms)
        let ?l' = "spliceFirst (\<lambda>s. sym_uri s = uri) syms"
        let ?m' = "map_set scopeMap (sym_name old) ?l'"
        have s1: "scopedSymbols ?st1 = map_set (scopedSymbols st) ?sc ?m'"
          using True Some \<open>map_get (scopedSymbols st) ?sc = Some scopeMap\<close>
          by (simp add: clearSymbol_def)
        have ok1: "map_ok (scopedSymbols ?st1)"
          using Cons.prems(1) by (simp add: s1 map_ok_map_set)
        have in1: "\<forall>entry \<in> set (scopedSymbols ?st1). map_ok (snd entry)"
          unfolding s1 by (rule inner_ok_map_set[OF Cons.prems(2)]) (simp add: okm map_ok_map_set)
        have bound: "\<And>scope name. length (filter (\<lambda>s. sym_uri s = uri) (scopedBucket ?st1 scope name))
               \<le> length (filter (inScope scope name) olds)"
        proof -
          fix scope name
          show "length (filter (\<lambda>s. sym_uri s = uri) (scopedBucket ?st1 scope name))
               \<le> length (filter (inScope scope name) olds)"
          proof (cases "scope = ?sc \<and> name = sym_name old")
            case True
            then have "inScope scope name old" using \<open>truthy (sym_scope old)\<close> by (simp add: inScope_def)
            then have "length (filter (\<lambda>s. sym_uri s = uri) syms)
                 \<le> Suc (length (filter (inScope scope name) olds))"
              using Cons.prems(3)[of scope name] Some \<open>map_get (scopedSymbols st) ?sc = Some scopeMap\<close> True
              by (simp add: scopedBucket_def)
            then show ?thesis
              using True by (simp add: scopedBucket_def s1 map_get_map_set length_filter_spliceFirst)
          next
            case False
            then have ni: "\<not> inScope scope name old" by (auto simp: inScope_def)
            have "scopedBucket ?st1 scope name = scopedBucket st scope name"
              using False \<open>map_get (scopedSymbols st) ?sc = Some scopeMap\<close>
              by (auto simp: scopedBucket_def s1 map_get_map_set)
            then show ?thesis using Cons.prems(3)[of scope name] ni by simp
          qed
        qed
        have "purge uri ?m' = purge uri scopeMap"
          by (rule purge_map_set_same[OF Some]) (rule filter_not_spliceFirst)
        then have "purgeScopes uri (scopedSymbols ?st1) = purgeScopes uri (scopedSymbols st)"
          unfolding s1 by (rule purgeScopes_map_set_same[OF \<open>map_get (scopedSymbols st) ?sc = Some scopeMap\<close>])
        then show ?thesis using ok1 in1 bound by simp
      qed
    qed
  qed
  have "scopedSymbols (fold (clearSymbol uri) olds ?st1) = purgeScopes uri (scopedSymbols ?st1)"
    using step by (intro Cons.IH) auto
  then show ?case using step by simp
qed

lemma clearFile_effect:
  assumes "table_ok st"
  shows "globalSymbols (clearFile uri st) = purge uri (globalSymbols st)"
    and "scopedSymbols (clearFile uri st) = purgeScopes uri (scopedSymbols st)"
    and "references (clearFile uri st) = filter (\<lambda>r. ref_uri r \<noteq> uri) (references st)"
    and "fileSymbols (clearFile uri st) = map_delete (fileSymbols st) uri"
    and "fileReferences (clearFile uri st) = map_delete (fileReferences st) uri"
proof -
  let ?olds = "case map_get (fileSymbols st) uri of None \<Rightarrow> [] | Some l \<Rightarrow> l"
  have o: "?olds = getAllSymbolsInFile st uri" by (simp add: getAllSymbolsInFile_def)
  have g: "globalSymbols (fold (clearSymbol uri) ?olds st) = purge uri (globalSymbols st)"
    using assms unfolding o by (intro fold_clearSymbol_global) (auto simp: table_ok_def)
  have s: "scopedSymbols (fold (clearSymbol uri) ?olds st) = purgeScopes uri (scopedSymbols st)"
    using assms unfolding o by (intro fold_clearSymbol_scoped) (auto simp: table_ok_def)
  show "globalSymbols (clearFile uri st) = purge uri (globalSymbols st)"
    using g by (simp add: clearFile_def Let_def)
  show "scopedSymbols (clearFile uri st) = purgeScopes uri (scopedSymbols st)"
    using s by (simp add: clearFile_def Let_def)
  show "references (clearFile uri st) = filter (\<lambda>r. ref_uri r \<noteq> uri) (references st)"
    by (simp add: clearFile_def Let_def fold_clearSymbol_frame)
  show "fileSymbols (clearFile uri st) = map_delete (fileSymbols st) uri"
    by (simp add: clearFile_def Let_def fold_clearSymbol_frame)
  show "fileReferences (clearFile uri st) = map_delete (fileReferences st) uri"
    by (simp add: clearFile_def Let_def fold_clearSymbol_frame)
qed

subsection \<open>The indices stay consistent\<close>

lemma table_ok_empty: "table_ok emptySymbolTable"
  by (simp add: table_ok_def emptySymbolTable_def map_ok_def globalBucket_def scopedBucket_def
        map_get_def getAllSymbolsInFile_def)

lemma table_ok_addReference: "table_ok st \<Longrightarrow> table_ok (addReference ref st)"
  by (simp add: table_ok_def addReference_def Let_def globalBucket_def scopedBucket_def
        getAllSymbolsInFile_def)

lemma getAllSymbolsInFile_clearFile:
  "table_ok st \<Longrightarrow> getAllSymbolsInFile (clearFile uri st) other =
     (if other = uri then [] else getAllSymbolsInFile st other)"
  by (simp add: getAllSymbolsInFile_def clearFile_effect map_get_map_delete)

lemma globalBucket_clearFile:
  "table_ok st \<Longrightarrow> globalBucket (clearFile uri st) name =
     filter (\<lambda>s. sym_uri s \<noteq> uri) (globalBucket st name)"
  by (simp add: globalBucket_def clearFile_effect map_get_purge split: option.splits)

lemma scopedBucket_clearFile:
  "table_ok st \<Longrightarrow> scopedBucket (clearFile uri st) scope name =
     filter (\<lambda>s. sym_uri s \<noteq> uri) (scopedBucket st scope name)"
  by (simp add: scopedBucket_def clearFile_effect map_get_purgeScopes map_get_purge
        split: option.splits)

lemma filter_uri_purged:
  "filter (\<lambda>s. sym_uri s = other) (filter (\<lambda>s. sym_uri s \<noteq> uri) l) =
     (if other = uri then [] else filter (\<lambda>s. sym_uri s = other) l)"
  by (induction l) auto

lemma table_ok_clearFile:
  assumes "table_ok st"
  shows "table_ok (clearFile uri st)"
proof -
  have inner: "\<forall>entry \<in> set (purgeScopes uri (scopedSymbols st)). map_ok (snd entry)"
    using assms by (auto simp: table_ok_def purgeScopes_def map_ok_purge)
  have g: "length (filter (\<lambda>s. sym_uri s = other) (globalBucket (clearFile uri st) name))
      \<le> length (filter (inGlobal name) (getAllSymbolsInFile (clearFile uri st) other))" for other name
  proof (cases "other = uri")
    case True
    then show ?thesis
      by (simp only: globalBucket_clearFile[OF assms] filter_uri_purged) simp
  next
    case False
    have "length (filter (\<lambda>s. sym_uri s = other) (globalBucket st name))
        \<le> length (filter (inGlobal name) (getAllSymbolsInFile st other))"
      using assms by (simp add: table_ok_def)
    then show ?thesis using False
      by (simp only: globalBucket_clearFile[OF assms] getAllSymbolsInFile_clearFile[OF assms]
            filter_uri_purged if_False)
  qed
  have s: "length (filter (\<lambda>s. sym_uri s = other) (scopedBucket (clearFile uri st) scope name))
      \<le> length (filter (inScope scope name) (getAllSymbolsInFile (clearFile uri st) other))"
    for other scope name
  proof (cases "other = uri")
    case True
    then show ?thesis
      by (simp only: scopedBucket_clearFile[OF assms] filter_uri_purged) simp
  next
    case False
    have "length (filter (\<lambda>s. sym_uri s = other) (scopedBucket st scope name))
        \<le> length (filter (inScope scope name) (getAllSymbolsInFile st other))"
      using assms by (simp add: table_ok_def)
    then show ?thesis using False
      by (simp only: scopedBucket_clearFile[OF assms] getAllSymbolsInFile_clearFile[OF assms]
            filter_uri_purged if_False)
  qed
  show ?thesis
    unfolding table_ok_def
    using assms inner g s
    by (simp add: clearFile_effect map_ok_purge map_ok_purgeScopes table_ok_def)
qed

lemma table_ok_addSymbol:
  assumes ok: "table_ok st"
  shows "table_ok (addSymbol symbol st)"
proof (cases "sym_name symbol = []")
  case True
  then show ?thesis using ok by (simp add: addSymbol_def)
next
  case False
  let ?uri = "sym_uri symbol"
  have files: "getAllSymbolsInFile (addSymbol symbol st) uri =
      (if uri = ?uri then getAllSymbolsInFile st uri @ [symbol] else getAllSymbolsInFile st uri)" for uri
    using False
    by (auto simp: addSymbol_def Let_def getAllSymbolsInFile_def map_get_map_set)
  show ?thesis
  proof (cases "truthy (sym_scope symbol)")
    case True
    let ?sc = "the (sym_scope symbol)"
    let ?scopeMap = "case map_get (scopedSymbols st) ?sc of None \<Rightarrow> [] | Some m \<Rightarrow> m"
    let ?syms = "case map_get ?scopeMap (sym_name symbol) of None \<Rightarrow> [] | Some l \<Rightarrow> l"
    have g: "globalSymbols (addSymbol symbol st) = globalSymbols st"
      using False True by (simp add: addSymbol_def Let_def)
    have s: "scopedSymbols (addSymbol symbol st) =
        map_set (scopedSymbols st) ?sc (map_set ?scopeMap (sym_name symbol) (?syms @ [symbol]))"
      using False True by (simp add: addSymbol_def Let_def)
    have okm: "map_ok ?scopeMap"
    proof (cases "map_get (scopedSymbols st) ?sc")
      case None
      then show ?thesis by (simp add: map_ok_def)
    next
      case (Some m)
      then show ?thesis using ok map_get_entry[OF Some] by (fastforce simp: table_ok_def)
    qed
    have inner: "\<forall>entry \<in> set (scopedSymbols (addSymbol symbol st)). map_ok (snd entry)"
      unfolding s using ok okm by (intro inner_ok_map_set) (auto simp: table_ok_def map_ok_map_set)
    have sb: "scopedBucket (addSymbol symbol st) scope name =
        (if scope = ?sc \<and> name = sym_name symbol then scopedBucket st scope name @ [symbol]
         else scopedBucket st scope name)" for scope name
      by (cases "map_get (scopedSymbols st) ?sc")
         (auto simp: scopedBucket_def s map_get_map_set map_get_Nil map_get_Cons split: option.splits)
    have gb: "globalBucket (addSymbol symbol st) name = globalBucket st name" for name
      by (simp add: globalBucket_def g)
    have notg: "\<not> inGlobal name symbol" for name using True by (simp add: inGlobal_def)
    have ins: "inScope scope name symbol \<longleftrightarrow> scope = ?sc \<and> name = sym_name symbol" for scope name
      using True by (auto simp: inScope_def)
    have c1: "length (filter (\<lambda>s. sym_uri s = uri) (globalBucket (addSymbol symbol st) name))
        \<le> length (filter (inGlobal name) (getAllSymbolsInFile (addSymbol symbol st) uri))" for uri name
      using ok notg by (simp add: gb files table_ok_def)
    have c2: "length (filter (\<lambda>s. sym_uri s = uri) (scopedBucket (addSymbol symbol st) scope name))
        \<le> length (filter (inScope scope name) (getAllSymbolsInFile (addSymbol symbol st) uri))"
      for uri scope name
    proof -
      have b: "length (filter (\<lambda>s. sym_uri s = uri) (scopedBucket st scope name))
        \<le> length (filter (inScope scope name) (getAllSymbolsInFile st uri))"
        using ok by (simp add: table_ok_def)
      show ?thesis using b by (auto simp: sb files ins)
    qed
    show ?thesis
      unfolding table_ok_def using ok inner c1 c2
      by (simp add: g s map_ok_map_set table_ok_def)
  next
    case nt: False
    let ?syms = "case map_get (globalSymbols st) (sym_name symbol) of None \<Rightarrow> [] | Some l \<Rightarrow> l"
    have g: "globalSymbols (addSymbol symbol st) =
        map_set (globalSymbols st) (sym_name symbol) (?syms @ [symbol])"
      using False nt by (simp add: addSymbol_def Let_def)
    have s: "scopedSymbols (addSymbol symbol st) = scopedSymbols st"
      using False nt by (simp add: addSymbol_def Let_def)
    have gb: "globalBucket (addSymbol symbol st) name =
        (if name = sym_name symbol then globalBucket st name @ [symbol] else globalBucket st name)" for name
      by (auto simp: globalBucket_def g map_get_map_set split: option.splits)
    have sb: "scopedBucket (addSymbol symbol st) scope name = scopedBucket st scope name" for scope name
      by (simp add: scopedBucket_def s)
    have nots: "\<not> inScope scope name symbol" for scope name using nt by (simp add: inScope_def)
    have ing: "inGlobal name symbol \<longleftrightarrow> name = sym_name symbol" for name
      using nt by (auto simp: inGlobal_def)
    have c1: "length (filter (\<lambda>s. sym_uri s = uri) (globalBucket (addSymbol symbol st) name))
        \<le> length (filter (inGlobal name) (getAllSymbolsInFile (addSymbol symbol st) uri))" for uri name
    proof -
      have b: "length (filter (\<lambda>s. sym_uri s = uri) (globalBucket st name))
        \<le> length (filter (inGlobal name) (getAllSymbolsInFile st uri))"
        using ok by (simp add: table_ok_def)
      show ?thesis using b by (auto simp: gb files ing)
    qed
    have c2: "length (filter (\<lambda>s. sym_uri s = uri) (scopedBucket (addSymbol symbol st) scope name))
        \<le> length (filter (inScope scope name) (getAllSymbolsInFile (addSymbol symbol st) uri))"
      for uri scope name
      using ok nots by (simp add: sb files table_ok_def)
    show ?thesis
      unfolding table_ok_def using ok c1 c2
      by (simp add: g s map_ok_map_set table_ok_def)
  qed
qed

lemma reachable_table_ok: "reachable st \<Longrightarrow> table_ok st"
  by (induction rule: reachable.induct)
     (simp_all add: table_ok_empty table_ok_addSymbol table_ok_addReference table_ok_clearFile)

subsection \<open>clearFile removes the file's entries and nothing else\<close>

lemma findAllDefinitions_clearFile:
  assumes "table_ok st"
  shows "findAllDefinitions (clearFile uri st) name =
         filter (\<lambda>s. sym_uri s \<noteq> uri) (findAllDefinitions st name)"
proof -
  let ?keep = "\<lambda>s. sym_uri s \<noteq> uri"
  have g: "(case map_get (purge uri (globalSymbols st)) name of None \<Rightarrow> [] | Some l \<Rightarrow> l) =
      filter ?keep (case map_get (globalSymbols st) name of None \<Rightarrow> [] | Some l \<Rightarrow> l)"
    by (simp add: map_get_purge split: option.splits)
  have s: "concat (map (\<lambda>entry. case map_get (snd entry) name of None \<Rightarrow> [] | Some l \<Rightarrow> l)
              (purgeScopes uri m)) =
      filter ?keep (concat (map (\<lambda>entry. case map_get (snd entry) name of None \<Rightarrow> [] | Some l \<Rightarrow> l) m))"
    for m
    by (induction m) (auto simp: purgeScopes_def map_get_purge split: option.splits)
  show ?thesis
    unfolding findAllDefinitions_def Let_def clearFile_effect[OF assms] g s
    by (simp add: conj_commute)
qed

text \<open>
  C9. In every table that \<open>addSymbol\<close>, \<open>addReference\<close> and \<open>clearFile\<close> build from
  the empty one, \<open>clearFile uri\<close> leaves every index as it was with the symbols and
  references located in \<open>uri\<close> taken out, in place: the global index, every scope's
  index, the reference list. The file's own lists are gone, the lists of every other
  file are untouched, and the queries \<open>findAllDefinitions\<close> and \<open>findReferences\<close>
  answer what they answered before minus the entries of \<open>uri\<close>, for every name, so
  also for a name that both files declare.
\<close>

theorem clearFile_removes_exactly_the_file:
  assumes "reachable st"
  shows "globalSymbols (clearFile uri st) = purge uri (globalSymbols st)
       \<and> scopedSymbols (clearFile uri st) = purgeScopes uri (scopedSymbols st)
       \<and> references (clearFile uri st) = filter (\<lambda>r. ref_uri r \<noteq> uri) (references st)
       \<and> getAllSymbolsInFile (clearFile uri st) uri = []
       \<and> getReferencesInFile (clearFile uri st) uri = []
       \<and> (\<forall>other. other \<noteq> uri \<longrightarrow>
             getAllSymbolsInFile (clearFile uri st) other = getAllSymbolsInFile st other \<and>
             getReferencesInFile (clearFile uri st) other = getReferencesInFile st other)
       \<and> (\<forall>name. findAllDefinitions (clearFile uri st) name =
             filter (\<lambda>s. sym_uri s \<noteq> uri) (findAllDefinitions st name))
       \<and> (\<forall>name. findReferences (clearFile uri st) name =
             filter (\<lambda>r. ref_uri r \<noteq> uri) (findReferences st name))"
proof -
  have ok: "table_ok st" using assms by (rule reachable_table_ok)
  have refs: "findReferences (clearFile uri st) name =
      filter (\<lambda>r. ref_uri r \<noteq> uri) (findReferences st name)" for name
    by (simp add: findReferences_def clearFile_effect[OF ok] conj_commute)
  have files: "getReferencesInFile (clearFile uri st) other =
      (if other = uri then [] else getReferencesInFile st other)" for other
    by (simp add: getReferencesInFile_def clearFile_effect[OF ok] map_get_map_delete)
  show ?thesis
    using clearFile_effect(1-3)[OF ok, of uri] getAllSymbolsInFile_clearFile[OF ok, of uri]
      findAllDefinitions_clearFile[OF ok, of uri] refs files
    by simp
qed

theorem clearFile_removes_exactly_the_file_witness:
  "findAllDefinitions
     (clearFile ''file:///a.td''
        (addReference (referenceIn ''Foo'' ''file:///a.td'')
          (addSymbol (classSymbolIn ''Foo'' ''file:///b.td'')
            (addSymbol (classSymbolIn ''Foo'' ''file:///a.td'') emptySymbolTable)))) ''Foo''
     = [classSymbolIn ''Foo'' ''file:///b.td'']
   \<and> findReferences
     (clearFile ''file:///a.td''
        (addReference (referenceIn ''Foo'' ''file:///a.td'')
          (addSymbol (classSymbolIn ''Foo'' ''file:///b.td'')
            (addSymbol (classSymbolIn ''Foo'' ''file:///a.td'') emptySymbolTable)))) ''Foo'' = []
   \<and> length (findAllDefinitions
        (addReference (referenceIn ''Foo'' ''file:///a.td'')
          (addSymbol (classSymbolIn ''Foo'' ''file:///b.td'')
            (addSymbol (classSymbolIn ''Foo'' ''file:///a.td'') emptySymbolTable))) ''Foo'') = 2"
proof -
  define st where "st = addReference (referenceIn ''Foo'' ''file:///a.td'')
          (addSymbol (classSymbolIn ''Foo'' ''file:///b.td'')
            (addSymbol (classSymbolIn ''Foo'' ''file:///a.td'') emptySymbolTable))"
  have r: "reachable st"
    unfolding st_def by (intro reach_addReference reach_addSymbol reach_empty)
  have defs: "findAllDefinitions st ''Foo'' =
      [classSymbolIn ''Foo'' ''file:///a.td'', classSymbolIn ''Foo'' ''file:///b.td'']"
    by (simp add: st_def findAllDefinitions_def addReference_def addSymbol_def
          emptySymbolTable_def classSymbolIn_def referenceIn_def sym_uri_def ref_uri_def
          truthy_def isForward_def map_get_def Let_def)
  have refs: "findReferences st ''Foo'' = [referenceIn ''Foo'' ''file:///a.td'']"
    by (simp add: st_def findReferences_def addReference_def addSymbol_def
          emptySymbolTable_def classSymbolIn_def referenceIn_def sym_uri_def ref_uri_def
          truthy_def map_get_def Let_def)
  from clearFile_removes_exactly_the_file[OF r, of "''file:///a.td''"]
  have "findAllDefinitions (clearFile ''file:///a.td'' st) ''Foo'' =
          filter (\<lambda>s. sym_uri s \<noteq> ''file:///a.td'') (findAllDefinitions st ''Foo'')"
    and "findReferences (clearFile ''file:///a.td'' st) ''Foo'' =
          filter (\<lambda>r. ref_uri r \<noteq> ''file:///a.td'') (findReferences st ''Foo'')"
    by blast+
  then show ?thesis
    unfolding st_def[symmetric] defs refs
    by (simp add: classSymbolIn_def referenceIn_def sym_uri_def ref_uri_def)
qed

section \<open>Properties of the include graph\<close>




subsection \<open>The second walk: total, and without repetitions\<close>



subsection \<open>The first walk is the full walk from the root, cut after the target\<close>


subsection \<open>getVisibleFiles\<close>






subsection \<open>The walks of the code are the depth-first walk in include order\<close>















subsection \<open>findRootFile returns\<close>




text \<open>
  Where nothing is cached for a file that is no root, the root found is the file's
  first includer if that is a root.
\<close>

lemma findRootFile_first_includer:
  assumes "map_get (fileToRoot g) f = None" "\<not> map_has (rootFiles g) f"
    and "includersOf g f = root # others" "map_has (rootFiles g) root"
  shows "findRootFile (Suc (Suc k)) g f =
           Returns (Some root, g\<lparr>fileToRoot := map_set (map_set (fileToRoot g) f root) root root\<rparr>)"
proof -
  have "root \<noteq> f" using assms(2,4) by auto
  then show ?thesis using assms by (simp add: findRootFile_def set_add_def Let_def)
qed





text \<open>
  The root of a file is the one \<open>findRootFile\<close> has cached for it, and a search caches
  its root for every file it visited. In the third example graph the list of \<open>B\<close>
  is asked first: the search from \<open>B\<close> visits \<open>A\<close> before it finds the root
  \<open>T\<close>, so \<open>T\<close> becomes the root of \<open>A\<close>, and the list of \<open>A\<close> is then walked
  from \<open>T\<close>. Asked first, the list of \<open>A\<close> is walked from \<open>R\<close>.
\<close>

lemma getVisibleFiles_root_of_earlier_search:
  "visibleOf (getVisibleFiles 9 sharedGraph ''/A.td'') = Some [''/R.td'', ''/A.td'', ''/B.td'']
   \<and> visibleOf (getVisibleFiles 9 sharedGraph ''/B.td'') = Some [''/T.td'', ''/B.td'']
   \<and> map_get (fileToRoot (graphOf (getVisibleFiles 9 sharedGraph ''/B.td''))) ''/A.td'' = Some ''/T.td''
   \<and> visibleOf (getVisibleFiles 9 (graphOf (getVisibleFiles 9 sharedGraph ''/B.td'')) ''/A.td'')
       = Some [''/T.td'', ''/B.td'']"
  by code_simp

section \<open>Composite defm symbols\<close>

lemmas program_defs = inheritProgram_def cyclicProgram_def ident_def classRef_def defNamed_def
  parsedAs_def

text \<open>
  The server's \<open>collectDefSuffixes\<close> does not read the parents of the multiclass it is
  given: two nodes that differ only there give the same suffixes.
\<close>

lemma server_collectDefSuffixes_ignores_parents:
  "server_collectDefSuffixes n parsedFiles (mc\<lparr>mc_parentClasses := parents\<rparr>)
     = server_collectDefSuffixes n parsedFiles mc"
  by (cases n) simp_all

text \<open>
  The server's \<open>collectDefSuffixes\<close> has no guard against a multiclass that instantiates
  itself in its body, \<open>multiclass A { defm x : A; }\<close>: no depth of calls is enough.
\<close>

lemma server_collectDefSuffixes_self_nesting:
  "server_collectDefSuffixes n
     [(uri, parsedAs uri [MultiClassDef (ident ''A'' r0) [] []
                            [DefmDef (Some (ident ''x'' r1)) [classRef ''A'' r2] r3] r4])]
     \<lparr>mc_name = ident ''A'' r0, mc_templateArgs = [], mc_parentClasses = [],
      mc_body = [DefmDef (Some (ident ''x'' r1)) [classRef ''A'' r2] r3], mc_range = r4\<rparr>
   = OutOfFuel"
  by (induction n) (simp_all add: program_defs)

text \<open>
  C1. For \<open>multiclass A { def _a : Base; }  multiclass B : A { def _b : Base; }
  defm Z : B;\<close> the composite symbols are to be exactly \<open>Z_a\<close> and \<open>Z_b\<close>, of kind
  \<open>def\<close>, at the location of the name of the \<open>defm\<close>. The server registers \<open>Z_b\<close>
  alone, at any depth of calls allowed and into any symbol table, so that \<open>Z_a\<close> is
  not found afterwards; \<open>computeCompositeDefmSymbols\<close> of resolutionHelpers.ts, on the
  same file and with the same lookup of multiclasses, gives both.
\<close>

theorem registerCompositeDefmSymbols_misses_inherited:
  "registerCompositeDefmSymbols (Suc n) [(uri, parsedAs uri (inheritProgram r))]
       (parsedAs uri (inheritProgram r)) uri symbolTable
     = Returns (addSymbol (defSymbol ''Z_b'' uri (r 7)) symbolTable)
   \<and> findDefinition (addSymbol (defSymbol ''Z_b'' uri (r 7)) emptySymbolTable) ''Z_a'' None = None
   \<and> computeCompositeDefmSymbols (Suc (Suc n)) (inheritProgram r) uri
        (server_findMulticlassNode [(uri, parsedAs uri (inheritProgram r))])
     = Returns [defSymbol ''Z_a'' uri (r 7), defSymbol ''Z_b'' uri (r 7)]"
proof (intro conjI)
  show "registerCompositeDefmSymbols (Suc n) [(uri, parsedAs uri (inheritProgram r))]
       (parsedAs uri (inheritProgram r)) uri symbolTable
     = Returns (addSymbol (defSymbol ''Z_b'' uri (r 7)) symbolTable)"
    by (simp add: registerCompositeDefmSymbols_def program_defs)
  show "findDefinition (addSymbol (defSymbol ''Z_b'' uri (r 7)) emptySymbolTable) ''Z_a'' None = None"
    by (simp add: findDefinition_def findGlobal_def addSymbol_def defSymbol_def
        emptySymbolTable_def truthy_def sym_uri_def map_get_def Let_def)
  show "computeCompositeDefmSymbols (Suc (Suc n)) (inheritProgram r) uri
        (server_findMulticlassNode [(uri, parsedAs uri (inheritProgram r))])
     = Returns [defSymbol ''Z_a'' uri (r 7), defSymbol ''Z_b'' uri (r 7)]"
    by (simp add: computeCompositeDefmSymbols_def program_defs map_get_def set_add_def Let_def)
qed

text \<open>
  C2. For the mutually recursive \<open>multiclass A : B { def _a : Base; }
  multiclass B : A { def _b : Base; }  defm Z : A;\<close> the computation is to end with
  exactly \<open>Z_a\<close> and \<open>Z_b\<close>. \<open>computeCompositeDefmSymbols\<close> of resolutionHelpers.ts does:
  three nested calls are enough, the third being the re-entry of \<open>A\<close> that the guard
  answers with the empty set. The server, which does not follow the parents, ends
  too, but registers \<open>Z_a\<close> alone, so that \<open>Z_b\<close> is not found afterwards.
\<close>

theorem registerCompositeDefmSymbols_misses_cyclic_parent:
  "registerCompositeDefmSymbols (Suc n) [(uri, parsedAs uri (cyclicProgram r))]
       (parsedAs uri (cyclicProgram r)) uri symbolTable
     = Returns (addSymbol (defSymbol ''Z_a'' uri (r 8)) symbolTable)
   \<and> findDefinition (addSymbol (defSymbol ''Z_a'' uri (r 8)) emptySymbolTable) ''Z_b'' None = None
   \<and> computeCompositeDefmSymbols (Suc (Suc (Suc n))) (cyclicProgram r) uri
        (server_findMulticlassNode [(uri, parsedAs uri (cyclicProgram r))])
     = Returns [defSymbol ''Z_a'' uri (r 8), defSymbol ''Z_b'' uri (r 8)]"
proof (intro conjI)
  show "registerCompositeDefmSymbols (Suc n) [(uri, parsedAs uri (cyclicProgram r))]
       (parsedAs uri (cyclicProgram r)) uri symbolTable
     = Returns (addSymbol (defSymbol ''Z_a'' uri (r 8)) symbolTable)"
    by (simp add: registerCompositeDefmSymbols_def program_defs)
  show "findDefinition (addSymbol (defSymbol ''Z_a'' uri (r 8)) emptySymbolTable) ''Z_b'' None = None"
    by (simp add: findDefinition_def findGlobal_def addSymbol_def defSymbol_def
        emptySymbolTable_def truthy_def sym_uri_def map_get_def Let_def)
  show "computeCompositeDefmSymbols (Suc (Suc (Suc n))) (cyclicProgram r) uri
        (server_findMulticlassNode [(uri, parsedAs uri (cyclicProgram r))])
     = Returns [defSymbol ''Z_a'' uri (r 8), defSymbol ''Z_b'' uri (r 8)]"
    by (simp add: computeCompositeDefmSymbols_def program_defs map_get_def set_add_def Let_def)
qed

section \<open>The parser returns\<close>

lemma snd_advance [simp]: "snd (advance tokens pos) = Suc pos"
  by (simp add: advance_def)

lemma andThen_simps [simp]:
  "andThen (Returns v) k = k v"
  "andThen OutOfFuel k = OutOfFuel"
  "andThen Throws k = Throws"
  by (simp_all add: andThen_def)

lemma returnsFrom_Returns [simp]: "returnsFrom pos (Returns (x, p)) = (pos \<le> p)"
  by (simp add: returnsFrom_def)

lemma advancesFrom_Returns [simp]: "advancesFrom pos (Returns (x, p)) = (pos < p)"
  by (simp add: advancesFrom_def)

lemma returnsFromE:
  assumes "returnsFrom pos r"
  obtains x p where "r = Returns (x, p)" "pos \<le> p"
  using assms by (auto simp: returnsFrom_def split: outcome.splits)

lemma advancesFromE:
  assumes "advancesFrom pos r"
  obtains x p where "r = Returns (x, p)" "pos < p"
  using assms by (auto simp: advancesFrom_def split: outcome.splits)

lemma advancesFrom_returnsFrom: "advancesFrom pos r \<Longrightarrow> returnsFrom pos r"
  by (auto elim!: advancesFromE)

lemma returnsFrom_mono: "returnsFrom p r \<Longrightarrow> pos \<le> p \<Longrightarrow> returnsFrom pos r"
  by (auto elim!: returnsFromE)

lemma advancesFrom_mono: "advancesFrom p r \<Longrightarrow> pos \<le> p \<Longrightarrow> advancesFrom pos r"
  by (auto elim!: advancesFromE)

lemma returnsFrom_advancesFrom: "returnsFrom p r \<Longrightarrow> pos < p \<Longrightarrow> advancesFrom pos r"
  by (auto elim!: returnsFromE)

lemma returnsFrom_andThen:
  assumes "returnsFrom pos r"
    and "\<And>x p. r = Returns (x, p) \<Longrightarrow> pos \<le> p \<Longrightarrow> returnsFrom p (k (x, p))"
  shows "returnsFrom pos (andThen r k)"
  using assms by (auto elim!: returnsFromE intro: returnsFrom_mono)

lemma advancesFrom_andThen:
  assumes "advancesFrom pos r"
    and "\<And>x p. r = Returns (x, p) \<Longrightarrow> pos < p \<Longrightarrow> returnsFrom p (k (x, p))"
  shows "advancesFrom pos (andThen r k)"
  using assms by (auto elim!: advancesFromE intro: returnsFrom_advancesFrom)

lemma advancesFrom_andThen2:
  assumes "returnsFrom pos r"
    and "\<And>x p. r = Returns (x, p) \<Longrightarrow> pos \<le> p \<Longrightarrow> advancesFrom p (k (x, p))"
  shows "advancesFrom pos (andThen r k)"
  using assms by (auto elim!: returnsFromE intro: advancesFrom_mono)

subsection \<open>Tokens of a lexed array\<close>

lemma lexed_atToken:
  assumes "lexed tokens" "atToken tokens pos"
  shows "Suc pos < length tokens"
proof -
  from assms have ne: "tokens \<noteq> []" and l: "tk_type (last tokens) = TEof"
    by (simp_all add: lexed_def)
  have "pos < length tokens"
    using assms(2) l by (auto simp: atToken_def peek_def split: if_splits)
  moreover have "pos \<noteq> length tokens - 1"
    using assms(2) l ne by (auto simp: atToken_def peek_def last_conv_nth split: if_splits)
  ultimately show ?thesis by simp
qed

lemma match_atToken: "match tokens pos ty v \<Longrightarrow> ty \<noteq> TEof \<Longrightarrow> atToken tokens pos"
  by (auto simp: match_def atToken_def Let_def)

lemma not_eof_atToken:
  assumes "lexed tokens" "\<not> match tokens pos TEof (Some [])"
  shows "atToken tokens pos"
proof -
  from assms(1) have ne: "tokens \<noteq> []"
    and all: "\<And>t. t \<in> set tokens \<Longrightarrow> tk_type t = TEof \<Longrightarrow> tk_value t = []"
    by (auto simp: lexed_def list_all_iff)
  have "peek tokens pos 0 \<in> set tokens"
    using ne by (auto simp: peek_def)
  with all assms(2) show ?thesis
    by (auto simp: match_def atToken_def Let_def)
qed

lemma advanceToken_in_range:
  "pos < length tokens \<Longrightarrow> advanceToken tokens pos = Returns (tokens ! pos, Suc pos)"
  by (simp add: advanceToken_def advance_def)

lemma advanceToken_atToken:
  "lexed tokens \<Longrightarrow> atToken tokens pos \<Longrightarrow> advanceToken tokens pos = Returns (tokens ! pos, Suc pos)"
  using lexed_atToken [of tokens pos] by (simp add: advanceToken_in_range)

lemma advanceToken_after_token:
  "lexed tokens \<Longrightarrow> atToken tokens pos
     \<Longrightarrow> advanceToken tokens (Suc pos) = Returns (tokens ! Suc pos, Suc (Suc pos))"
  using lexed_atToken [of tokens pos] by (simp add: advanceToken_in_range)

lemma parseIdentifier_atToken:
  "lexed tokens \<Longrightarrow> atToken tokens pos \<Longrightarrow> advancesFrom pos (parseIdentifier tokens pos)"
  by (simp add: parseIdentifier_def advanceToken_atToken)

lemma parseIdentifier_after_token:
  "lexed tokens \<Longrightarrow> atToken tokens pos \<Longrightarrow> advancesFrom (Suc pos) (parseIdentifier tokens (Suc pos))"
  by (simp add: parseIdentifier_def advanceToken_after_token)

lemma enough_after_token:
  "lexed tokens \<Longrightarrow> atToken tokens pos \<Longrightarrow> length tokens - pos < Suc n \<Longrightarrow> pos < p
     \<Longrightarrow> length tokens - p < n"
  using lexed_atToken [of tokens pos] by linarith

lemma enough_mono: "length tokens - pos < n \<Longrightarrow> pos \<le> p \<Longrightarrow> length tokens - p < n"
  by linarith

subsection \<open>Expressions\<close>

lemma expressionsUntil_returns:
  assumes "lexed tokens"
    and pe: "\<And>p. length tokens - p < n \<Longrightarrow> advancesFrom p (parseExpr p)"
    and "length tokens - pos < k" and "length tokens - pos < n"
  shows "returnsFrom pos (expressionsUntil k tokens parseExpr closer pos args)"
  using assms(3,4)
proof (induction k arbitrary: pos args)
  case 0
  then show ?case by simp
next
  case (Suc k)
  show ?case
  proof (cases "\<not> match tokens pos TPunctuation (Some closer) \<and> \<not> match tokens pos TEof (Some [])")
    case False
    then show ?thesis by auto
  next
    case True
    then have tok: "atToken tokens pos" using assms(1) not_eof_atToken by blast
    from pe [OF Suc.prems(2)] obtain arg p1 where r: "parseExpr pos = Returns (arg, p1)" and lt: "pos < p1"
      by (auto elim!: advancesFromE)
    define p2 where "p2 = (if match tokens p1 TPunctuation (Some '','') then snd (advance tokens p1) else p1)"
    have p2: "pos < p2" using lt by (simp add: p2_def)
    have "returnsFrom p2 (expressionsUntil k tokens parseExpr closer p2 (args @ [arg]))"
      using Suc.IH [of p2] enough_after_token [OF assms(1) tok Suc.prems(1) p2]
        enough_mono [OF Suc.prems(2), of p2] p2 by simp
    then show ?thesis
      using True r p2 by (auto simp: p2_def [symmetric] intro: returnsFrom_mono)
  qed
qed


lemma advanceToken_peek:
  "lexed tokens \<Longrightarrow> tk_type (peek tokens pos 0) \<noteq> TEof
     \<Longrightarrow> advanceToken tokens pos = Returns (tokens ! pos, Suc pos)"
  using advanceToken_atToken [of tokens pos] by (simp add: atToken_def)

lemma parseIdentifier_peek:
  "lexed tokens \<Longrightarrow> tk_type (peek tokens pos 0) \<noteq> TEof
     \<Longrightarrow> parseIdentifier tokens pos
         = Returns (\<lparr>id_name = tk_value (tokens ! pos), id_range = tk_range (tokens ! pos)\<rparr>, Suc pos)"
  by (simp add: parseIdentifier_def advanceToken_peek)

lemma parseBitsSuffix_returns:
  "lexed tokens \<Longrightarrow> returnsFrom pos (parseBitsSuffix tokens argType pos)"
  by (auto simp: parseBitsSuffix_def match_def advanceToken_peek)

lemma parseListSuffix_returns:
  "lexed tokens \<Longrightarrow> returnsFrom pos (parseListSuffix tokens argType pos)"
  by (auto simp: parseListSuffix_def match_def advanceToken_peek)

lemma parseTemplateArgType_returns:
  assumes "lexed tokens"
  shows "returnsFrom pos (parseTemplateArgType tokens pos)"
proof (cases "match tokens pos TKeyword None \<or> match tokens pos TIdentifier None")
  case False
  then show ?thesis by (simp add: parseTemplateArgType_def)
next
  case True
  then have tok: "tk_type (peek tokens pos 0) \<noteq> TEof" by (auto simp: match_def)
  obtain a1 p1 where 1: "parseBitsSuffix tokens (tk_value (tokens ! pos)) (Suc pos) = Returns (a1, p1)"
      and le1: "Suc pos \<le> p1"
    using parseBitsSuffix_returns [OF assms] by (blast elim: returnsFromE)
  obtain a2 p2 where 2: "parseListSuffix tokens a1 p1 = Returns (a2, p2)" and le2: "p1 \<le> p2"
    using parseListSuffix_returns [OF assms] by (blast elim: returnsFromE)
  show ?thesis
    using True le1 le2 by (simp add: parseTemplateArgType_def advanceToken_peek [OF assms tok] 1 2)
qed

lemma parseTemplateArgName_returns:
  "lexed tokens \<Longrightarrow> returnsFrom pos (parseTemplateArgName tokens pos)"
  by (auto simp: parseTemplateArgName_def match_def parseIdentifier_peek)

lemma parseTemplateArgDefault_returns:
  assumes "lexed tokens"
    and pe: "\<And>p. length tokens - p < n \<Longrightarrow> advancesFrom p (parseExpr p)"
    and "length tokens - pos < n"
  shows "returnsFrom pos (parseTemplateArgDefault tokens parseExpr pos)"
proof (cases "match tokens pos TPunctuation (Some ''='')")
  case False
  then show ?thesis by (simp add: parseTemplateArgDefault_def)
next
  case True
  have "length tokens - Suc pos < n" using assms(3) by linarith
  from pe [OF this] obtain v p1 where 1: "parseExpr (Suc pos) = Returns (v, p1)" and "Suc pos < p1"
    by (auto elim!: advancesFromE)
  then show ?thesis using True by (simp add: parseTemplateArgDefault_def)
qed

lemma parseTemplateArg_advances:
  assumes "lexed tokens"
    and pe: "\<And>p. length tokens - p < n \<Longrightarrow> advancesFrom p (parseExpr p)"
    and "length tokens - pos < n"
  shows "advancesFrom pos (parseTemplateArg tokens parseExpr pos args)"
proof -
  obtain argType p1 where 1: "parseTemplateArgType tokens pos = Returns (argType, p1)" and le1: "pos \<le> p1"
    using parseTemplateArgType_returns [OF assms(1)] by (blast elim: returnsFromE)
  obtain name p2 where 2: "parseTemplateArgName tokens p1 = Returns (name, p2)" and le2: "p1 \<le> p2"
    using parseTemplateArgName_returns [OF assms(1)] by (blast elim: returnsFromE)
  have "length tokens - p2 < n" using assms(3) le1 le2 by linarith
  then obtain dv p3 where 3: "parseTemplateArgDefault tokens parseExpr p2 = Returns (dv, p3)"
      and le3: "p2 \<le> p3"
    using parseTemplateArgDefault_returns [where parseExpr = parseExpr and n = n, OF assms(1) pe] by (blast elim: returnsFromE)
  show ?thesis
    using le1 le2 le3 by (simp add: parseTemplateArg_def Let_def 1 2 3)
qed

lemma templateArgsLoop_returns:
  assumes "lexed tokens"
    and pe: "\<And>p. length tokens - p < n \<Longrightarrow> advancesFrom p (parseExpr p)"
    and "length tokens - pos < k" and "length tokens - pos < n"
  shows "returnsFrom pos (templateArgsLoop k tokens parseExpr pos args)"
  using assms(3,4)
proof (induction k arbitrary: pos args)
  case 0
  then show ?case by simp
next
  case (Suc k)
  show ?case
  proof (cases "\<not> match tokens pos TPunctuation (Some ''>'') \<and> \<not> match tokens pos TEof (Some [])")
    case False
    then show ?thesis by auto
  next
    case True
    then have tok: "atToken tokens pos" using assms(1) not_eof_atToken by blast
    obtain args1 p1 where r: "parseTemplateArg tokens parseExpr pos args = Returns (args1, p1)"
        and lt: "pos < p1"
      using parseTemplateArg_advances [where parseExpr = parseExpr and n = n, OF assms(1) pe Suc.prems(2)] by (blast elim: advancesFromE)
    have "returnsFrom p1 (templateArgsLoop k tokens parseExpr p1 args1)"
      using Suc.IH [of p1] enough_after_token [OF assms(1) tok Suc.prems(1) lt]
        enough_mono [OF Suc.prems(2), of p1] lt by simp
    then show ?thesis
      using True r lt by (auto intro: returnsFrom_mono)
  qed
qed

lemma parseTemplateArgs_returns:
  assumes "lexed tokens"
    and pe: "\<And>p. length tokens - p < n \<Longrightarrow> advancesFrom p (parseExpr p)"
    and "length tokens - pos < n"
  shows "returnsFrom pos (parseTemplateArgs tokens parseExpr n pos)"
proof (cases "match tokens pos TPunctuation (Some ''<'')")
  case False
  then show ?thesis by (simp add: parseTemplateArgs_def)
next
  case True
  have "length tokens - Suc pos < n" using assms(3) by linarith
  then obtain args p1 where 1: "templateArgsLoop n tokens parseExpr (Suc pos) [] = Returns (args, p1)"
      and le: "Suc pos \<le> p1"
    using templateArgsLoop_returns [where parseExpr = parseExpr and n = n and pos = "Suc pos" and k = n, OF assms(1) pe] by (blast elim: returnsFromE)
  show ?thesis using True le by (simp add: parseTemplateArgs_def 1)
qed

lemma closedArgs_returns:
  assumes "lexed tokens"
    and pe: "\<And>p. length tokens - p < n \<Longrightarrow> advancesFrom p (parseExpr p)"
    and "length tokens - pos < n"
  shows "returnsFrom pos
    (andThen (expressionsUntil n tokens parseExpr closer (Suc pos) [])
       (\<lambda>(args, pos1).
          if match tokens pos1 TPunctuation (Some closer)
          then Returns (args, snd (advance tokens pos1))
          else Returns (args, pos1)))"
proof -
  have "length tokens - Suc pos < n" using assms(3) by linarith
  then obtain args p1 where 1: "expressionsUntil n tokens parseExpr closer (Suc pos) [] = Returns (args, p1)"
      and le: "Suc pos \<le> p1"
    using expressionsUntil_returns [where parseExpr = parseExpr and n = n and pos = "Suc pos" and k = n, OF assms(1) pe] by (blast elim: returnsFromE)
  show ?thesis using le by (simp add: 1)
qed

lemma parseClassRefArgs_returns:
  assumes "lexed tokens"
    and pe: "\<And>p. length tokens - p < n \<Longrightarrow> advancesFrom p (parseExpr p)"
    and "length tokens - pos < n"
  shows "returnsFrom pos (parseClassRefArgs tokens parseExpr n pos)"
  using closedArgs_returns [OF assms, of "''>''"] by (simp add: parseClassRefArgs_def)

lemma parseBangArgs_returns:
  assumes "lexed tokens"
    and pe: "\<And>p. length tokens - p < n \<Longrightarrow> advancesFrom p (parseExpr p)"
    and "length tokens - pos < n"
  shows "returnsFrom pos (parseBangArgs tokens parseExpr n pos)"
  using closedArgs_returns [OF assms, of "'')''"] by (simp add: parseBangArgs_def)

lemma parseClassRef_advances:
  assumes "lexed tokens"
    and pe: "\<And>p. length tokens - p < n \<Longrightarrow> advancesFrom p (parseExpr p)"
    and "length tokens - pos < n" and tok: "atToken tokens pos"
  shows "advancesFrom pos (parseClassRef tokens parseExpr n pos)"
proof -
  have t: "tk_type (peek tokens pos 0) \<noteq> TEof" using tok by (simp add: atToken_def)
  have "length tokens - Suc pos < n" using assms(3) by linarith
  then obtain args p2 where 2: "parseClassRefArgs tokens parseExpr n (Suc pos) = Returns (args, p2)"
      and le: "Suc pos \<le> p2"
    using parseClassRefArgs_returns [where parseExpr = parseExpr and n = n, OF assms(1) pe] by (blast elim: returnsFromE)
  show ?thesis
    using le by (simp add: parseClassRef_def Let_def parseIdentifier_peek [OF assms(1) t] 2)
qed

lemma parentClassesLoop_returns:
  assumes "lexed tokens"
    and pe: "\<And>p. length tokens - p < n \<Longrightarrow> advancesFrom p (parseExpr p)"
    and "length tokens - pos < k" and "length tokens - pos < n"
  shows "returnsFrom pos (parentClassesLoop k tokens parseExpr n pos parents)"
  using assms(3,4)
proof (induction k arbitrary: pos parents)
  case 0
  then show ?case by simp
next
  case (Suc k)
  show ?case
  proof (cases "match tokens pos TIdentifier None")
    case False
    then show ?thesis by auto
  next
    case True
    then have tok: "atToken tokens pos" by (auto intro: match_atToken)
    obtain parent p1 where r: "parseClassRef tokens parseExpr n pos = Returns (parent, p1)"
        and lt: "pos < p1"
      using parseClassRef_advances [where parseExpr = parseExpr and n = n, OF assms(1) pe Suc.prems(2) tok] by (blast elim: advancesFromE)
    have "returnsFrom (Suc p1) (parentClassesLoop k tokens parseExpr n (Suc p1) (parents @ [parent]))"
      using Suc.IH [of "Suc p1"] enough_after_token [OF assms(1) tok Suc.prems(1), of "Suc p1"]
        enough_mono [OF Suc.prems(2), of "Suc p1"] lt by simp
    then show ?thesis
      using True r lt by (auto intro: returnsFrom_mono)
  qed
qed

lemma parseParentClasses_returns:
  assumes "lexed tokens"
    and pe: "\<And>p. length tokens - p < n \<Longrightarrow> advancesFrom p (parseExpr p)"
    and "length tokens - pos < n"
  shows "returnsFrom pos (parseParentClasses tokens parseExpr n pos)"
proof (cases "match tokens pos TPunctuation (Some '':'')")
  case False
  then show ?thesis by (simp add: parseParentClasses_def)
next
  case True
  have "length tokens - Suc pos < n" using assms(3) by linarith
  then have "returnsFrom (Suc pos) (parentClassesLoop n tokens parseExpr n (Suc pos) [])"
    using parentClassesLoop_returns [where parseExpr = parseExpr and n = n and pos = "Suc pos" and k = n, OF assms(1) pe] by simp
  then show ?thesis using True by (auto simp: parseParentClasses_def intro: returnsFrom_mono)
qed

lemma bangTypeTokensLoop_returns:
  assumes "lexed tokens" and "length tokens - pos < k"
  shows "returnsFrom pos (bangTypeTokensLoop k tokens pos angleDepth typeTokens)"
  using assms(2)
proof (induction k arbitrary: pos angleDepth typeTokens)
  case 0
  then show ?case by simp
next
  case (Suc k)
  show ?case
  proof (cases "0 < angleDepth \<and> \<not> match tokens pos TEof (Some [])")
    case False
    then show ?thesis by auto
  next
    case True
    then have tok: "atToken tokens pos" using assms(1) not_eof_atToken by blast
    have en: "length tokens - Suc pos < k"
      using enough_after_token [OF assms(1) tok Suc.prems(1), of "Suc pos"] by simp
    have "returnsFrom pos (bangTypeTokensLoop k tokens (Suc pos) d tt)" for d tt
      by (rule returnsFrom_mono [OF Suc.IH [OF en]]) simp
    then show ?thesis
      using True by (simp add: advanceToken_atToken [OF assms(1) tok])
  qed
qed

lemma parseBangTypeArgumentText_returns:
  assumes "lexed tokens" and "length tokens - pos < n"
  shows "returnsFrom pos (parseBangTypeArgumentText tokens n pos)"
proof (cases "match tokens pos TPunctuation (Some ''<'')")
  case False
  then show ?thesis by (simp add: parseBangTypeArgumentText_def)
next
  case True
  have "length tokens - Suc pos < n" using assms(2) by linarith
  then obtain tt p1 where 1: "bangTypeTokensLoop n tokens (Suc pos) (Suc 0) [] = Returns (tt, p1)"
      and le: "Suc pos \<le> p1"
    using bangTypeTokensLoop_returns [OF assms(1), of "Suc pos" n] by (blast elim: returnsFromE)
  show ?thesis using True le by (simp add: parseBangTypeArgumentText_def 1 Let_def)
qed

lemma parseBangOperator_advances:
  assumes "lexed tokens"
    and pe: "\<And>p. length tokens - p < n \<Longrightarrow> advancesFrom p (parseExpr p)"
    and "length tokens - Suc pos < n" and tok: "atToken tokens pos"
  shows "advancesFrom pos (parseBangOperator tokens parseExpr n pos)"
proof -
  obtain ta p2 where 2: "parseBangTypeArgumentText tokens n (Suc pos) = Returns (ta, p2)"
      and le2: "Suc pos \<le> p2"
    using parseBangTypeArgumentText_returns [OF assms(1) assms(3)] by (blast elim: returnsFromE)
  have "length tokens - p2 < n" using assms(3) le2 by linarith
  then obtain args p3 where 3: "parseBangArgs tokens parseExpr n p2 = Returns (args, p3)"
      and le3: "p2 \<le> p3"
    using parseBangArgs_returns [where parseExpr = parseExpr and n = n, OF assms(1) pe] by (blast elim: returnsFromE)
  show ?thesis
    using le2 le3 by (simp add: parseBangOperator_def Let_def advanceToken_atToken [OF assms(1) tok] 2 3)
qed

lemma parseList_advances:
  assumes "lexed tokens"
    and pe: "\<And>p. length tokens - p < n \<Longrightarrow> advancesFrom p (parseExpr p)"
    and "length tokens - Suc pos < n"
  shows "advancesFrom pos (parseList tokens parseExpr n pos)"
proof -
  obtain es p1 where 1: "expressionsUntil n tokens parseExpr '']'' (Suc pos) [] = Returns (es, p1)"
      and le: "Suc pos \<le> p1"
    using expressionsUntil_returns [where parseExpr = parseExpr and n = n and pos = "Suc pos" and k = n, OF assms(1) pe] assms(3) by (blast elim: returnsFromE)
  show ?thesis using le by (simp add: parseList_def Let_def 1)
qed

lemma parseDagArgName_returns:
  assumes "lexed tokens"
  shows "returnsFrom pos (parseDagArgName tokens pos)"
proof (cases "match tokens pos TPunctuation (Some '':'')")
  case False
  then show ?thesis by (simp add: parseDagArgName_def)
next
  case True
  then have tok: "atToken tokens pos" by (auto intro: match_atToken)
  show ?thesis
    using True by (simp add: parseDagArgName_def advanceToken_after_token [OF assms tok])
qed

lemma dagArgsLoop_returns:
  assumes "lexed tokens"
    and pe: "\<And>p. length tokens - p < n \<Longrightarrow> advancesFrom p (parseExpr p)"
    and "length tokens - pos < k" and "length tokens - pos < n"
  shows "returnsFrom pos (dagArgsLoop k tokens parseExpr pos args)"
  using assms(3,4)
proof (induction k arbitrary: pos args)
  case 0
  then show ?case by simp
next
  case (Suc k)
  show ?case
  proof (cases "\<not> match tokens pos TPunctuation (Some '')'') \<and> \<not> match tokens pos TEof (Some [])")
    case False
    then show ?thesis by auto
  next
    case True
    then have tok: "atToken tokens pos" using assms(1) not_eof_atToken by blast
    from pe [OF Suc.prems(2)] obtain v p1 where r: "parseExpr pos = Returns (v, p1)" and lt: "pos < p1"
      by (auto elim!: advancesFromE)
    obtain name p2 where 2: "parseDagArgName tokens p1 = Returns (name, p2)" and le2: "p1 \<le> p2"
      using parseDagArgName_returns [OF assms(1)] by (blast elim: returnsFromE)
    define p3 where "p3 = (if match tokens p2 TPunctuation (Some '','') then snd (advance tokens p2) else p2)"
    have p3: "pos < p3" using lt le2 by (simp add: p3_def)
    have "returnsFrom p3 (dagArgsLoop k tokens parseExpr p3 (args @ [(v, name, expr_range v)]))"
      using Suc.IH [of p3] enough_after_token [OF assms(1) tok Suc.prems(1) p3]
        enough_mono [OF Suc.prems(2), of p3] p3 by simp
    then show ?thesis
      using True r 2 p3 by (auto simp: p3_def [symmetric] intro: returnsFrom_mono)
  qed
qed

lemma parseDag_advances:
  assumes "lexed tokens"
    and pe: "\<And>p. length tokens - p < n \<Longrightarrow> advancesFrom p (parseExpr p)"
    and "length tokens - Suc pos < n"
  shows "advancesFrom pos (parseDag tokens parseExpr n pos)"
proof -
  obtain operator p1 where 1: "parseExpr (Suc pos) = Returns (operator, p1)" and lt: "Suc pos < p1"
    using pe [OF assms(3)] by (auto elim!: advancesFromE)
  have "length tokens - p1 < n" using assms(3) lt by linarith
  then obtain args p2 where 2: "dagArgsLoop n tokens parseExpr p1 [] = Returns (args, p2)"
      and le: "p1 \<le> p2"
    using dagArgsLoop_returns [where parseExpr = parseExpr and n = n and pos = p1 and k = n, OF assms(1) pe] by (blast elim: returnsFromE)
  show ?thesis using lt le by (simp add: parseDag_def Let_def 1 2)
qed

lemma instantiationArgsLoop_returns:
  assumes "lexed tokens"
    and pe: "\<And>p. length tokens - p < n \<Longrightarrow> advancesFrom p (parseExpr p)"
    and "length tokens - pos < k" and "length tokens - pos < n"
  shows "returnsFrom pos (instantiationArgsLoop k tokens parseExpr pos args)"
  using assms(3,4)
proof (induction k arbitrary: pos args)
  case 0
  then show ?case by simp
next
  case (Suc k)
  show ?case
  proof (cases "\<not> match tokens pos TPunctuation (Some ''>'') \<and> \<not> match tokens pos TEof (Some [])")
    case False
    then show ?thesis by auto
  next
    case True
    then have tok: "atToken tokens pos" using assms(1) not_eof_atToken by blast
    from pe [OF Suc.prems(2)] obtain arg p1 where r: "parseExpr pos = Returns (arg, p1)" and lt: "pos < p1"
      by (auto elim!: advancesFromE)
    have a: "returnsFrom p1 (instantiationArgsLoop k tokens parseExpr p1 (args @ [arg]))"
      using Suc.IH [of p1] enough_after_token [OF assms(1) tok Suc.prems(1) lt]
        enough_mono [OF Suc.prems(2), of p1] lt by simp
    have b: "returnsFrom (Suc p1) (instantiationArgsLoop k tokens parseExpr (Suc p1) (args @ [arg]))"
      using Suc.IH [of "Suc p1"] enough_after_token [OF assms(1) tok Suc.prems(1), of "Suc p1"]
        enough_mono [OF Suc.prems(2), of "Suc p1"] lt by simp
    show ?thesis
      using True r lt a b by (auto intro: returnsFrom_mono)
  qed
qed

lemma parseIdentifierExpression_advances:
  assumes "lexed tokens"
    and pe: "\<And>p. length tokens - p < n \<Longrightarrow> advancesFrom p (parseExpr p)"
    and "length tokens - Suc pos < n" and tok: "atToken tokens pos"
  shows "advancesFrom pos (parseIdentifierExpression tokens parseExpr n pos)"
proof -
  have t: "tk_type (peek tokens pos 0) \<noteq> TEof" using tok by (simp add: atToken_def)
  note id = parseIdentifier_peek [OF assms(1) t]
  show ?thesis
  proof (cases "match tokens (Suc pos) TPunctuation (Some ''<'')")
    case True
    have "length tokens - Suc (Suc pos) < n" using assms(3) by linarith
    then obtain args p2 where 2: "instantiationArgsLoop n tokens parseExpr (Suc (Suc pos)) [] = Returns (args, p2)"
        and le: "Suc (Suc pos) \<le> p2"
      using instantiationArgsLoop_returns [where parseExpr = parseExpr and n = n and pos = "Suc (Suc pos)" and k = n, OF assms(1) pe] by (blast elim: returnsFromE)
    show ?thesis using True le by (simp add: parseIdentifierExpression_def id 2 Let_def)
  next
    case False
    show ?thesis
    proof (cases "match tokens (Suc pos) TPunctuation (Some ''.'')")
      case True
      then have "tk_type (peek tokens (Suc pos) 0) \<noteq> TEof" by (auto simp: match_def)
      then have "atToken tokens (Suc pos)" by (simp add: atToken_def)
      then have "parseIdentifier tokens (Suc (Suc pos))
          = Returns (\<lparr>id_name = tk_value (tokens ! Suc (Suc pos)),
                      id_range = tk_range (tokens ! Suc (Suc pos))\<rparr>, Suc (Suc (Suc pos)))"
        by (simp add: parseIdentifier_def advanceToken_after_token [OF assms(1)])
      then show ?thesis using False True by (simp add: parseIdentifierExpression_def id)
    next
      case False
      then show ?thesis using \<open>\<not> match tokens (Suc pos) TPunctuation (Some ''<'')\<close>
        by (simp add: parseIdentifierExpression_def id)
    qed
  qed
qed

lemma parsePrimaryExpression_advances:
  assumes "lexed tokens"
    and pe: "\<And>p. length tokens - p < n \<Longrightarrow> advancesFrom p (parseExpr p)"
    and en: "length tokens - pos < Suc n"
  shows "advancesFrom pos (parsePrimaryExpression tokens parseExpr n pos)"
proof (cases "atToken tokens pos")
  case False
  then show ?thesis
    by (auto simp: parsePrimaryExpression_def Let_def atToken_def match_def)
next
  case True
  have en1: "length tokens - Suc pos < n"
    using enough_after_token [OF assms(1) True en, of "Suc pos"] by simp
  show ?thesis
    unfolding parsePrimaryExpression_def Let_def
    using parseBangOperator_advances [where parseExpr = parseExpr and n = n, OF assms(1) pe en1 True]
      parseList_advances [where parseExpr = parseExpr and n = n, OF assms(1) pe en1] parseDag_advances [where parseExpr = parseExpr and n = n, OF assms(1) pe en1]
      parseIdentifierExpression_advances [where parseExpr = parseExpr and n = n, OF assms(1) pe en1 True]
    by simp
qed

lemma parseExpression_advances:
  assumes "lexed tokens"
  shows "length tokens - pos < n \<Longrightarrow> advancesFrom pos (parseExpression tokens n pos)"
proof (induction n arbitrary: pos)
  case 0
  then show ?case by simp
next
  case (Suc n)
  show ?case
    using parsePrimaryExpression_advances [OF assms, of n "parseExpression tokens n" pos] Suc
    by simp
qed


subsection \<open>Statements\<close>

lemma skipSemicolon_ge [simp]: "pos \<le> skipSemicolon tokens pos"
  by (simp add: skipSemicolon_def)

lemma bodyLoop_returns:
  assumes "lexed tokens"
    and ps: "\<And>p. length tokens - p < n \<Longrightarrow> atToken tokens p \<Longrightarrow> advancesFrom p (parseStmt p)"
    and "length tokens - pos < k" and "length tokens - pos < n"
  shows "returnsFrom pos (bodyLoop k tokens parseStmt pos statements)"
  using assms(3,4)
proof (induction k arbitrary: pos statements)
  case 0
  then show ?case by simp
next
  case (Suc k)
  show ?case
  proof (cases "\<not> match tokens pos TPunctuation (Some ''}'') \<and> \<not> match tokens pos TEof (Some [])")
    case False
    then show ?thesis by auto
  next
    case True
    then have tok: "atToken tokens pos" using assms(1) not_eof_atToken by blast
    from ps [OF Suc.prems(2) tok] obtain stmt p1 where r: "parseStmt pos = Returns (stmt, p1)"
        and lt: "pos < p1"
      by (auto elim!: advancesFromE)
    have en1: "length tokens - p1 < k"
      using enough_after_token [OF assms(1) tok Suc.prems(1) lt] .
    have en2: "length tokens - p1 < n"
      using enough_mono [OF Suc.prems(2), of p1] lt by simp
    have "returnsFrom pos (bodyLoop k tokens parseStmt p1 ss)" for ss
      using returnsFrom_mono [OF Suc.IH [OF en1 en2, of ss], of pos] lt by simp
    then show ?thesis
      using True r by simp
  qed
qed

lemma parseBody_returns:
  assumes "lexed tokens"
    and ps: "\<And>p. length tokens - p < n \<Longrightarrow> atToken tokens p \<Longrightarrow> advancesFrom p (parseStmt p)"
    and "length tokens - pos < n"
  shows "returnsFrom pos (parseBody tokens parseStmt n pos)"
proof (cases "match tokens pos TPunctuation (Some ''{'')")
  case False
  then show ?thesis by (simp add: parseBody_def)
next
  case True
  have "length tokens - Suc pos < n" using assms(3) by linarith
  then obtain ss p1 where 1: "bodyLoop n tokens parseStmt (Suc pos) [] = Returns (ss, p1)"
      and le: "Suc pos \<le> p1"
    using bodyLoop_returns [where parseStmt = parseStmt and n = n and pos = "Suc pos" and k = n,
        OF assms(1) ps]
    by (blast elim: returnsFromE)
  show ?thesis using True le by (simp add: parseBody_def 1)
qed

lemma parseClass_advances:
  assumes "lexed tokens"
    and pe: "\<And>p. length tokens - p < n \<Longrightarrow> advancesFrom p (parseExpr p)"
    and ps: "\<And>p. length tokens - p < n \<Longrightarrow> atToken tokens p \<Longrightarrow> advancesFrom p (parseStmt p)"
    and en: "length tokens - Suc pos < n" and tok: "atToken tokens pos"
  shows "advancesFrom pos (parseClass tokens parseExpr parseStmt n pos)"
proof -
  obtain name p1 where 1: "parseIdentifier tokens (Suc pos) = Returns (name, p1)" and l1: "Suc pos < p1"
    using parseIdentifier_after_token [OF assms(1) tok] by (blast elim: advancesFromE)
  have "length tokens - p1 < n" using en l1 by linarith
  then obtain targs p2 where 2: "parseTemplateArgs tokens parseExpr n p1 = Returns (targs, p2)"
      and l2: "p1 \<le> p2"
    using parseTemplateArgs_returns [where parseExpr = parseExpr and n = n, OF assms(1) pe]
    by (blast elim: returnsFromE)
  have "length tokens - p2 < n" using en l1 l2 by linarith
  then obtain parents p3 where 3: "parseParentClasses tokens parseExpr n p2 = Returns (parents, p3)"
      and l3: "p2 \<le> p3"
    using parseParentClasses_returns [where parseExpr = parseExpr and n = n, OF assms(1) pe]
    by (blast elim: returnsFromE)
  have "length tokens - p3 < n" using en l1 l2 l3 by linarith
  then obtain body p4 where 4: "parseBody tokens parseStmt n p3 = Returns (body, p4)"
      and l4: "p3 \<le> p4"
    using parseBody_returns [where parseStmt = parseStmt and n = n, OF assms(1) ps]
    by (blast elim: returnsFromE)
  have "pos < skipSemicolon tokens p4"
    using l1 l2 l3 l4 skipSemicolon_ge [of p4 tokens] by linarith
  then show ?thesis by (simp add: parseClass_def Let_def 1 2 3 4)
qed

lemma parseOptionalName_returns:
  "lexed tokens \<Longrightarrow> returnsFrom pos (parseOptionalName tokens pos)"
  by (auto simp: parseOptionalName_def match_def parseIdentifier_peek)

lemma parseDef_advances:
  assumes "lexed tokens"
    and pe: "\<And>p. length tokens - p < n \<Longrightarrow> advancesFrom p (parseExpr p)"
    and ps: "\<And>p. length tokens - p < n \<Longrightarrow> atToken tokens p \<Longrightarrow> advancesFrom p (parseStmt p)"
    and en: "length tokens - Suc pos < n"
  shows "advancesFrom pos (parseDef tokens parseExpr parseStmt n pos)"
proof -
  obtain name p1 where 1: "parseOptionalName tokens (Suc pos) = Returns (name, p1)" and l1: "Suc pos \<le> p1"
    using parseOptionalName_returns [OF assms(1)] by (blast elim: returnsFromE)
  have "length tokens - p1 < n" using en l1 by linarith
  then obtain parents p2 where 2: "parseParentClasses tokens parseExpr n p1 = Returns (parents, p2)"
      and l2: "p1 \<le> p2"
    using parseParentClasses_returns [where parseExpr = parseExpr and n = n, OF assms(1) pe]
    by (blast elim: returnsFromE)
  have "length tokens - p2 < n" using en l1 l2 by linarith
  then obtain body p3 where 3: "parseBody tokens parseStmt n p2 = Returns (body, p3)"
      and l3: "p2 \<le> p3"
    using parseBody_returns [where parseStmt = parseStmt and n = n, OF assms(1) ps]
    by (blast elim: returnsFromE)
  have "pos < skipSemicolon tokens p3"
    using l1 l2 l3 skipSemicolon_ge [of p3 tokens] by linarith
  then show ?thesis by (simp add: parseDef_def Let_def 1 2 3)
qed

lemma parseMulticlass_advances:
  assumes "lexed tokens"
    and pe: "\<And>p. length tokens - p < n \<Longrightarrow> advancesFrom p (parseExpr p)"
    and ps: "\<And>p. length tokens - p < n \<Longrightarrow> atToken tokens p \<Longrightarrow> advancesFrom p (parseStmt p)"
    and en: "length tokens - Suc pos < n" and tok: "atToken tokens pos"
  shows "advancesFrom pos (parseMulticlass tokens parseExpr parseStmt n pos)"
proof -
  obtain name p1 where 1: "parseIdentifier tokens (Suc pos) = Returns (name, p1)" and l1: "Suc pos < p1"
    using parseIdentifier_after_token [OF assms(1) tok] by (blast elim: advancesFromE)
  have "length tokens - p1 < n" using en l1 by linarith
  then obtain targs p2 where 2: "parseTemplateArgs tokens parseExpr n p1 = Returns (targs, p2)"
      and l2: "p1 \<le> p2"
    using parseTemplateArgs_returns [where parseExpr = parseExpr and n = n, OF assms(1) pe]
    by (blast elim: returnsFromE)
  have "length tokens - p2 < n" using en l1 l2 by linarith
  then obtain parents p3 where 3: "parseParentClasses tokens parseExpr n p2 = Returns (parents, p3)"
      and l3: "p2 \<le> p3"
    using parseParentClasses_returns [where parseExpr = parseExpr and n = n, OF assms(1) pe]
    by (blast elim: returnsFromE)
  have "length tokens - p3 < n" using en l1 l2 l3 by linarith
  then obtain body p4 where 4: "parseBody tokens parseStmt n p3 = Returns (body, p4)"
      and l4: "p3 \<le> p4"
    using parseBody_returns [where parseStmt = parseStmt and n = n, OF assms(1) ps]
    by (blast elim: returnsFromE)
  have "pos < p4" using l1 l2 l3 l4 by linarith
  then show ?thesis by (simp add: parseMulticlass_def Let_def 1 2 3 4)
qed

lemma parseDefm_advances:
  assumes "lexed tokens"
    and pe: "\<And>p. length tokens - p < n \<Longrightarrow> advancesFrom p (parseExpr p)"
    and en: "length tokens - Suc pos < n"
  shows "advancesFrom pos (parseDefm tokens parseExpr n pos)"
proof -
  obtain name p1 where 1: "parseOptionalName tokens (Suc pos) = Returns (name, p1)" and l1: "Suc pos \<le> p1"
    using parseOptionalName_returns [OF assms(1)] by (blast elim: returnsFromE)
  have "length tokens - p1 < n" using en l1 by linarith
  then obtain parents p2 where 2: "parseParentClasses tokens parseExpr n p1 = Returns (parents, p2)"
      and l2: "p1 \<le> p2"
    using parseParentClasses_returns [where parseExpr = parseExpr and n = n, OF assms(1) pe]
    by (blast elim: returnsFromE)
  have "pos < skipSemicolon tokens p2"
    using l1 l2 skipSemicolon_ge [of p2 tokens] by linarith
  then show ?thesis by (simp add: parseDefm_def Let_def 1 2)
qed

lemma defsetTypeLoop_returns:
  assumes "lexed tokens" and "length tokens - pos < k"
  shows "returnsFrom pos (defsetTypeLoop k tokens pos valueType bracketDepth)"
  using assms(2)
proof (induction k arbitrary: pos valueType bracketDepth)
  case 0
  then show ?case by simp
next
  case (Suc k)
  have step: "returnsFrom pos (defsetTypeLoop k tokens (Suc pos) vt d)" if "atToken tokens pos" for vt d
  proof -
    have "length tokens - Suc pos < k"
      using enough_after_token [OF assms(1) that Suc.prems, of "Suc pos"] by simp
    from Suc.IH [OF this] show ?thesis by (rule returnsFrom_mono) simp
  qed
  have adv: "advanceToken tokens pos = Returns (tokens ! pos, Suc pos)" if "atToken tokens pos"
    using advanceToken_atToken [OF assms(1) that] .
  have m: "match tokens pos ty v \<Longrightarrow> ty \<noteq> TEof \<Longrightarrow> atToken tokens pos" for ty v
    by (rule match_atToken)
  show ?case
    using step adv m [of TPunctuation] m [of TKeyword] m [of TIdentifier]
    by (auto simp del: returnsFrom_Returns simp add: returnsFrom_Returns [of pos])
qed


lemma parseDefsetName_returns:
  "lexed tokens \<Longrightarrow> returnsFrom pos (parseDefsetName tokens pos)"
  by (auto simp: parseDefsetName_def match_def parseIdentifier_peek)

lemma parseDefset_advances:
  assumes "lexed tokens"
    and ps: "\<And>p. length tokens - p < n \<Longrightarrow> atToken tokens p \<Longrightarrow> advancesFrom p (parseStmt p)"
    and en: "length tokens - Suc pos < n"
  shows "advancesFrom pos (parseDefset tokens parseStmt n pos)"
proof -
  obtain vt p1 where 1: "defsetTypeLoop n tokens (Suc pos) [] 0 = Returns (vt, p1)" and l1: "Suc pos \<le> p1"
    using defsetTypeLoop_returns [OF assms(1) en] by (blast elim: returnsFromE)
  obtain name p2 where 2: "parseDefsetName tokens p1 = Returns (name, p2)" and l2: "p1 \<le> p2"
    using parseDefsetName_returns [OF assms(1)] by (blast elim: returnsFromE)
  define p3 where "p3 = (if match tokens p2 TPunctuation (Some ''='') then snd (advance tokens p2) else p2)"
  have l3: "p2 \<le> p3" by (simp add: p3_def)
  have "length tokens - p3 < n" using en l1 l2 l3 by linarith
  then obtain body p4 where 4: "parseBody tokens parseStmt n p3 = Returns (body, p4)"
      and l4: "p3 \<le> p4"
    using parseBody_returns [where parseStmt = parseStmt and n = n, OF assms(1) ps]
    by (blast elim: returnsFromE)
  have "pos < p4" using l1 l2 l3 l4 by linarith
  then show ?thesis by (simp add: parseDefset_def Let_def 1 2 4 p3_def [symmetric])
qed

lemma parseDefvar_advances:
  assumes "lexed tokens"
    and pe: "\<And>p. length tokens - p < n \<Longrightarrow> advancesFrom p (parseExpr p)"
    and en: "length tokens - Suc pos < n" and tok: "atToken tokens pos"
  shows "advancesFrom pos (parseDefvar tokens parseExpr pos)"
proof -
  obtain name p1 where 1: "parseIdentifier tokens (Suc pos) = Returns (name, p1)" and l1: "Suc pos < p1"
    using parseIdentifier_after_token [OF assms(1) tok] by (blast elim: advancesFromE)
  define p2 where "p2 = (if match tokens p1 TPunctuation (Some ''='') then snd (advance tokens p1) else p1)"
  have l2: "p1 \<le> p2" by (simp add: p2_def)
  have "length tokens - p2 < n" using en l1 l2 by linarith
  from pe [OF this] obtain v p3 where 3: "parseExpr p2 = Returns (v, p3)" and l3: "p2 < p3"
    by (auto elim!: advancesFromE)
  have "pos < skipSemicolon tokens p3"
    using l1 l2 l3 skipSemicolon_ge [of p3 tokens] by linarith
  then show ?thesis by (simp add: parseDefvar_def Let_def 1 3 p2_def [symmetric])
qed

lemma parseBlockAfter_returns:
  assumes "lexed tokens"
    and ps: "\<And>p. length tokens - p < n \<Longrightarrow> atToken tokens p \<Longrightarrow> advancesFrom p (parseStmt p)"
    and psr: "\<And>p. length tokens - p < n \<Longrightarrow> returnsFrom p (parseStmt p)"
    and en: "length tokens - pos < n"
  shows "returnsFrom pos (parseBlockAfter tokens parseStmt n kw pos)"
proof (cases "match tokens pos TKeyword (Some kw)")
  case False
  then show ?thesis by (simp add: parseBlockAfter_def)
next
  case True
  have en1: "length tokens - Suc pos < n" using en by linarith
  show ?thesis
  proof (cases "match tokens (Suc pos) TPunctuation (Some ''{'')")
    case brace: True
    have "returnsFrom (Suc pos) (parseBody tokens parseStmt n (Suc pos))"
      using parseBody_returns [where parseStmt = parseStmt and n = n, OF assms(1) ps en1] .
    then have "returnsFrom pos (parseBody tokens parseStmt n (Suc pos))"
      by (rule returnsFrom_mono) simp
    then show ?thesis using True brace by (simp add: parseBlockAfter_def)
  next
    case False
    from psr [OF en1] obtain stmt p1 where 1: "parseStmt (Suc pos) = Returns (stmt, p1)"
        and "Suc pos \<le> p1"
      by (auto elim!: returnsFromE)
    then show ?thesis using True False by (simp add: parseBlockAfter_def)
  qed
qed

lemma letBindingsLoop_returns:
  assumes "lexed tokens"
    and pe: "\<And>p. length tokens - p < n \<Longrightarrow> advancesFrom p (parseExpr p)"
    and "length tokens - pos < k" and "length tokens - pos < n"
  shows "returnsFrom pos (letBindingsLoop k tokens parseExpr pos bindings)"
  using assms(3,4)
proof (induction k arbitrary: pos bindings)
  case 0
  then show ?case by simp
next
  case (Suc k)
  show ?case
  proof (cases "match tokens pos TIdentifier None")
    case False
    then show ?thesis by auto
  next
    case True
    then have tok: "atToken tokens pos" by (auto intro: match_atToken)
    then have t: "tk_type (peek tokens pos 0) \<noteq> TEof" by (simp add: atToken_def)
    note id = parseIdentifier_peek [OF assms(1) t]
    define p2 where "p2 = (if match tokens (Suc pos) TPunctuation (Some ''='')
                           then snd (advance tokens (Suc pos)) else Suc pos)"
    have l2: "Suc pos \<le> p2" by (simp add: p2_def)
    have "length tokens - p2 < n" using Suc.prems(2) l2 by linarith
    from pe [OF this] obtain v p3 where 3: "parseExpr p2 = Returns (v, p3)" and l3: "p2 < p3"
      by (auto elim!: advancesFromE)
    have en1: "length tokens - Suc p3 < k"
      using enough_after_token [OF assms(1) tok Suc.prems(1), of "Suc p3"] l2 l3 by simp
    have en2: "length tokens - Suc p3 < n"
      using Suc.prems(2) l2 l3 by linarith
    have "returnsFrom pos (letBindingsLoop k tokens parseExpr (Suc p3) bs)" for bs
      using returnsFrom_mono [OF Suc.IH [OF en1 en2, of bs], of pos] l2 l3 by simp
    then show ?thesis
      using True l2 l3 by (simp add: id Let_def p2_def [symmetric] 3)
  qed
qed

lemma parseLet_advances:
  assumes "lexed tokens"
    and pe: "\<And>p. length tokens - p < n \<Longrightarrow> advancesFrom p (parseExpr p)"
    and ps: "\<And>p. length tokens - p < n \<Longrightarrow> atToken tokens p \<Longrightarrow> advancesFrom p (parseStmt p)"
    and psr: "\<And>p. length tokens - p < n \<Longrightarrow> returnsFrom p (parseStmt p)"
    and en: "length tokens - Suc pos < n"
  shows "advancesFrom pos (parseLet tokens parseExpr parseStmt n pos)"
proof -
  obtain bs p1 where 1: "letBindingsLoop n tokens parseExpr (Suc pos) [] = Returns (bs, p1)"
      and l1: "Suc pos \<le> p1"
    using letBindingsLoop_returns [where parseExpr = parseExpr and n = n and k = n, OF assms(1) pe en en]
    by (blast elim: returnsFromE)
  have "length tokens - p1 < n" using en l1 by linarith
  then obtain body p2 where 2: "parseBlockAfter tokens parseStmt n ''in'' p1 = Returns (body, p2)"
      and l2: "p1 \<le> p2"
    using parseBlockAfter_returns [where parseStmt = parseStmt and n = n, OF assms(1) ps psr]
    by (blast elim: returnsFromE)
  have "pos < skipSemicolon tokens p2"
    using l1 l2 skipSemicolon_ge [of p2 tokens] by linarith
  then show ?thesis by (simp add: parseLet_def Let_def 1 2)
qed

lemma parseForeach_advances:
  assumes "lexed tokens"
    and pe: "\<And>p. length tokens - p < n \<Longrightarrow> advancesFrom p (parseExpr p)"
    and ps: "\<And>p. length tokens - p < n \<Longrightarrow> atToken tokens p \<Longrightarrow> advancesFrom p (parseStmt p)"
    and psr: "\<And>p. length tokens - p < n \<Longrightarrow> returnsFrom p (parseStmt p)"
    and en: "length tokens - Suc pos < n" and tok: "atToken tokens pos"
  shows "advancesFrom pos (parseForeach tokens parseExpr parseStmt n pos)"
proof -
  obtain name p1 where 1: "parseIdentifier tokens (Suc pos) = Returns (name, p1)" and l1: "Suc pos < p1"
    using parseIdentifier_after_token [OF assms(1) tok] by (blast elim: advancesFromE)
  define p2 where "p2 = (if match tokens p1 TPunctuation (Some ''='') then snd (advance tokens p1) else p1)"
  have l2: "p1 \<le> p2" by (simp add: p2_def)
  have "length tokens - p2 < n" using en l1 l2 by linarith
  from pe [OF this] obtain v p3 where 3: "parseExpr p2 = Returns (v, p3)" and l3: "p2 < p3"
    by (auto elim!: advancesFromE)
  have "length tokens - p3 < n" using en l1 l2 l3 by linarith
  then obtain body p4 where 4: "parseBlockAfter tokens parseStmt n ''in'' p3 = Returns (body, p4)"
      and l4: "p3 \<le> p4"
    using parseBlockAfter_returns [where parseStmt = parseStmt and n = n, OF assms(1) ps psr]
    by (blast elim: returnsFromE)
  have "pos < p4" using l1 l2 l3 l4 by linarith
  then show ?thesis by (simp add: parseForeach_def Let_def 1 3 4 p2_def [symmetric])
qed

lemma parseIf_advances:
  assumes "lexed tokens"
    and pe: "\<And>p. length tokens - p < n \<Longrightarrow> advancesFrom p (parseExpr p)"
    and ps: "\<And>p. length tokens - p < n \<Longrightarrow> atToken tokens p \<Longrightarrow> advancesFrom p (parseStmt p)"
    and psr: "\<And>p. length tokens - p < n \<Longrightarrow> returnsFrom p (parseStmt p)"
    and en: "length tokens - Suc pos < n"
  shows "advancesFrom pos (parseIf tokens parseExpr parseStmt n pos)"
proof -
  from pe [OF en] obtain c p1 where 1: "parseExpr (Suc pos) = Returns (c, p1)" and l1: "Suc pos < p1"
    by (auto elim!: advancesFromE)
  have "length tokens - p1 < n" using en l1 by linarith
  then obtain tb p2 where 2: "parseBlockAfter tokens parseStmt n ''then'' p1 = Returns (tb, p2)"
      and l2: "p1 \<le> p2"
    using parseBlockAfter_returns [where parseStmt = parseStmt and n = n, OF assms(1) ps psr]
    by (blast elim: returnsFromE)
  have "length tokens - p2 < n" using en l1 l2 by linarith
  then obtain eb p3 where 3: "parseBlockAfter tokens parseStmt n ''else'' p2 = Returns (eb, p3)"
      and l3: "p2 \<le> p3"
    using parseBlockAfter_returns [where parseStmt = parseStmt and n = n, OF assms(1) ps psr]
    by (blast elim: returnsFromE)
  have "pos < p3" using l1 l2 l3 by linarith
  then show ?thesis by (simp add: parseIf_def Let_def 1 2 3)
qed

lemma parseInclude_advances:
  "lexed tokens \<Longrightarrow> advancesFrom pos (parseInclude tokens pos)"
  by (auto simp: parseInclude_def Let_def match_def advanceToken_peek)

lemma parseAssert_advances:
  assumes "lexed tokens"
    and pe: "\<And>p. length tokens - p < n \<Longrightarrow> advancesFrom p (parseExpr p)"
    and en: "length tokens - Suc pos < n"
  shows "advancesFrom pos (parseAssert tokens parseExpr pos)"
proof -
  from pe [OF en] obtain c p1 where 1: "parseExpr (Suc pos) = Returns (c, p1)" and l1: "Suc pos < p1"
    by (auto elim!: advancesFromE)
  define p2 where "p2 = (if match tokens p1 TPunctuation (Some '','') then snd (advance tokens p1) else p1)"
  have l2: "p1 \<le> p2" by (simp add: p2_def)
  have "length tokens - p2 < n" using en l1 l2 by linarith
  from pe [OF this] obtain m p3 where 3: "parseExpr p2 = Returns (m, p3)" and l3: "p2 < p3"
    by (auto elim!: advancesFromE)
  have "pos < skipSemicolon tokens p3"
    using l1 l2 l3 skipSemicolon_ge [of p3 tokens] by linarith
  then show ?thesis by (simp add: parseAssert_def Let_def 1 3 p2_def [symmetric])
qed

text \<open>
  The loop over the type of a field stops inside the array, so that the name of the
  field is read from a token.
\<close>

lemma fieldTypeLoop_returns:
  assumes "lexed tokens" and "length tokens - Suc pos < k" and "pos < length tokens"
  shows "\<exists>fieldType p. fieldTypeLoop k tokens pos ft = Returns (fieldType, p)
            \<and> pos \<le> p \<and> p < length tokens"
  using assms(2,3)
proof (induction k arbitrary: pos ft)
  case 0
  then show ?case by simp
next
  case (Suc k)
  show ?case
  proof (cases "match tokens pos TKeyword None \<or> match tokens pos TIdentifier None
         \<or> match tokens pos TPunctuation (Some ''<'') \<or> match tokens pos TPunctuation (Some ''>'')
         \<or> match tokens pos TNumber None")
    case False
    then show ?thesis using Suc.prems by auto
  next
    case True
    then have tok: "atToken tokens pos" by (auto intro: match_atToken)
    have lt: "Suc pos < length tokens" using lexed_atToken [OF assms(1) tok] .
    have en: "length tokens - Suc (Suc pos) < k" using Suc.prems(1) lt by linarith
    from Suc.IH [OF en lt] have
      "\<exists>fieldType p. fieldTypeLoop k tokens (Suc pos) x = Returns (fieldType, p)
            \<and> pos \<le> p \<and> p < length tokens" for x
      by (meson Suc_leD)
    then show ?thesis
      using True Suc.prems(2) by (simp add: advanceToken_atToken [OF assms(1) tok])
  qed
qed

lemma parseFieldValue_returns:
  assumes "lexed tokens"
    and pe: "\<And>p. length tokens - p < n \<Longrightarrow> advancesFrom p (parseExpr p)"
    and "length tokens - pos < n"
  shows "returnsFrom pos (parseFieldValue tokens parseExpr pos)"
proof (cases "match tokens pos TPunctuation (Some ''='')")
  case False
  then show ?thesis by (simp add: parseFieldValue_def)
next
  case True
  have "length tokens - Suc pos < n" using assms(3) by linarith
  from pe [OF this] obtain v p1 where 1: "parseExpr (Suc pos) = Returns (v, p1)" and "Suc pos < p1"
    by (auto elim!: advancesFromE)
  then show ?thesis using True by (simp add: parseFieldValue_def)
qed

lemma parseField_advances:
  assumes "lexed tokens"
    and pe: "\<And>p. length tokens - p < n \<Longrightarrow> advancesFrom p (parseExpr p)"
    and en: "length tokens - Suc pos < n" and tok: "atToken tokens pos"
  shows "advancesFrom pos (parseField tokens parseExpr n pos)"
proof -
  define p1 where "p1 = (if match tokens pos TKeyword (Some ''field'') then snd (advance tokens pos) else pos)"
  have l1: "pos \<le> p1" by (simp add: p1_def)
  have b1: "p1 < length tokens" using lexed_atToken [OF assms(1) tok] by (simp add: p1_def)
  have e1: "length tokens - Suc p1 < n" using en by (auto simp: p1_def)
  obtain ft p2 where 2: "fieldTypeLoop n tokens p1 [] = Returns (ft, p2)" and l2: "p1 \<le> p2"
      and b2: "p2 < length tokens"
    using fieldTypeLoop_returns [OF assms(1) e1 b1] by blast
  have 3: "parseIdentifier tokens p2
      = Returns (\<lparr>id_name = tk_value (tokens ! p2), id_range = tk_range (tokens ! p2)\<rparr>, Suc p2)"
    by (simp add: parseIdentifier_def advanceToken_in_range [OF b2])
  have "length tokens - Suc p2 < n" using en l1 l2 by linarith
  then obtain v p4 where 4: "parseFieldValue tokens parseExpr (Suc p2) = Returns (v, p4)"
      and l4: "Suc p2 \<le> p4"
    using parseFieldValue_returns [where parseExpr = parseExpr and n = n, OF assms(1) pe]
    by (blast elim: returnsFromE)
  have "pos < skipSemicolon tokens p4"
    using l1 l2 l4 skipSemicolon_ge [of p4 tokens] by linarith
  then show ?thesis by (simp add: parseField_def Let_def p1_def [symmetric] 2 3 4)
qed

lemma parseKeywordStatement_advances:
  assumes "lexed tokens"
    and pe: "\<And>p. length tokens - p < n \<Longrightarrow> advancesFrom p (parseExpr p)"
    and ps: "\<And>p. length tokens - p < n \<Longrightarrow> atToken tokens p \<Longrightarrow> advancesFrom p (parseStmt p)"
    and psr: "\<And>p. length tokens - p < n \<Longrightarrow> returnsFrom p (parseStmt p)"
    and en: "length tokens - Suc pos < n" and tok: "atToken tokens pos"
    and "parseKeywordStatement tokens parseExpr parseStmt n kw pos = Some r"
  shows "advancesFrom pos r"
  using assms(7)
    parseClass_advances [where parseExpr = parseExpr and parseStmt = parseStmt and n = n, OF assms(1) pe ps en tok]
    parseDef_advances [where parseExpr = parseExpr and parseStmt = parseStmt and n = n, OF assms(1) pe ps en]
    parseMulticlass_advances [where parseExpr = parseExpr and parseStmt = parseStmt and n = n, OF assms(1) pe ps en tok]
    parseDefm_advances [where parseExpr = parseExpr and n = n, OF assms(1) pe en]
    parseDefset_advances [where parseStmt = parseStmt and n = n, OF assms(1) ps en]
    parseDefvar_advances [where parseExpr = parseExpr and n = n, OF assms(1) pe en tok]
    parseLet_advances [where parseExpr = parseExpr and parseStmt = parseStmt and n = n, OF assms(1) pe ps psr en]
    parseForeach_advances [where parseExpr = parseExpr and parseStmt = parseStmt and n = n, OF assms(1) pe ps psr en tok]
    parseIf_advances [where parseExpr = parseExpr and parseStmt = parseStmt and n = n, OF assms(1) pe ps psr en]
    parseInclude_advances [OF assms(1), of pos]
    parseAssert_advances [where parseExpr = parseExpr and n = n, OF assms(1) pe en]
    parseField_advances [where parseExpr = parseExpr and n = n, OF assms(1) pe en tok]
  unfolding parseKeywordStatement_def
  by (auto split: if_splits)

lemma someStatement_advances: "advancesFrom pos r \<Longrightarrow> advancesFrom pos (someStatement r)"
  by (auto simp: someStatement_def elim!: advancesFromE)

lemma parseStatementWith_advances:
  assumes "lexed tokens"
    and pe: "\<And>p. length tokens - p < n \<Longrightarrow> advancesFrom p (parseExpr p)"
    and ps: "\<And>p. length tokens - p < n \<Longrightarrow> atToken tokens p \<Longrightarrow> advancesFrom p (parseStmt p)"
    and psr: "\<And>p. length tokens - p < n \<Longrightarrow> returnsFrom p (parseStmt p)"
    and en: "length tokens - pos < Suc n" and tok: "atToken tokens pos"
  shows "advancesFrom pos (parseStatementWith tokens parseExpr parseStmt n pos)"
proof -
  have en1: "length tokens - Suc pos < n"
    using enough_after_token [OF assms(1) tok en, of "Suc pos"] by simp
  have t: "tk_type (peek tokens pos 0) \<noteq> TEof" using tok by (simp add: atToken_def)
  note kw = parseKeywordStatement_advances [where parseExpr = parseExpr and parseStmt = parseStmt and n = n,
      OF assms(1) pe ps psr en1 tok]
  note fld = parseField_advances [where parseExpr = parseExpr and n = n, OF assms(1) pe en1 tok]
  show ?thesis
    unfolding parseStatementWith_def Let_def
    using t kw fld by (auto split: option.splits intro!: someStatement_advances)
qed

lemma parseStatementWith_returns:
  assumes "lexed tokens"
    and pe: "\<And>p. length tokens - p < n \<Longrightarrow> advancesFrom p (parseExpr p)"
    and ps: "\<And>p. length tokens - p < n \<Longrightarrow> atToken tokens p \<Longrightarrow> advancesFrom p (parseStmt p)"
    and psr: "\<And>p. length tokens - p < n \<Longrightarrow> returnsFrom p (parseStmt p)"
    and en: "length tokens - pos < Suc n"
  shows "returnsFrom pos (parseStatementWith tokens parseExpr parseStmt n pos)"
proof (cases "atToken tokens pos")
  case True
  then show ?thesis
    using parseStatementWith_advances [where parseExpr = parseExpr and parseStmt = parseStmt and n = n,
        OF assms(1) pe ps psr en]
    by (simp add: advancesFrom_returnsFrom)
next
  case False
  then show ?thesis by (simp add: parseStatementWith_def atToken_def)
qed

lemma parseStatement_total:
  assumes "lexed tokens"
  shows "length tokens - pos < n \<Longrightarrow>
    returnsFrom pos (parseStatement tokens n pos)
    \<and> (atToken tokens pos \<longrightarrow> advancesFrom pos (parseStatement tokens n pos))"
proof (induction n arbitrary: pos)
  case 0
  then show ?case by simp
next
  case (Suc n)
  have pe: "\<And>p. length tokens - p < n \<Longrightarrow> advancesFrom p (parseExpression tokens n p)"
    using parseExpression_advances [OF assms] .
  have ps: "\<And>p. length tokens - p < n \<Longrightarrow> atToken tokens p \<Longrightarrow> advancesFrom p (parseStatement tokens n p)"
    using Suc.IH by blast
  have psr: "\<And>p. length tokens - p < n \<Longrightarrow> returnsFrom p (parseStatement tokens n p)"
    using Suc.IH by blast
  show ?case
    using parseStatementWith_returns [where parseExpr = "parseExpression tokens n"
        and parseStmt = "parseStatement tokens n" and n = n, OF assms pe ps psr Suc.prems]
      parseStatementWith_advances [where parseExpr = "parseExpression tokens n"
        and parseStmt = "parseStatement tokens n" and n = n, OF assms pe ps psr Suc.prems]
    by simp
qed

lemma parseLoop_returns:
  assumes "lexed tokens"
    and ps: "\<And>p. length tokens - p < n \<Longrightarrow> atToken tokens p \<Longrightarrow> advancesFrom p (parseStmt p)"
    and "length tokens - pos < k" and "length tokens - pos < n"
  shows "\<exists>statements1 incs1 p.
           parseLoop k tokens parseStmt pos statements incs = Returns (statements1, incs1, p)"
  using assms(3,4)
proof (induction k arbitrary: pos statements incs)
  case 0
  then show ?case by simp
next
  case (Suc k)
  show ?case
  proof (cases "\<not> match tokens pos TEof (Some [])")
    case False
    then show ?thesis by auto
  next
    case True
    then have tok: "atToken tokens pos" using assms(1) not_eof_atToken by blast
    from ps [OF Suc.prems(2) tok] obtain stmt p1 where r: "parseStmt pos = Returns (stmt, p1)"
        and lt: "pos < p1"
      by (auto elim!: advancesFromE)
    have en1: "length tokens - p1 < k"
      using enough_after_token [OF assms(1) tok Suc.prems(1) lt] .
    have en2: "length tokens - p1 < n"
      using enough_mono [OF Suc.prems(2), of p1] lt by simp
    show ?thesis
      using True r Suc.IH [OF en1 en2] by (auto split: option.splits)
  qed
qed

lemma parse_returns:
  assumes "lexed tokens" and "length tokens < n"
  shows "\<exists>statements incs.
           parse n tokens uri = Returns \<lparr>pf_uri = uri, pf_statements = statements,
                                         pf_includes = incs, pf_errors = []\<rparr>"
proof -
  have ne: "tokens \<noteq> []" using assms(1) by (simp add: lexed_def)
  have ps: "\<And>p. length tokens - p < n \<Longrightarrow> atToken tokens p \<Longrightarrow> advancesFrom p (parseStatement tokens n p)"
    using parseStatement_total [OF assms(1)] by blast
  have en: "length tokens - 0 < n" using assms(2) by simp
  obtain ss incs p where "parseLoop n tokens (parseStatement tokens n) 0 [] [] = Returns (ss, incs, p)"
    using parseLoop_returns [where parseStmt = "parseStatement tokens n" and n = n and k = n,
        OF assms(1) ps en en]
    by blast
  then show ?thesis using ne by (simp add: parse_def)
qed



section \<open>The lexer returns\<close>

lemma lx_pos_lexAdvance [simp]: "lx_pos (snd (lexAdvance text lx)) = Suc (lx_pos lx)"
  by (simp add: lexAdvance_def Let_def)

lemma lx_pos_appendAdvance [simp]: "lx_pos (snd (appendAdvance text v lx)) = Suc (lx_pos lx)"
  by (simp add: appendAdvance_def)

lemma lexPeek_Some_in_text: "lexPeek text lx 0 = Some c \<Longrightarrow> lx_pos lx < length text"
  by (simp add: lexPeek_def split: if_splits)

lemma lineCommentLoop_returns:
  assumes "length text - lx_pos lx < k"
  shows "\<exists>lx1. lineCommentLoop k text lx = Returns lx1 \<and> lx_pos lx \<le> lx_pos lx1"
  using assms
proof (induction k arbitrary: lx)
  case 0
  then show ?case by simp
next
  case (Suc k)
  show ?case
  proof (cases "lx_pos lx < length text \<and> lexPeek text lx 0 \<noteq> Some (CHR 0x0A)")
    case False
    then show ?thesis by auto
  next
    case True
    then have "length text - Suc (lx_pos lx) < k" using Suc.prems by linarith
    then have "length text - lx_pos (snd (lexAdvance text lx)) < k" by simp
    from Suc.IH [OF this] show ?thesis using True by auto
  qed
qed

lemma blockCommentLoop_returns:
  assumes "length text - lx_pos lx < k"
  shows "\<exists>lx1. blockCommentLoop k text lx = Returns lx1 \<and> lx_pos lx \<le> lx_pos lx1"
  using assms
proof (induction k arbitrary: lx)
  case 0
  then show ?case by simp
next
  case (Suc k)
  show ?case
  proof (cases "lx_pos lx < length text")
    case False
    then show ?thesis by auto
  next
    case True
    then have "length text - Suc (lx_pos lx) < k" using Suc.prems by linarith
    then have "length text - lx_pos (snd (lexAdvance text lx)) < k" by simp
    from Suc.IH [OF this] show ?thesis using True by auto
  qed
qed

lemma skipWhitespace_returns:
  assumes "length text - lx_pos lx < k"
  shows "\<exists>lx1. skipWhitespace k text lx = Returns lx1 \<and> lx_pos lx \<le> lx_pos lx1"
  using assms
proof (induction k arbitrary: lx)
  case 0
  then show ?case by simp
next
  case (Suc k)
  show ?case
  proof (cases "lx_pos lx < length text")
    case False
    then show ?thesis by auto
  next
    case True
    have en: "length text - Suc (lx_pos lx) < k" using True Suc.prems by linarith
    have next1: "\<exists>lx1. skipWhitespace k text lx' = Returns lx1 \<and> lx_pos lx \<le> lx_pos lx1"
      if "lx_pos lx < lx_pos lx'" for lx'
    proof -
      have "length text - lx_pos lx' < k" using en that by linarith
      from Suc.IH [OF this] show ?thesis using that by (meson le_trans less_imp_le)
    qed
    have ws: "\<exists>lx1. skipWhitespace k text (snd (lexAdvance text lx)) = Returns lx1
                \<and> lx_pos lx \<le> lx_pos lx1"
      by (rule next1) simp
    have line: "\<exists>lx1. (case lineCommentLoop (Suc k) text lx of
                       OutOfFuel \<Rightarrow> OutOfFuel
                     | Throws \<Rightarrow> Throws
                     | Returns lx1 \<Rightarrow> skipWhitespace k text lx1) = Returns lx1
                \<and> lx_pos lx \<le> lx_pos lx1"
      if "lexPeek text lx 0 = Some CHR ''/''"
    proof -
      have "length text - lx_pos (snd (lexAdvance text lx)) < k" using en by simp
      from lineCommentLoop_returns [OF this] obtain lx' where
        1: "lineCommentLoop k text (snd (lexAdvance text lx)) = Returns lx'"
        and "Suc (lx_pos lx) \<le> lx_pos lx'" by auto
      then show ?thesis using next1 [of lx'] True that by simp
    qed
    have block: "\<exists>lx1. (case blockCommentLoop (Suc k) text
                            (snd (lexAdvance text (snd (lexAdvance text lx)))) of
                       OutOfFuel \<Rightarrow> OutOfFuel
                     | Throws \<Rightarrow> Throws
                     | Returns lx1 \<Rightarrow> skipWhitespace k text lx1) = Returns lx1
                \<and> lx_pos lx \<le> lx_pos lx1"
    proof -
      have "length text - lx_pos (snd (lexAdvance text (snd (lexAdvance text lx)))) < Suc k"
        using en by simp
      from blockCommentLoop_returns [OF this] obtain lx' where
        1: "blockCommentLoop (Suc k) text (snd (lexAdvance text (snd (lexAdvance text lx)))) = Returns lx'"
        and "Suc (Suc (lx_pos lx)) \<le> lx_pos lx'" by auto
      then show ?thesis using next1 [of lx'] by simp
    qed
    show ?thesis
      unfolding skipWhitespace.simps Let_def using True ws line block by auto
  qed
qed

lemma stringLoop_returns:
  assumes "length text - lx_pos lx < k"
  shows "\<exists>v1 lx1. stringLoop k text v lx = Returns (v1, lx1) \<and> lx_pos lx \<le> lx_pos lx1"
  using assms
proof (induction k arbitrary: lx v)
  case 0
  then show ?case by simp
next
  case (Suc k)
  show ?case
  proof (cases "lx_pos lx < length text \<and> lexPeek text lx 0 \<noteq> Some (CHR 0x22)")
    case False
    then show ?thesis by auto
  next
    case True
    have next1: "\<exists>v1 lx1. stringLoop k text v' lx' = Returns (v1, lx1) \<and> lx_pos lx \<le> lx_pos lx1"
      if "lx_pos lx < lx_pos lx'" for lx' v'
    proof -
      have "length text - lx_pos lx' < k" using True Suc.prems that by linarith
      from Suc.IH [OF this] show ?thesis using that by (meson le_trans less_imp_le)
    qed
    show ?thesis
      using True next1 by simp
  qed
qed

lemma readString_advances:
  assumes "length text - lx_pos lx < n"
  shows "\<exists>v lx1. readString n text lx = Returns (tokenFrom TString v (currentPos lx) lx1, lx1)
            \<and> lx_pos lx < lx_pos lx1"
proof -
  have "length text - lx_pos (snd (lexAdvance text lx)) < n" using assms by simp
  from stringLoop_returns [OF this, of "[]"] show ?thesis
    by (auto simp: readString_def Let_def)
qed

lemma codeLoop_returns:
  assumes "length text - lx_pos lx < k"
  shows "\<exists>v1 lx1. codeLoop k text v lx = Returns (v1, lx1) \<and> lx_pos lx \<le> lx_pos lx1"
  using assms
proof (induction k arbitrary: lx v)
  case 0
  then show ?case by simp
next
  case (Suc k)
  show ?case
  proof (cases "lx_pos lx < length text")
    case False
    then show ?thesis by auto
  next
    case True
    have "length text - Suc (lx_pos lx) < k" using True Suc.prems by linarith
    then have en: "length text - lx_pos (snd (appendAdvance text v lx)) < k" by simp
    have en2: "length text - lx_pos (snd (lexAdvance text (snd (lexAdvance text lx)))) < k"
      using True Suc.prems by simp
    from Suc.IH [of "snd (appendAdvance text v lx)" "fst (appendAdvance text v lx)", OF en]
    show ?thesis using True by auto
  qed
qed

lemma readCode_advances:
  assumes "length text - lx_pos lx < n"
  shows "\<exists>v lx1. readCode n text lx = Returns (tokenFrom TCode v (currentPos lx) lx1, lx1)
            \<and> lx_pos lx < lx_pos lx1"
proof -
  have "length text - lx_pos (snd (lexAdvance text (snd (lexAdvance text lx)))) < n"
    using assms by simp
  from codeLoop_returns [OF this, of "[]"] show ?thesis
    by (auto simp: readCode_def Let_def)
qed

lemma whileClass_returns:
  assumes "\<not> cls None" and "length text - lx_pos lx < k"
  shows "\<exists>v1 lx1. whileClass k cls text v lx = Returns (v1, lx1) \<and> lx_pos lx \<le> lx_pos lx1
            \<and> (cls (lexPeek text lx 0) \<longrightarrow> lx_pos lx < lx_pos lx1)"
  using assms(2)
proof (induction k arbitrary: lx v)
  case 0
  then show ?case by simp
next
  case (Suc k)
  show ?case
  proof (cases "cls (lexPeek text lx 0)")
    case False
    then show ?thesis by auto
  next
    case True
    then have "lx_pos lx < length text" using assms(1) by (auto simp: lexPeek_def split: if_splits)
    then have "length text - Suc (lx_pos lx) < k" using Suc.prems by linarith
    then have en: "length text - lx_pos (snd (appendAdvance text v lx)) < k" by simp
    from Suc.IH [of "snd (appendAdvance text v lx)" "fst (appendAdvance text v lx)", OF en]
    show ?thesis using True by auto
  qed
qed

lemma not_class_None [simp]:
  "\<not> isDigit None" "\<not> isHexDigit None" "\<not> isBinaryDigit None" "\<not> isLetter None"
  "\<not> isIdentifierPart None" "\<not> isIdentifierStart None"
  by (simp_all add: isDigit_def isHexDigit_def isBinaryDigit_def isLetter_def isIdentifierPart_def
      isIdentifierStart_def)

lemma readNumber_advances:
  assumes "length text - lx_pos lx < n"
    and "isDigit (lexPeek text lx 0) \<or> lexPeek text lx 0 = Some CHR ''-''"
  shows "\<exists>v lx1. readNumber n text lx = Returns (tokenFrom TNumber v (currentPos lx) lx1, lx1)
            \<and> lx_pos lx < lx_pos lx1"
proof -
  define signed where "signed = (if lexPeek text lx 0 = Some CHR ''-'' then appendAdvance text [] lx else ([], lx))"
  define v1 where "v1 = fst signed"
  define lx1 where "lx1 = snd signed"
  define two where "two = appendAdvance text (fst (appendAdvance text v1 lx1)) (snd (appendAdvance text v1 lx1))"
  have le1: "lx_pos lx \<le> lx_pos lx1" by (simp add: lx1_def signed_def)
  have strict: "lexPeek text lx 0 \<noteq> Some CHR ''-'' \<Longrightarrow> lx1 = lx \<and> isDigit (lexPeek text lx1 0)"
    using assms(2) by (auto simp: lx1_def signed_def)
  have minus: "lexPeek text lx 0 = Some CHR ''-'' \<Longrightarrow> lx_pos lx < lx_pos lx1"
    by (simp add: lx1_def signed_def)
  have two_pos: "lx_pos (snd two) = Suc (Suc (lx_pos lx1))" by (simp add: two_def)
  have en1: "length text - lx_pos lx1 < n" using assms(1) le1 by linarith
  have en2: "length text - lx_pos (snd two) < n" using en1 two_pos by linarith
  obtain a la where a: "whileClass n isHexDigit text (fst two) (snd two) = Returns (a, la)"
      and la: "lx_pos (snd two) \<le> lx_pos la"
    using whileClass_returns [where cls = isHexDigit and v = "fst two", OF _ en2] by auto
  obtain b lb where b: "whileClass n isBinaryDigit text (fst two) (snd two) = Returns (b, lb)"
      and lb: "lx_pos (snd two) \<le> lx_pos lb"
    using whileClass_returns [where cls = isBinaryDigit and v = "fst two", OF _ en2] by auto
  obtain c lc where c: "whileClass n isDigit text v1 lx1 = Returns (c, lc)"
      and lc: "lx_pos lx1 \<le> lx_pos lc"
      and lc': "isDigit (lexPeek text lx1 0) \<longrightarrow> lx_pos lx1 < lx_pos lc"
    using whileClass_returns [where cls = isDigit and v = v1, OF _ en1] by auto
  have "lx_pos lx < lx_pos la" using la two_pos le1 by linarith
  moreover have "lx_pos lx < lx_pos lb" using lb two_pos le1 by linarith
  moreover have "lx_pos lx < lx_pos lc" using lc lc' strict minus by (cases "lexPeek text lx 0 = Some CHR ''-''") auto
  ultimately show ?thesis
    unfolding readNumber_def Let_def signed_def [symmetric] v1_def [symmetric] lx1_def [symmetric]
      two_def [symmetric]
    using a b c by auto
qed

lemma readIdentifier_advances:
  assumes "length text - lx_pos lx < n" and "isIdentifierStart (lexPeek text lx 0)"
  shows "\<exists>ty v lx1. readIdentifier n text lx = Returns (tokenFrom ty v (currentPos lx) lx1, lx1)
            \<and> ty \<noteq> TEof \<and> lx_pos lx < lx_pos lx1"
proof -
  have "isIdentifierPart (lexPeek text lx 0)"
    using assms(2) by (auto simp: isIdentifierStart_def isIdentifierPart_def)
  then obtain v lx1 where "whileClass n isIdentifierPart text [] lx = Returns (v, lx1)"
      and "lx_pos lx < lx_pos lx1"
    using whileClass_returns [where cls = isIdentifierPart and v = "[]", OF _ assms(1)] by auto
  then show ?thesis by (auto simp: readIdentifier_def Let_def)
qed

lemma tokenFrom_simps [simp]:
  "tk_type (tokenFrom ty v start lx) = ty" "tk_value (tokenFrom ty v start lx) = v"
  by (simp_all add: tokenFrom_def)

lemma nextToken_returns:
  assumes "length text - lx_pos lx < k"
  shows "\<exists>token lx1. nextToken k text lx = Returns (token, lx1)
            \<and> (if tk_type token = TEof then tk_value token = []
                else lx_pos lx < lx_pos lx1 \<and> lx_pos lx < length text)"
  using assms
proof (induction k arbitrary: lx)
  case 0
  then show ?case by simp
next
  case (Suc k)
  obtain lx0 where sw: "skipWhitespace (Suc k) text lx = Returns lx0" and le0: "lx_pos lx \<le> lx_pos lx0"
    using skipWhitespace_returns [OF Suc.prems] by auto
  show ?case
  proof (cases "length text \<le> lx_pos lx0")
    case True
    then show ?thesis using sw by simp
  next
    case False
    then have in0: "lx_pos lx < length text" using le0 by linarith
    define good where "good r \<longleftrightarrow> (\<exists>token lx1. r = Returns (token, lx1)
            \<and> (if tk_type token = TEof then tk_value token = []
                else lx_pos lx < lx_pos lx1 \<and> lx_pos lx < length text))"
      for r :: "(Token \<times> Lexer) outcome"
    have goodI: "good (Returns (tokenFrom ty v st l, l))" if "ty \<noteq> TEof" "lx_pos lx0 < lx_pos l"
      for ty v st l
      using that le0 in0 by (simp add: good_def)
    have en0: "length text - lx_pos lx0 < Suc k" using Suc.prems le0 by linarith
    have en1: "length text - lx_pos (snd (lexAdvance text lx0)) < Suc k" using en0 by simp
    have "length text - Suc (lx_pos lx0) < k" using en0 False by linarith
    then have enk: "length text - lx_pos (snd (lexAdvance text lx0)) < k" by simp
    have b1: "good (readString (Suc k) text lx0)"
      using readString_advances [OF en0] by (auto intro!: goodI)
    have b2: "good (readCode (Suc k) text lx0)"
      using readCode_advances [OF en0] by (auto intro!: goodI)
    have b3: "good (readNumber (Suc k) text lx0)"
      if "isDigit (lexPeek text lx0 0)
          \<or> lexPeek text lx0 0 = Some CHR ''-'' \<and> isDigit (lexPeek text lx0 1)"
    proof -
      from that have "isDigit (lexPeek text lx0 0) \<or> lexPeek text lx0 0 = Some CHR ''-''" by blast
      from readNumber_advances [OF en0 this] show ?thesis by (auto intro!: goodI)
    qed
    have b4: "good (readIdentifier (Suc k) text lx0)" if "isIdentifierStart (lexPeek text lx0 0)"
      using readIdentifier_advances [OF en0 that] by (auto intro!: goodI)
    have b5: "good (andThen (whileClass (Suc k) isLetter text [] (snd (lexAdvance text lx0)))
                       (\<lambda>(op, lx1). Returns (tokenFrom TOperator (''!'' @ op) (currentPos lx0) lx1, lx1)))"
    proof -
      obtain op lo where op: "whileClass (Suc k) isLetter text [] (snd (lexAdvance text lx0)) = Returns (op, lo)"
        and lo: "lx_pos (snd (lexAdvance text lx0)) \<le> lx_pos lo"
        using whileClass_returns [where cls = isLetter and v = "[]", OF _ en1] by auto
      show ?thesis unfolding op using lo by (auto intro!: goodI)
    qed
    have b6: "good (Returns (tokenFrom TOperator ''#'' (currentPos lx0) (snd (lexAdvance text lx0)),
                              snd (lexAdvance text lx0)))"
      by (rule goodI) simp_all
    have b7: "good (Returns (tokenFrom TPunctuation [c] (currentPos lx0) (snd (lexAdvance text lx0)),
                              snd (lexAdvance text lx0)))" for c
      by (rule goodI) simp_all
    have b8: "good (nextToken k text (snd (lexAdvance text lx0)))"
    proof -
      obtain t lt where t: "nextToken k text (snd (lexAdvance text lx0)) = Returns (t, lt)"
        and lt: "if tk_type t = TEof then tk_value t = []
                else lx_pos (snd (lexAdvance text lx0)) < lx_pos lt"
        using Suc.IH [OF enk] by (auto split: if_splits)
      show ?thesis unfolding t good_def using lt le0 in0 by (auto split: if_splits)
    qed
    have "good (nextToken (Suc k) text lx)"
      unfolding nextToken.simps sw
      using False b1 b2 b3 b4 b5 b6 b7 b8 by (simp add: Let_def)
    then show ?thesis by (simp add: good_def)
  qed
qed

lemma tokenizeLoop_returns:
  assumes "length text - lx_pos lx < k" and "length text - lx_pos lx < n"
  shows "\<exists>ts. tokenizeLoop k n text lx tokens = Returns (tokens @ ts)
            \<and> ts \<noteq> [] \<and> tk_type (last ts) = TEof
            \<and> list_all (\<lambda>token. tk_type token \<noteq> TEof \<or> tk_value token = []) ts
            \<and> length ts \<le> Suc (length text - lx_pos lx)"
  using assms
proof (induction k arbitrary: lx tokens)
  case 0
  then show ?case by simp
next
  case (Suc k)
  obtain token lx1 where nt: "nextToken n text lx = Returns (token, lx1)"
      and cond: "if tk_type token = TEof then tk_value token = []
                else lx_pos lx < lx_pos lx1 \<and> lx_pos lx < length text"
    using nextToken_returns [OF Suc.prems(2)] by blast
  show ?case
  proof (cases "tk_type token = TEof")
    case True
    then show ?thesis using nt cond by simp
  next
    case False
    then have lt: "lx_pos lx < lx_pos lx1" and inside: "lx_pos lx < length text"
      using cond by simp_all
    have en1: "length text - lx_pos lx1 < k" using Suc.prems(1) lt inside by linarith
    have en2: "length text - lx_pos lx1 < n" using Suc.prems(2) lt by linarith
    from Suc.IH [OF en1 en2, of "tokens @ [token]"] obtain ts where
      r: "tokenizeLoop k n text lx1 (tokens @ [token]) = Returns ((tokens @ [token]) @ ts)"
      and ne: "ts \<noteq> []" and l: "tk_type (last ts) = TEof"
      and a: "list_all (\<lambda>token. tk_type token \<noteq> TEof \<or> tk_value token = []) ts"
      and len: "length ts \<le> Suc (length text - lx_pos lx1)"
      by blast
    have "length (token # ts) \<le> Suc (length text - lx_pos lx)"
      using len lt inside by simp
    then show ?thesis
      using nt False r ne l a by (intro exI [of _ "token # ts"]) simp
  qed
qed

lemma tokenize_lexed:
  assumes "length text < n"
  shows "\<exists>tokens. tokenize n text = Returns tokens \<and> lexed tokens
            \<and> length tokens \<le> Suc (length text)"
  using tokenizeLoop_returns [of "text" "\<lparr>lx_pos = 0, lx_line = 0, lx_character = 0\<rparr>" n n "[]"] assms
  by (auto simp: tokenize_def lexed_def)

lemma parseTableGen_returns:
  assumes "Suc (length text) < n"
  shows "\<exists>statements incs.
           parseTableGen n text uri = Returns \<lparr>pf_uri = uri, pf_statements = statements,
                                                pf_includes = incs, pf_errors = []\<rparr>"
proof -
  obtain tokens where t: "tokenize n text = Returns tokens" and l: "lexed tokens"
      and len: "length tokens \<le> Suc (length text)"
    using tokenize_lexed [of "text" n] assms by auto
  have "length tokens < n" using len assms by linarith
  from parse_returns [OF l this, of uri] show ?thesis
    by (simp add: parseTableGen_def t)
qed


section \<open>The claims on the parser\<close>

lemma parse_empty_throws: "parse n [] uri = Throws"
  by (simp add: parse_def)

text \<open>
  Without the final \<open>eof\<close> token the loop of \<open>parse\<close> does not end: beyond the end
  \<open>peek\<close> keeps returning the last token, here \<open>;\<close>, which \<open>parseStatement\<close> skips.
\<close>

lemma parseLoop_without_eof:
  "parseLoop k loneSemicolon (parseStatement loneSemicolon n) pos statements incs = OutOfFuel"
proof (induction k arbitrary: pos)
  case 0
  then show ?case by simp
next
  case (Suc k)
  show ?case
  proof (cases n)
    case 0
    then show ?thesis by (simp add: match_def peek_def tokenAt_def loneSemicolon_def)
  next
    case (Suc m)
    have "parseStatement loneSemicolon (Suc m) pos = Returns (None, Suc pos)"
      by (simp add: match_def peek_def tokenAt_def parseStatementWith_def loneSemicolon_def)
    moreover have "\<not> match loneSemicolon pos TEof (Some [])"
      by (simp add: match_def peek_def tokenAt_def loneSemicolon_def)
    ultimately show ?thesis using Suc.IH Suc by simp
  qed
qed

lemma parse_without_eof_does_not_return: "parse n loneSemicolon uri = OutOfFuel"
proof -
  have "loneSemicolon \<noteq> []" by (simp add: loneSemicolon_def)
  then show ?thesis by (simp add: parse_def parseLoop_without_eof)
qed

text \<open>
  C7. The parser marks a class as a forward declaration if and only if it has no
  body, no template arguments and no parent classes. On the tokens of the lexer,
  with fuel beyond their number and the keyword \<open>class\<close> under the cursor,
  \<open>parseStatement\<close> returns a \<open>ClassDef\<close> with the template arguments and the
  parents that \<open>parseTemplateArgs\<close> and \<open>parseParentClasses\<close> read after the name;
  its flag is true exactly if these two lists are empty and no \<open>{\<close> follows them,
  and then the body is empty. \<open>class Foo;\<close> is a forward declaration;
  \<open>class Foo<int N> ;\<close>, \<open>class Foo : Bar;\<close> and \<open>class Foo {}\<close> are not.
\<close>

theorem parseClass_forward_declaration_iff:
  assumes "lexed tokens" and "length tokens < n"
    and "match tokens pos TKeyword (Some ''class'')"
  shows "(\<exists>name templateArgs p2 parentClasses p3 body isForwardDeclaration r p4.
            parseTemplateArgs tokens (parseExpression tokens n) n (Suc (Suc pos))
              = Returns (templateArgs, p2)
          \<and> parseParentClasses tokens (parseExpression tokens n) n p2 = Returns (parentClasses, p3)
          \<and> parseStatement tokens (Suc n) pos
              = Returns (Some (ClassDef name templateArgs parentClasses body isForwardDeclaration r), p4)
          \<and> isForwardDeclaration
              = (\<not> match tokens p3 TPunctuation (Some ''{'') \<and> templateArgs = [] \<and> parentClasses = [])
          \<and> (isForwardDeclaration \<longrightarrow> body = []))
       \<and> parseTableGen 20 ''class Foo;'' uri
           = Returns \<lparr>pf_uri = uri,
               pf_statements = [ClassDef (identAt ''Foo'' 6 9) [] [] [] True (rangeAt 0 10)],
               pf_includes = [], pf_errors = []\<rparr>
       \<and> parseTableGen 30 ''class Foo<int N> ;'' uri
           = Returns \<lparr>pf_uri = uri,
               pf_statements = [ClassDef (identAt ''Foo'' 6 9)
                  [\<lparr>ta_argType = ''int'', ta_name = identAt ''N'' 14 15, ta_defaultValue = None,
                    ta_range = rangeAt 10 15\<rparr>] [] [] False (rangeAt 0 18)],
               pf_includes = [], pf_errors = []\<rparr>
       \<and> parseTableGen 30 ''class Foo : Bar;'' uri
           = Returns \<lparr>pf_uri = uri,
               pf_statements = [ClassDef (identAt ''Foo'' 6 9) []
                  [\<lparr>cr_name = identAt ''Bar'' 12 15, cr_args = [], cr_range = rangeAt 12 15\<rparr>] []
                  False (rangeAt 0 16)],
               pf_includes = [], pf_errors = []\<rparr>
       \<and> parseTableGen 20 ''class Foo {}'' uri
           = Returns \<lparr>pf_uri = uri,
               pf_statements = [ClassDef (identAt ''Foo'' 6 9) [] [] [] False (rangeAt 0 12)],
               pf_includes = [], pf_errors = []\<rparr>"
proof (intro conjI)
  have tok: "atToken tokens pos" using assms(3) by (auto intro: match_atToken)
  have ty: "tk_type (peek tokens pos 0) = TKeyword" and val: "tk_value (peek tokens pos 0) = ''class''"
    using assms(3) by (simp_all add: match_def Let_def)
  have en: "length tokens - p < n" for p using assms(2) by linarith
  have pe: "\<And>p. length tokens - p < n \<Longrightarrow> advancesFrom p (parseExpression tokens n p)"
    using parseExpression_advances [OF assms(1)] .
  have ps: "\<And>p. length tokens - p < n \<Longrightarrow> atToken tokens p \<Longrightarrow> advancesFrom p (parseStatement tokens n p)"
    using parseStatement_total [OF assms(1)] by blast
  have 1: "parseIdentifier tokens (Suc pos)
      = Returns (\<lparr>id_name = tk_value (tokens ! Suc pos), id_range = tk_range (tokens ! Suc pos)\<rparr>,
                 Suc (Suc pos))"
    by (simp add: parseIdentifier_def advanceToken_after_token [OF assms(1) tok])
  obtain targs p2 where 2: "parseTemplateArgs tokens (parseExpression tokens n) n (Suc (Suc pos))
      = Returns (targs, p2)"
    using parseTemplateArgs_returns [where parseExpr = "parseExpression tokens n" and n = n,
        OF assms(1) pe en]
    by (blast elim: returnsFromE)
  obtain parents p3 where 3: "parseParentClasses tokens (parseExpression tokens n) n p2
      = Returns (parents, p3)"
    using parseParentClasses_returns [where parseExpr = "parseExpression tokens n" and n = n,
        OF assms(1) pe en]
    by (blast elim: returnsFromE)
  obtain body p4 where 4: "parseBody tokens (parseStatement tokens n) n p3 = Returns (body, p4)"
    using parseBody_returns [where parseStmt = "parseStatement tokens n" and n = n,
        OF assms(1) ps en]
    by (blast elim: returnsFromE)
  have b: "\<not> match tokens p3 TPunctuation (Some ''{'') \<Longrightarrow> body = []"
    using 4 by (simp add: parseBody_def)
  have "parseStatement tokens (Suc n) pos
      = Returns (Some (ClassDef \<lparr>id_name = tk_value (tokens ! Suc pos), id_range = tk_range (tokens ! Suc pos)\<rparr>
            targs parents body
            (\<not> match tokens p3 TPunctuation (Some ''{'') \<and> targs = [] \<and> parents = [])
            (rangeFrom tokens (range_start (tk_range (peek tokens pos 0))) (skipSemicolon tokens p4))),
          skipSemicolon tokens p4)"
    by (simp add: parseStatementWith_def ty val parseKeywordStatement_def someStatement_def
        parseClass_def Let_def 1 2 3 4)
  then show "\<exists>name templateArgs p2 parentClasses p3 body isForwardDeclaration r p4.
            parseTemplateArgs tokens (parseExpression tokens n) n (Suc (Suc pos))
              = Returns (templateArgs, p2)
          \<and> parseParentClasses tokens (parseExpression tokens n) n p2 = Returns (parentClasses, p3)
          \<and> parseStatement tokens (Suc n) pos
              = Returns (Some (ClassDef name templateArgs parentClasses body isForwardDeclaration r), p4)
          \<and> isForwardDeclaration
              = (\<not> match tokens p3 TPunctuation (Some ''{'') \<and> templateArgs = [] \<and> parentClasses = [])
          \<and> (isForwardDeclaration \<longrightarrow> body = [])"
    using 2 3 b by blast
next
  show "parseTableGen 20 ''class Foo;'' uri
           = Returns \<lparr>pf_uri = uri,
               pf_statements = [ClassDef (identAt ''Foo'' 6 9) [] [] [] True (rangeAt 0 10)],
               pf_includes = [], pf_errors = []\<rparr>"
    by code_simp
next
  show "parseTableGen 30 ''class Foo<int N> ;'' uri
           = Returns \<lparr>pf_uri = uri,
               pf_statements = [ClassDef (identAt ''Foo'' 6 9)
                  [\<lparr>ta_argType = ''int'', ta_name = identAt ''N'' 14 15, ta_defaultValue = None,
                    ta_range = rangeAt 10 15\<rparr>] [] [] False (rangeAt 0 18)],
               pf_includes = [], pf_errors = []\<rparr>"
    by code_simp
next
  show "parseTableGen 30 ''class Foo : Bar;'' uri
           = Returns \<lparr>pf_uri = uri,
               pf_statements = [ClassDef (identAt ''Foo'' 6 9) []
                  [\<lparr>cr_name = identAt ''Bar'' 12 15, cr_args = [], cr_range = rangeAt 12 15\<rparr>] []
                  False (rangeAt 0 16)],
               pf_includes = [], pf_errors = []\<rparr>"
    by code_simp
next
  show "parseTableGen 20 ''class Foo {}'' uri
           = Returns \<lparr>pf_uri = uri,
               pf_statements = [ClassDef (identAt ''Foo'' 6 9) [] [] [] False (rangeAt 0 12)],
               pf_includes = [], pf_errors = []\<rparr>"
    by code_simp
qed

theorem parseClass_forward_declaration_iff_witness:
  "lexed classFooTokens \<and> length classFooTokens < 5
   \<and> match classFooTokens 0 TKeyword (Some ''class'')
   \<and> (\<exists>name templateArgs p2 parentClasses p3 body isForwardDeclaration r p4.
            parseTemplateArgs classFooTokens (parseExpression classFooTokens 5) 5 (Suc (Suc 0))
              = Returns (templateArgs, p2)
          \<and> parseParentClasses classFooTokens (parseExpression classFooTokens 5) 5 p2
              = Returns (parentClasses, p3)
          \<and> parseStatement classFooTokens (Suc 5) 0
              = Returns (Some (ClassDef name templateArgs parentClasses body isForwardDeclaration r), p4)
          \<and> isForwardDeclaration
              = (\<not> match classFooTokens p3 TPunctuation (Some ''{'') \<and> templateArgs = []
                 \<and> parentClasses = [])
          \<and> (isForwardDeclaration \<longrightarrow> body = []))"
proof -
  have h: "lexed classFooTokens" "length classFooTokens < 5"
    "match classFooTokens 0 TKeyword (Some ''class'')"
    by (simp_all add: lexed_def classFooTokens_def tokenAt_def match_def peek_def)
  from parseClass_forward_declaration_iff [OF h, of "''u''"] h show ?thesis by blast
qed




text \<open>
  The fuel stands for the depth of the call stack, which the nesting of the input uses
  up: eight open brackets need more than six nested calls, while two statements in a
  row, of as many tokens, are parsed within them. A number of nested calls beyond the
  number of tokens is always enough.
\<close>

lemma parse_nesting_needs_stack:
  "andThen (tokenize 40 ''defvar x = [[[[[[[['') (\<lambda>tokens. Returns (length tokens)) = Returns 12
   \<and> andThen (tokenize 40 ''defvar x = [[[[[[[['') (\<lambda>tokens. parse 6 tokens ''u'') = OutOfFuel
   \<and> andThen (tokenize 40 ''defvar x = [[[[[[[['')
         (\<lambda>tokens. andThen (parse 13 tokens ''u'') (\<lambda>parsed. Returns (length (pf_statements parsed))))
       = Returns 1
   \<and> andThen (tokenize 40 ''defvar x = 1; defvar y = 2;'') (\<lambda>tokens. Returns (length tokens)) = Returns 11
   \<and> andThen (tokenize 40 ''defvar x = 1; defvar y = 2;'')
         (\<lambda>tokens. andThen (parse 6 tokens ''u'') (\<lambda>parsed. Returns (length (pf_statements parsed))))
       = Returns 2"
  by code_simp

end
